(* ===== verification/Prelude.thy ===== *)
theory Prelude
  imports Main "HOL-Library.Word"
begin

text \<open>
  Shared vocabulary of the development.

  \<^item> Names for the C scalar types of \<^verbatim>\<open>src/types.h\<close> and the two's complement reading of
    a 32-bit \<^verbatim>\<open>int\<close>.
  \<^item> The outcome of running a piece of kernel code. A kernel function is a function from the
    kernel state to an outcome: it returns (\<open>Done\<close>), it gives up the processor by switching
    to the scheduler (\<open>Switches\<close>, with the state at the switch), it spins on a lock another
    processor holds (\<open>Spins\<close>), it panics with the source's message (\<open>Panic\<close>), or it does
    something C leaves undefined, such as an access outside an array (\<open>Undef\<close>).
  \<^item> A sequencing operator for such functions, and two judgements about them: \<open>runs m s Q\<close>
    (the code returns and the result satisfies \<open>Q\<close>) and \<open>if_runs m s Q\<close> (if it
    returns, the result satisfies \<open>Q\<close>), with the rules that let the simplifier walk
    through a function body.
  \<^item> List lemmas used by several components.
\<close>

unbundle bit_operations_syntax

subsection \<open>C scalar types\<close>

type_synonym uchar = "8 word"
type_synonym ushort = "16 word"
type_synonym uint = "32 word"

text \<open>A C \<^verbatim>\<open>int\<close> is kept as its mathematical value; \<open>int32\<close> brings the result of an
  arithmetic operation back into the range of a 32-bit two's complement integer, the way the
  compiled code does.\<close>

definition int32 :: "int \<Rightarrow> int" where
  "int32 x = sint (word_of_int x :: 32 word)"

definition is_int32 :: "int \<Rightarrow> bool" where
  "is_int32 x \<longleftrightarrow> - (2 ^ 31) \<le> x \<and> x < 2 ^ 31"

lemma int32_id [simp]: "is_int32 x \<Longrightarrow> int32 x = x"
  by (simp add: int32_def is_int32_def sint_sbintrunc' signed_take_bit_int_eq_self)

lemma is_int32_int32 [simp]: "is_int32 (int32 x)"
  using sint_range_size [of "word_of_int x :: 32 word"]
  by (simp add: int32_def is_int32_def word_size sint_less sint_greater_eq)

subsection \<open>Outcomes of kernel code\<close>

text \<open>The channels a process can sleep on: in the source a channel is the address of some
  kernel object.\<close>

datatype chan =
    Chan_proc nat        \<comment> \<open>a process slot, used by wait\<close>
  | Chan_sleeplock nat   \<comment> \<open>a sleep lock\<close>
  | Chan_buf nat         \<comment> \<open>a buffer waiting for the disk\<close>
  | Chan_log             \<comment> \<open>the log\<close>
  | Chan_nread nat       \<comment> \<open>the read counter of a pipe\<close>
  | Chan_nwrite nat      \<comment> \<open>the write counter of a pipe\<close>
  | Chan_input           \<comment> \<open>the console input buffer\<close>
  | Chan_ticks           \<comment> \<open>the clock\<close>

text \<open>The spin locks of the kernel, one per lock object of the source.\<close>

datatype lockid =
    Lk_ptable | Lk_ctable | Lk_kmem | Lk_bcache | Lk_icache | Lk_ftable | Lk_log
  | Lk_ticks | Lk_cons | Lk_ide | Lk_pipe nat | Lk_sleep nat

datatype ('a, 's) outcome =
    Done 'a 's
  | Switches 's
  | Spins lockid
  | Panic string
  | Undef string

type_synonym ('s, 'a) kern = "'s \<Rightarrow> ('a, 's) outcome"

definition ret :: "'a \<Rightarrow> ('s, 'a) kern" where
  "ret a = (\<lambda>s. Done a s)"

definition bnd :: "('s, 'a) kern \<Rightarrow> ('a \<Rightarrow> ('s, 'b) kern) \<Rightarrow> ('s, 'b) kern" where
  "bnd m f = (\<lambda>s. case m s of
      Done a t \<Rightarrow> f a t
    | Switches t \<Rightarrow> Switches t
    | Spins l \<Rightarrow> Spins l
    | Panic e \<Rightarrow> Panic e
    | Undef e \<Rightarrow> Undef e)"

definition sq :: "('s, 'a) kern \<Rightarrow> ('s, 'b) kern \<Rightarrow> ('s, 'b) kern" where
  "sq m n = bnd m (\<lambda>_. n)"

definition gets :: "('s \<Rightarrow> 'a) \<Rightarrow> ('s, 'a) kern" where
  "gets f = (\<lambda>s. Done (f s) s)"

definition modify :: "('s \<Rightarrow> 's) \<Rightarrow> ('s, unit) kern" where
  "modify f = (\<lambda>s. Done () (f s))"

definition panic :: "string \<Rightarrow> ('s, 'a) kern" where
  "panic e = (\<lambda>s. Panic e)"

definition undef :: "string \<Rightarrow> ('s, 'a) kern" where
  "undef e = (\<lambda>s. Undef e)"

definition whenM :: "bool \<Rightarrow> ('s, unit) kern \<Rightarrow> ('s, unit) kern" where
  "whenM b m = (if b then m else ret ())"

text \<open>A \<^verbatim>\<open>for\<close> loop over the elements of a list.\<close>

primrec for_each :: "'i list \<Rightarrow> ('i \<Rightarrow> ('s, unit) kern) \<Rightarrow> ('s, unit) kern" where
  "for_each [] f = ret ()"
| "for_each (i # is) f = sq (f i) (for_each is f)"

subsection \<open>Two judgements\<close>

definition runs :: "('s, 'a) kern \<Rightarrow> 's \<Rightarrow> ('a \<Rightarrow> 's \<Rightarrow> bool) \<Rightarrow> bool" where
  "runs m s Q \<longleftrightarrow> (\<exists>a t. m s = Done a t \<and> Q a t)"

definition if_runs :: "('s, 'a) kern \<Rightarrow> 's \<Rightarrow> ('a \<Rightarrow> 's \<Rightarrow> bool) \<Rightarrow> bool" where
  "if_runs m s Q \<longleftrightarrow> (\<forall>a t. m s = Done a t \<longrightarrow> Q a t)"

named_theorems kern \<open>rules that unfold kernel code under the two judgements\<close>

lemmas kern_defs = ret_def bnd_def sq_def gets_def modify_def panic_def undef_def whenM_def

lemma runs_ret [kern]: "runs (ret a) s Q \<longleftrightarrow> Q a s"
  by (simp add: runs_def ret_def)

lemma runs_bnd [kern]: "runs (bnd m f) s Q \<longleftrightarrow> runs m s (\<lambda>a t. runs (f a) t Q)"
  by (auto simp: runs_def bnd_def split: outcome.splits)

lemma runs_sq [kern]: "runs (sq m n) s Q \<longleftrightarrow> runs m s (\<lambda>_ t. runs n t Q)"
  by (simp add: sq_def runs_bnd)

lemma runs_gets [kern]: "runs (gets f) s Q \<longleftrightarrow> Q (f s) s"
  by (simp add: runs_def gets_def)

lemma runs_modify [kern]: "runs (modify f) s Q \<longleftrightarrow> Q () (f s)"
  by (simp add: runs_def modify_def)

lemma runs_panic [kern]: "\<not> runs (panic e) s Q"
  by (simp add: runs_def panic_def)

lemma runs_undef [kern]: "\<not> runs (undef e) s Q"
  by (simp add: runs_def undef_def)

lemma runs_when [kern]: "runs (whenM b m) s Q \<longleftrightarrow> (if b then runs m s Q else Q () s)"
  by (simp add: whenM_def runs_ret)

lemma runs_if [kern]: "runs (if b then m else n) s Q \<longleftrightarrow> (if b then runs m s Q else runs n s Q)"
  by simp

lemma if_runs_ret [kern]: "if_runs (ret a) s Q \<longleftrightarrow> Q a s"
  by (simp add: if_runs_def ret_def)

lemma if_runs_bnd [kern]: "if_runs (bnd m f) s Q \<longleftrightarrow> if_runs m s (\<lambda>a t. if_runs (f a) t Q)"
  by (auto simp: if_runs_def bnd_def split: outcome.splits)

lemma if_runs_sq [kern]: "if_runs (sq m n) s Q \<longleftrightarrow> if_runs m s (\<lambda>_ t. if_runs n t Q)"
  by (simp add: sq_def if_runs_bnd)

lemma if_runs_gets [kern]: "if_runs (gets f) s Q \<longleftrightarrow> Q (f s) s"
  by (simp add: if_runs_def gets_def)

lemma if_runs_modify [kern]: "if_runs (modify f) s Q \<longleftrightarrow> Q () (f s)"
  by (simp add: if_runs_def modify_def)

lemma if_runs_panic [kern]: "if_runs (panic e) s Q"
  by (simp add: if_runs_def panic_def)

lemma if_runs_undef [kern]: "if_runs (undef e) s Q"
  by (simp add: if_runs_def undef_def)

lemma if_runs_when [kern]:
  "if_runs (whenM b m) s Q \<longleftrightarrow> (if b then if_runs m s Q else Q () s)"
  by (simp add: whenM_def if_runs_ret)

lemma if_runs_if [kern]:
  "if_runs (if b then m else n) s Q \<longleftrightarrow> (if b then if_runs m s Q else if_runs n s Q)"
  by simp

lemma runs_weaken: "runs m s P \<Longrightarrow> (\<And>a t. P a t \<Longrightarrow> Q a t) \<Longrightarrow> runs m s Q"
  by (auto simp: runs_def)

lemma if_runs_weaken: "if_runs m s P \<Longrightarrow> (\<And>a t. P a t \<Longrightarrow> Q a t) \<Longrightarrow> if_runs m s Q"
  by (auto simp: if_runs_def)

lemma runs_if_runs: "runs m s P \<Longrightarrow> if_runs m s P"
  by (auto simp: runs_def if_runs_def)

lemma runs_Done: "m s = Done a t \<Longrightarrow> runs m s Q \<longleftrightarrow> Q a t"
  by (simp add: runs_def)

lemma if_runs_Done: "m s = Done a t \<Longrightarrow> if_runs m s Q \<longleftrightarrow> Q a t"
  by (simp add: if_runs_def)

lemma if_runsD: "if_runs m s Q \<Longrightarrow> m s = Done a t \<Longrightarrow> Q a t"
  by (simp add: if_runs_def)

lemma runsE: "runs m s Q \<Longrightarrow> (\<And>a t. m s = Done a t \<Longrightarrow> Q a t \<Longrightarrow> thesis) \<Longrightarrow> thesis"
  by (auto simp: runs_def)

text \<open>Loop rule: an invariant indexed by the elements already visited.\<close>

lemma runs_for_each:
  assumes "I 0 s"
    and "\<And>k t. k < length is \<Longrightarrow> I k t \<Longrightarrow> runs (f (is ! k)) t (\<lambda>_. I (Suc k))"
  shows "runs (for_each is f) s (\<lambda>_. I (length is))"
  using assms
proof (induction "is" arbitrary: s I)
  case Nil
  then show ?case by (simp add: kern)
next
  case (Cons i "is")
  have "runs (f i) s (\<lambda>_. I (Suc 0))"
    using Cons.prems(1) Cons.prems(2) [of 0] by simp
  then have "runs (f i) s (\<lambda>_ t. runs (for_each is f) t (\<lambda>_. I (Suc (length is))))"
  proof (rule runs_weaken)
    fix t assume "I (Suc 0) t"
    then show "runs (for_each is f) t (\<lambda>_. I (Suc (length is)))"
      using Cons.IH [of "\<lambda>k. I (Suc k)" t] Cons.prems(2) [of "Suc _"] by simp
  qed
  then show ?case by (simp add: kern)
qed

lemma if_runs_for_each:
  assumes "I 0 s"
    and "\<And>k t. k < length is \<Longrightarrow> I k t \<Longrightarrow> if_runs (f (is ! k)) t (\<lambda>_. I (Suc k))"
  shows "if_runs (for_each is f) s (\<lambda>_. I (length is))"
  using assms
proof (induction "is" arbitrary: s I)
  case Nil
  then show ?case by (simp add: kern)
next
  case (Cons i "is")
  have "if_runs (f i) s (\<lambda>_. I (Suc 0))"
    using Cons.prems(1) Cons.prems(2) [of 0] by simp
  then have "if_runs (f i) s (\<lambda>_ t. if_runs (for_each is f) t (\<lambda>_. I (Suc (length is))))"
  proof (rule if_runs_weaken)
    fix t assume "I (Suc 0) t"
    then show "if_runs (for_each is f) t (\<lambda>_. I (Suc (length is)))"
      using Cons.IH [of "\<lambda>k. I (Suc k)" t] Cons.prems(2) [of "Suc _"] by simp
  qed
  then show ?case by (simp add: kern)
qed

lemma for_each_append: "for_each (xs @ ys) f = sq (for_each xs f) (for_each ys f)"
  by (induction xs) (auto simp: kern_defs fun_eq_iff split: outcome.splits)

lemma for_each_skip: "(\<And>i. i \<in> set is \<Longrightarrow> f i s = Done () s) \<Longrightarrow> for_each is f s = Done () s"
  by (induction "is") (auto simp: kern_defs)

text \<open>A scan in which only one element acts.\<close>

lemma runs_for_each_one:
  assumes "c < n" "\<And>i t. i < n \<Longrightarrow> i \<noteq> c \<Longrightarrow> I t \<Longrightarrow> f i t = Done () t" "I s"
    "runs (f c) s (\<lambda>_ t. I t \<and> Q () t)"
  shows "runs (for_each [0..<n] f) s Q"
proof -
  have split: "[0..<n] = [0..<c] @ c # [Suc c..<n]"
    using assms(1) by (metis le_add1 less_imp_le_nat upt_add_eq_append upt_conv_Cons add_diff_inverse_nat not_less plus_nat.add_0)
  have "for_each [0..<c] f s = Done () s"
    using assms by (intro for_each_skip) auto
  moreover have "for_each [Suc c..<n] f t = Done () t" if "I t" for t
    using assms that by (intro for_each_skip) auto
  ultimately show ?thesis
    using assms(4) unfolding split for_each_append by (auto simp: runs_def kern_defs)
qed

subsection \<open>Keeping an invariant\<close>

text \<open>\<open>keeps I m Q\<close>: the code \<open>m\<close>, started in a state with invariant \<open>I\<close>, leaves the invariant true when it returns, with a
  result satisfying \<open>Q\<close>, and when it gives up the processor.\<close>

definition keeps :: "('s \<Rightarrow> bool) \<Rightarrow> ('s, 'a) kern \<Rightarrow> ('a \<Rightarrow> bool) \<Rightarrow> bool" where
  "keeps I m Q \<longleftrightarrow> (\<forall>s. I s \<longrightarrow> (case m s of Done a t \<Rightarrow> I t \<and> Q a | Switches t \<Rightarrow> I t | _ \<Rightarrow> True))"

abbreviation keep :: "('s \<Rightarrow> bool) \<Rightarrow> ('s, 'a) kern \<Rightarrow> bool" where
  "keep I m \<equiv> keeps I m (\<lambda>_. True)"

lemma keeps_ret: "Q a \<Longrightarrow> keeps I (ret a) Q"
  by (simp add: keeps_def ret_def)

lemma keeps_gets: "(\<And>s. I s \<Longrightarrow> Q (f s)) \<Longrightarrow> keeps I (gets f) Q"
  by (simp add: keeps_def gets_def)

lemma keep_any: "keep I (ret a)" "keep I (gets f)"
  by (simp_all add: keeps_ret keeps_gets)

lemma keeps_panic: "keeps I (panic e) Q"
  by (simp add: keeps_def panic_def)

lemma keeps_undef: "keeps I (undef e) Q"
  by (simp add: keeps_def undef_def)

lemma keeps_spins: "keeps I (\<lambda>s. Spins l) Q"
  by (simp add: keeps_def)

lemma keeps_switches: "keeps I (\<lambda>s. Switches s) Q"
  by (simp add: keeps_def)

lemma keeps_modify: "(\<And>s. I s \<Longrightarrow> I (f s)) \<Longrightarrow> keep I (modify f)"
  by (simp add: keeps_def modify_def)

lemma keepsD: "keeps I m Q \<Longrightarrow> I s \<Longrightarrow> (case m s of Done a t \<Rightarrow> I t \<and> Q a | Switches t \<Rightarrow> I t | _ \<Rightarrow> True)"
  by (simp add: keeps_def)

lemma keeps_bnd:
  assumes m: "keeps I m P" and f: "\<And>a. P a \<Longrightarrow> keeps I (f a) Q"
  shows "keeps I (bnd m f) Q"
  unfolding keeps_def
proof (intro allI impI)
  fix s assume "I s"
  note M = keepsD [OF m this]
  show "case bnd m f s of Done a t \<Rightarrow> I t \<and> Q a | Switches t \<Rightarrow> I t | _ \<Rightarrow> True"
  proof (cases "m s")
    case (Done a t)
    then show ?thesis using M keepsD [OF f [of a], of t] by (simp add: bnd_def)
  qed (use M in \<open>simp_all add: bnd_def\<close>)
qed

lemma keeps_bnd_gets: "(\<And>s. I s \<Longrightarrow> keeps I (k (f s)) Q) \<Longrightarrow> keeps I (bnd (gets f) k) Q"
  by (simp add: keeps_def bnd_def gets_def)

lemma keeps_sq: "keeps I m P \<Longrightarrow> keeps I n Q \<Longrightarrow> keeps I (sq m n) Q"
  unfolding sq_def by (rule keeps_bnd)

lemma keeps_if: "(c \<Longrightarrow> keeps I m Q) \<Longrightarrow> (\<not> c \<Longrightarrow> keeps I n Q) \<Longrightarrow> keeps I (if c then m else n) Q"
  by simp

lemma keeps_when: "(c \<Longrightarrow> keep I m) \<Longrightarrow> keep I (whenM c m)"
  by (simp add: whenM_def keeps_ret)

lemma keeps_Let: "keeps I (f x) Q \<Longrightarrow> keeps I (Let x f) Q"
  by simp

lemma keeps_option:
  "(r = None \<Longrightarrow> keeps I m Q) \<Longrightarrow> (\<And>x. r = Some x \<Longrightarrow> keeps I (n x) Q) \<Longrightarrow> keeps I (case r of None \<Rightarrow> m | Some x \<Rightarrow> n x) Q"
  by (cases r) simp_all

lemma keeps_prod: "(\<And>x y. p = (x, y) \<Longrightarrow> keeps I (f x y) Q) \<Longrightarrow> keeps I (case p of (x, y) \<Rightarrow> f x y) Q"
  by (cases p) simp

lemma keeps_list:
  "(l = [] \<Longrightarrow> keeps I m Q) \<Longrightarrow> (\<And>x xs. l = x # xs \<Longrightarrow> keeps I (n x xs) Q) \<Longrightarrow> keeps I (case l of [] \<Rightarrow> m | x # xs \<Rightarrow> n x xs) Q"
  by (cases l) simp_all

lemma keeps_for_each: "(\<And>i. i \<in> set is \<Longrightarrow> keeps I (f i) (P i)) \<Longrightarrow> keep I (for_each is f)"
proof (induction "is")
  case (Cons i "is")
  have "keeps I (f i) (P i)" "keep I (for_each is f)" using Cons by simp_all
  then show ?case unfolding for_each.simps by (rule keeps_sq)
qed (simp add: keeps_ret)

lemma keeps_weaken:
  assumes "keeps I m P" "\<And>a. P a \<Longrightarrow> Q a"
  shows "keeps I m Q"
  unfolding keeps_def
proof (intro allI impI)
  fix s assume "I s"
  from keepsD [OF assms(1) this] show "case m s of Done a t \<Rightarrow> I t \<and> Q a | Switches t \<Rightarrow> I t | _ \<Rightarrow> True"
    using assms(2) by (cases "m s") simp_all
qed

lemmas keeps_rules = keep_any keeps_bnd_gets keeps_bnd keeps_sq keeps_ret keeps_panic keeps_undef keeps_spins keeps_switches
  keeps_if keeps_when keeps_Let keeps_option keeps_prod keeps_list keeps_gets keeps_for_each

subsection \<open>Searching a table\<close>

text \<open>The scan \<^verbatim>\<open>for(p = table; p < &table[N]; p++) if(P(p)) ...\<close> with an early exit: the
  index of the first entry that satisfies the test.\<close>

definition first_index :: "('a \<Rightarrow> bool) \<Rightarrow> 'a list \<Rightarrow> nat option" where
  "first_index P xs = find (\<lambda>i. P (xs ! i)) [0..<length xs]"

lemma first_index_Some:
  "first_index P xs = Some i \<longleftrightarrow> i < length xs \<and> P (xs ! i) \<and> (\<forall>j < i. \<not> P (xs ! j))"
  by (auto simp: first_index_def find_Some_iff)

lemma first_index_None: "first_index P xs = None \<longleftrightarrow> (\<forall>x \<in> set xs. \<not> P x)"
  by (simp add: first_index_def find_None_iff all_set_conv_all_nth)

lemma first_index_cong: "(\<And>x. x \<in> set xs \<Longrightarrow> P x = Q x) \<Longrightarrow> first_index P xs = first_index Q xs"
  by (auto simp: first_index_def intro!: find_cong)

lemma nth_list_update_if: "i < length xs \<Longrightarrow> xs[i := x] ! j = (if j = i then x else xs ! j)"
  by (simp add: nth_list_update)

lemma nth_update_same: "f x = f (xs ! i) \<Longrightarrow> f (xs[i := x] ! j) = f (xs ! j)"
  by (cases "j = i"; cases "i < length xs") (auto simp: list_update_beyond)

end
