(* ===== verification/Spinlock.thy ===== *)
theory Spinlock
  imports Prelude
begin

text \<open>
  Per-processor interrupt state and spin locks: \<^verbatim>\<open>src/spinlock.c\<close>, \<^verbatim>\<open>mycpu\<close> of
  \<^verbatim>\<open>src/proc.c\<close> and the structs of \<^verbatim>\<open>src/proc.h\<close> and \<^verbatim>\<open>src/spinlock.h\<close>.

  The state \<open>kcpu\<close> holds what one processor sees while it runs kernel code: its interrupt
  flag and APIC id (hardware), the table of processors and every spin lock. Later components
  extend this record with their own globals, so each function below is usable from all of them.
  The call stack recorded for debugging (\<^verbatim>\<open>lk->pcs\<close>) is not part of the state.
\<close>

subsection \<open>State\<close>

record spinlock =
  locked :: bool
  lk_name :: string
  lk_cpu :: "nat option"

record cpu =
  apicid :: nat
  ncli :: int
  intena :: bool
  cpu_proc :: "nat option"
  ts_esp0 :: uint        \<comment> \<open>kernel stack the hardware switches to on a trap\<close>

record kcpu =
  hw_if :: bool          \<comment> \<open>FL_IF of the executing processor\<close>
  hw_lapicid :: nat      \<comment> \<open>what lapicid() reads\<close>
  cpus :: "cpu list"     \<comment> \<open>cpus[0..ncpu)\<close>
  locks :: "lockid \<Rightarrow> spinlock"

subsection \<open>Operations\<close>

definition cli :: "('x kcpu_scheme, unit) kern" where
  "cli = modify (\<lambda>s. s\<lparr>hw_if := False\<rparr>)"

definition sti :: "('x kcpu_scheme, unit) kern" where
  "sti = modify (\<lambda>s. s\<lparr>hw_if := True\<rparr>)"

definition mycpu :: "('x kcpu_scheme, nat) kern" where
  "mycpu = bnd (gets hw_if) (\<lambda>f.
     if f then panic (''mycpu called with interrupts enabled'' @ [CHR 0x0A])
     else bnd (gets (\<lambda>s. first_index (\<lambda>c. apicid c = hw_lapicid s) (cpus s))) (\<lambda>r.
       case r of Some i \<Rightarrow> ret i | None \<Rightarrow> panic (''unknown apicid'' @ [CHR 0x0A])))"

definition upd_cpu :: "nat \<Rightarrow> (cpu \<Rightarrow> cpu) \<Rightarrow> 'x kcpu_scheme \<Rightarrow> 'x kcpu_scheme" where
  "upd_cpu i f s = s\<lparr>cpus := (cpus s)[i := f (cpus s ! i)]\<rparr>"

definition pushcli :: "('x kcpu_scheme, unit) kern" where
  "pushcli = bnd (gets hw_if) (\<lambda>eflags.
     sq cli (
     bnd mycpu (\<lambda>c. bnd (gets (\<lambda>s. ncli (cpus s ! c))) (\<lambda>n.
     sq (whenM (n = 0) (modify (upd_cpu c (\<lambda>k. k\<lparr>intena := eflags\<rparr>))))
        (modify (upd_cpu c (\<lambda>k. k\<lparr>ncli := ncli k + 1\<rparr>)))))))"

definition popcli :: "('x kcpu_scheme, unit) kern" where
  "popcli = bnd (gets hw_if) (\<lambda>f.
     if f then panic ''popcli - interruptible''
     else bnd mycpu (\<lambda>c.
       sq (modify (upd_cpu c (\<lambda>k. k\<lparr>ncli := ncli k - 1\<rparr>))) (
       bnd (gets (\<lambda>s. cpus s ! c)) (\<lambda>cc.
         if ncli cc < 0 then panic ''popcli''
         else whenM (ncli cc = 0 \<and> intena cc) sti))))"

definition holding :: "lockid \<Rightarrow> ('x kcpu_scheme, bool) kern" where
  "holding lk = sq pushcli (bnd mycpu (\<lambda>c.
     bnd (gets (\<lambda>s. locked (locks s lk) \<and> lk_cpu (locks s lk) = Some c)) (\<lambda>r.
     sq popcli (ret r))))"

definition upd_lock :: "lockid \<Rightarrow> (spinlock \<Rightarrow> spinlock) \<Rightarrow> 'x kcpu_scheme \<Rightarrow> 'x kcpu_scheme" where
  "upd_lock lk f s = s\<lparr>locks := (locks s)(lk := f (locks s lk))\<rparr>"

definition initlock :: "lockid \<Rightarrow> string \<Rightarrow> ('x kcpu_scheme, unit) kern" where
  "initlock lk nm = modify (upd_lock lk (\<lambda>_. \<lparr>locked = False, lk_name = nm, lk_cpu = None\<rparr>))"

text \<open>The \<^verbatim>\<open>xchg\<close> of \<^verbatim>\<open>acquire\<close>: it stores 1 and returns the old value. The loop around it
  ends at once when the lock is free; when it is not, this processor can only spin.\<close>

definition xchg_locked :: "lockid \<Rightarrow> ('x kcpu_scheme, bool) kern" where
  "xchg_locked lk = bnd (gets (\<lambda>s. locked (locks s lk))) (\<lambda>old.
     sq (modify (upd_lock lk (\<lambda>l. l\<lparr>locked := True\<rparr>))) (ret old))"

definition acquire :: "lockid \<Rightarrow> ('x kcpu_scheme, unit) kern" where
  "acquire lk = sq pushcli (bnd (holding lk) (\<lambda>h.
     if h then panic ''acquire''
     else bnd (xchg_locked lk) (\<lambda>old.
       if old then (\<lambda>s. Spins lk)
       else bnd mycpu (\<lambda>c. modify (upd_lock lk (\<lambda>l. l\<lparr>lk_cpu := Some c\<rparr>))))))"

definition release :: "lockid \<Rightarrow> ('x kcpu_scheme, unit) kern" where
  "release lk = bnd (holding lk) (\<lambda>h.
     if \<not> h then panic ''release''
     else sq (modify (upd_lock lk (\<lambda>l. l\<lparr>lk_cpu := None\<rparr>)))
         (sq (modify (upd_lock lk (\<lambda>l. l\<lparr>locked := False\<rparr>))) popcli))"

subsection \<open>The executing processor\<close>

definition cpu_idx :: "'x kcpu_scheme \<Rightarrow> nat option" where
  "cpu_idx s = first_index (\<lambda>c. apicid c = hw_lapicid s) (cpus s)"

text \<open>Interrupt discipline: the executing processor is known, its nesting depth is not
  negative, and while it is positive interrupts are off.\<close>

definition cpu_ok :: "'x kcpu_scheme \<Rightarrow> bool" where
  "cpu_ok s \<longleftrightarrow> (\<exists>i. cpu_idx s = Some i \<and> 0 \<le> ncli (cpus s ! i) \<and>
     (0 < ncli (cpus s ! i) \<longrightarrow> \<not> hw_if s))"

definition me :: "'x kcpu_scheme \<Rightarrow> nat" where
  "me s = the (cpu_idx s)"

definition depth :: "'x kcpu_scheme \<Rightarrow> int" where
  "depth s = ncli (cpus s ! me s)"

definition held :: "lockid \<Rightarrow> 'x kcpu_scheme \<Rightarrow> bool" where
  "held lk s \<longleftrightarrow> locked (locks s lk) \<and> lk_cpu (locks s lk) = Some (me s)"

definition unlocked :: "lockid \<Rightarrow> 'x kcpu_scheme \<Rightarrow> bool" where
  "unlocked lk s \<longleftrightarrow> \<not> locked (locks s lk) \<and> lk_cpu (locks s lk) = None"

text \<open>What \<^verbatim>\<open>pushcli\<close>, \<^verbatim>\<open>popcli\<close>, \<^verbatim>\<open>acquire\<close> and \<^verbatim>\<open>release\<close> do to the state when they return, and
  \<open>settled\<close>, the net effect of a balanced critical section: only the saved interrupt flag of
  the processor can differ.\<close>

definition pushed :: "'x kcpu_scheme \<Rightarrow> 'x kcpu_scheme" where
  "pushed s = s\<lparr>hw_if := False, cpus := (cpus s)[me s := (cpus s ! me s)
     \<lparr>intena := (if ncli (cpus s ! me s) = 0 then hw_if s else intena (cpus s ! me s)),
      ncli := ncli (cpus s ! me s) + 1\<rparr>]\<rparr>"

definition popped :: "'x kcpu_scheme \<Rightarrow> 'x kcpu_scheme" where
  "popped s = s\<lparr>hw_if := (depth s = 1 \<and> intena (cpus s ! me s)),
     cpus := (cpus s)[me s := (cpus s ! me s)\<lparr>ncli := ncli (cpus s ! me s) - 1\<rparr>]\<rparr>"

definition acquired :: "lockid \<Rightarrow> 'x kcpu_scheme \<Rightarrow> 'x kcpu_scheme" where
  "acquired lk s = upd_lock lk (\<lambda>l. l\<lparr>locked := True, lk_cpu := Some (me s)\<rparr>) (pushed s)"

definition released :: "lockid \<Rightarrow> 'x kcpu_scheme \<Rightarrow> 'x kcpu_scheme" where
  "released lk s = popped (upd_lock lk (\<lambda>l. l\<lparr>lk_cpu := None, locked := False\<rparr>) s)"

definition settled :: "'x kcpu_scheme \<Rightarrow> 'x kcpu_scheme" where
  "settled s = s\<lparr>cpus := (cpus s)[me s := (cpus s ! me s)
     \<lparr>intena := (if ncli (cpus s ! me s) = 0 then hw_if s else intena (cpus s ! me s))\<rparr>]\<rparr>"

subsection \<open>The executing processor does not change\<close>

lemma cpu_idx_bound: "cpu_idx s = Some i \<Longrightarrow> i < length (cpus s)"
  by (simp add: cpu_idx_def first_index_Some)

lemma cpu_okE:
  assumes "cpu_ok s"
  obtains "cpu_idx s = Some (me s)" "me s < length (cpus s)" "0 \<le> depth s" "0 < depth s \<Longrightarrow> \<not> hw_if s"
  using assms cpu_idx_bound [of s] by (auto simp: cpu_ok_def me_def depth_def)

lemma cpu_okI:
  "cpu_idx s = Some (me s) \<Longrightarrow> 0 \<le> depth s \<Longrightarrow> (0 < depth s \<Longrightarrow> \<not> hw_if s) \<Longrightarrow> cpu_ok s"
  by (auto simp: cpu_ok_def me_def depth_def)

lemma depth_nonneg: "cpu_ok s \<Longrightarrow> 0 \<le> depth s"
  by (auto elim: cpu_okE)

lemma first_index_update_same:
  assumes "i < length xs" "P x = P (xs ! i)"
  shows "first_index P (xs[i := x]) = first_index P xs"
proof -
  have "\<And>k. k < length xs \<Longrightarrow> P (xs[i := x] ! k) = P (xs ! k)"
    using assms by (simp add: nth_list_update)
  then show ?thesis
    by (auto simp: first_index_def intro!: find_cong)
qed

lemma cpu_idx_upd:
  assumes "\<And>c. apicid (f c) = apicid c"
  shows "cpu_idx (s\<lparr>cpus := (cpus s)[i := f (cpus s ! i)]\<rparr>) = cpu_idx s"
  using assms
  by (cases "i < length (cpus s)")
     (auto simp: cpu_idx_def first_index_update_same list_update_beyond)

lemma cpu_idx_frame [simp]:
  "cpu_idx (s\<lparr>hw_if := b\<rparr>) = cpu_idx s" "cpu_idx (s\<lparr>locks := l\<rparr>) = cpu_idx s"
  "cpu_idx (upd_lock lk g s) = cpu_idx s"
  by (simp_all add: cpu_idx_def upd_lock_def)

lemma me_frame [simp]:
  "me (s\<lparr>hw_if := b\<rparr>) = me s" "me (s\<lparr>locks := l\<rparr>) = me s" "me (upd_lock lk g s) = me s"
  by (simp_all add: me_def)

lemma cpu_idx_upd_if:
  assumes "\<And>c. apicid (f c) = apicid c"
  shows "cpu_idx (s\<lparr>hw_if := b, cpus := (cpus s)[i := f (cpus s ! i)]\<rparr>) = cpu_idx s"
  using cpu_idx_upd [of f "s\<lparr>hw_if := b\<rparr>" i, OF assms] by simp

lemma cpu_idx_pushed [simp]: "cpu_idx (pushed s) = cpu_idx s"
  unfolding pushed_def
  by (rule cpu_idx_upd_if [of "\<lambda>c. c\<lparr>intena := (if ncli c = 0 then hw_if s else intena c), ncli := ncli c + 1\<rparr>"])
     simp

lemma cpu_idx_popped [simp]: "cpu_idx (popped s) = cpu_idx s"
  unfolding popped_def by (rule cpu_idx_upd_if [of "\<lambda>c. c\<lparr>ncli := ncli c - 1\<rparr>"]) simp

lemma cpu_idx_settled [simp]: "cpu_idx (settled s) = cpu_idx s"
  unfolding settled_def
  by (rule cpu_idx_upd [of "\<lambda>c. c\<lparr>intena := (if ncli c = 0 then hw_if s else intena c)\<rparr>"]) simp

lemma cpu_idx_lock_effects [simp]:
  "cpu_idx (acquired lk s) = cpu_idx s" "cpu_idx (released lk s) = cpu_idx s"
  by (simp_all add: acquired_def released_def)

lemma me_effects [simp]:
  "me (pushed s) = me s" "me (popped s) = me s" "me (acquired lk s) = me s"
  "me (released lk s) = me s" "me (settled s) = me s"
  by (simp_all add: me_def)

subsection \<open>The operations in closed form\<close>

lemma pushed_sel:
  "hw_if (pushed s) = False" "hw_lapicid (pushed s) = hw_lapicid s" "locks (pushed s) = locks s"
  "cpus (pushed s) = (cpus s)[me s := (cpus s ! me s)
     \<lparr>intena := (if ncli (cpus s ! me s) = 0 then hw_if s else intena (cpus s ! me s)),
      ncli := ncli (cpus s ! me s) + 1\<rparr>]"
  by (simp_all add: pushed_def)

lemma popped_sel:
  "hw_if (popped s) = (depth s = 1 \<and> intena (cpus s ! me s))"
  "hw_lapicid (popped s) = hw_lapicid s" "locks (popped s) = locks s"
  "cpus (popped s) = (cpus s)[me s := (cpus s ! me s)\<lparr>ncli := ncli (cpus s ! me s) - 1\<rparr>]"
  by (simp_all add: popped_def)

lemma settled_sel:
  "hw_if (settled s) = hw_if s" "hw_lapicid (settled s) = hw_lapicid s" "locks (settled s) = locks s"
  "cpus (settled s) = (cpus s)[me s := (cpus s ! me s)
     \<lparr>intena := (if ncli (cpus s ! me s) = 0 then hw_if s else intena (cpus s ! me s))\<rparr>]"
  by (simp_all add: settled_def)

lemma mycpu_Done: "cpu_idx s = Some i \<Longrightarrow> \<not> hw_if s \<Longrightarrow> mycpu s = Done i s"
  by (simp add: mycpu_def kern_defs cpu_idx_def)

lemma pushcli_Done:
  assumes "cpu_ok s"
  shows "pushcli s = Done () (pushed s)"
proof -
  from assms have i: "cpu_idx s = Some (me s)" and b: "me s < length (cpus s)"
    by (auto elim: cpu_okE)
  have "mycpu (s\<lparr>hw_if := False\<rparr>) = Done (me s) (s\<lparr>hw_if := False\<rparr>)"
    using i by (intro mycpu_Done) simp_all
  with b show ?thesis
    by (simp add: pushcli_def kern_defs cli_def upd_cpu_def pushed_def)
qed

lemma popcli_Done:
  assumes "cpu_ok s" "0 < depth s"
  shows "popcli s = Done () (popped s)"
proof -
  from assms have i: "cpu_idx s = Some (me s)" and b: "me s < length (cpus s)" and f: "\<not> hw_if s"
    by (auto elim: cpu_okE)
  have "mycpu s = Done (me s) s"
    using i f by (intro mycpu_Done)
  with b f assms(2) show ?thesis
    by (auto simp: popcli_def kern_defs sti_def upd_cpu_def popped_def depth_def intro!: kcpu.equality)
qed

lemma depth_pushed [simp]: "cpu_ok s \<Longrightarrow> depth (pushed s) = depth s + 1"
  by (auto simp: depth_def pushed_sel elim!: cpu_okE)

lemma cpu_ok_pushed [simp]: "cpu_ok s \<Longrightarrow> cpu_ok (pushed s)"
  by (rule cpu_okI) (auto elim: cpu_okE simp: pushed_sel(1))

lemma depth_popped [simp]: "cpu_ok s \<Longrightarrow> depth (popped s) = depth s - 1"
  by (auto simp: depth_def popped_sel elim!: cpu_okE)

lemma cpu_ok_popped [simp]: "cpu_ok s \<Longrightarrow> 0 < depth s \<Longrightarrow> cpu_ok (popped s)"
  by (rule cpu_okI) (auto elim: cpu_okE simp: popped_sel(1))

lemma depth_settled [simp]: "cpu_ok s \<Longrightarrow> depth (settled s) = depth s"
  by (auto simp: depth_def settled_sel elim!: cpu_okE)

lemma cpu_ok_settled [simp]: "cpu_ok s \<Longrightarrow> cpu_ok (settled s)"
  by (rule cpu_okI) (auto elim: cpu_okE simp: settled_sel(1))

lemma cpu_ncli_same: "ncli c = n \<Longrightarrow> c\<lparr>intena := b, ncli := n\<rparr> = c\<lparr>intena := b\<rparr>"
  by (rule cpu.equality) simp_all

lemma popped_pushed: "cpu_ok s \<Longrightarrow> popped (pushed s) = settled s"
  by (rule kcpu.equality)
     (auto simp: pushed_sel popped_sel settled_sel depth_pushed elim!: cpu_okE,
      auto simp: depth_def pushed_def popped_def settled_def cpu_ncli_same)

lemma settled_nested: "cpu_ok s \<Longrightarrow> 0 < depth s \<Longrightarrow> settled s = s"
  by (rule kcpu.equality)
     (auto simp: settled_def depth_def)

lemma holding_Done:
  assumes "cpu_ok s"
  shows "holding lk s = Done (held lk s) (settled s)"
proof -
  have p: "cpu_ok (pushed s)" "0 < depth (pushed s)"
    using assms by (auto elim: cpu_okE)
  have m: "mycpu (pushed s) = Done (me s) (pushed s)"
    using assms by (intro mycpu_Done) (auto elim: cpu_okE simp: pushed_sel)
  show ?thesis
    using assms p m
    by (simp add: holding_def kern_defs pushcli_Done popcli_Done popped_pushed held_def pushed_sel)
qed

lemma acquired_sel:
  "hw_if (acquired lk s) = False" "hw_lapicid (acquired lk s) = hw_lapicid s"
  "cpus (acquired lk s) = cpus (pushed s)"
  "locks (acquired lk s) = (locks s)(lk := (locks s lk)\<lparr>locked := True, lk_cpu := Some (me s)\<rparr>)"
  by (simp_all add: acquired_def upd_lock_def pushed_sel)

lemma cpu_ok_upd_lock [simp]: "cpu_ok (upd_lock lk f s) = cpu_ok s"
  by (simp add: cpu_ok_def upd_lock_def cpu_idx_def)

lemma depth_upd_lock [simp]: "depth (upd_lock lk f s) = depth s"
  by (simp add: depth_def upd_lock_def me_def cpu_idx_def)

lemma cpu_ok_acquired [simp]: "cpu_ok s \<Longrightarrow> cpu_ok (acquired lk s)"
  by (simp add: acquired_def)

lemma depth_acquired [simp]: "cpu_ok s \<Longrightarrow> depth (acquired lk s) = depth s + 1"
  by (simp add: acquired_def)

lemma cpu_ok_released [simp]: "cpu_ok s \<Longrightarrow> 0 < depth s \<Longrightarrow> cpu_ok (released lk s)"
  by (simp add: released_def)

lemma depth_released [simp]: "cpu_ok s \<Longrightarrow> depth (released lk s) = depth s - 1"
  by (simp add: released_def)

lemma held_settled [simp]: "held lk (settled s) = held lk s"
  by (simp add: held_def settled_sel)

lemma unlocked_settled [simp]: "unlocked lk (settled s) = unlocked lk s"
  by (simp add: unlocked_def settled_sel)

lemma held_acquired [simp]: "held l (acquired lk s) \<longleftrightarrow> l = lk \<or> held l s"
  by (simp add: held_def acquired_sel)

lemma unlocked_acquired [simp]: "unlocked l (acquired lk s) \<longleftrightarrow> l \<noteq> lk \<and> unlocked l s"
  by (simp add: unlocked_def acquired_sel)

lemma held_released [simp]: "held l (released lk s) \<longleftrightarrow> l \<noteq> lk \<and> held l s"
  by (simp add: held_def released_def popped_sel upd_lock_def)

lemma unlocked_released [simp]: "unlocked l (released lk s) \<longleftrightarrow> l = lk \<or> unlocked l s"
  by (simp add: unlocked_def released_def popped_sel upd_lock_def)

lemma held_not_unlocked: "held lk s \<Longrightarrow> \<not> unlocked lk s"
  by (simp add: held_def unlocked_def)

lemma acquire_Done:
  assumes "cpu_ok s" "unlocked lk s"
  shows "acquire lk s = Done () (acquired lk s)"
proof -
  have n: "cpu_ok (pushed s)" "0 < depth (pushed s)"
    using assms by (auto elim: cpu_okE)
  have st: "settled (pushed s) = pushed s" and nh: "\<not> held lk (pushed s)"
    using n assms(2) by (auto simp: settled_nested held_def unlocked_def pushed_sel)
  define t where "t = upd_lock lk (\<lambda>l. l\<lparr>locked := True\<rparr>) (pushed s)"
  have "mycpu t = Done (me s) t"
    using assms by (intro mycpu_Done) (auto simp: t_def elim: cpu_okE, simp add: upd_lock_def pushed_sel)
  with assms st nh show ?thesis
    by (simp add: acquire_def kern_defs pushcli_Done holding_Done xchg_locked_def unlocked_def
        pushed_sel flip: t_def)
       (simp add: t_def acquired_def upd_lock_def pushed_sel)
qed

lemma acquire_Spins:
  assumes "cpu_ok s" "locked (locks s lk)" "\<not> held lk s"
  shows "acquire lk s = Spins lk"
proof -
  have n: "cpu_ok (pushed s)" "0 < depth (pushed s)"
    using assms by (auto elim: cpu_okE)
  then have "settled (pushed s) = pushed s" by (simp add: settled_nested)
  moreover have "\<not> held lk (pushed s)" using assms(3) by (simp add: held_def pushed_sel)
  ultimately show ?thesis
    using assms n
    by (simp add: acquire_def kern_defs pushcli_Done holding_Done xchg_locked_def pushed_sel)
qed

lemma acquire_Panic:
  assumes "cpu_ok s" "held lk s"
  shows "acquire lk s = Panic ''acquire''"
proof -
  have "held lk (pushed s)" using assms(2) by (simp add: held_def pushed_sel)
  then show ?thesis
    using assms by (simp add: acquire_def kern_defs pushcli_Done holding_Done)
qed

lemma release_Done:
  assumes "cpu_ok s" "held lk s" "0 < depth s"
  shows "release lk s = Done () (released lk s)"
proof -
  have "upd_lock lk (\<lambda>l. l\<lparr>locked := False\<rparr>) (upd_lock lk (\<lambda>l. l\<lparr>lk_cpu := None\<rparr>) s)
      = upd_lock lk (\<lambda>l. l\<lparr>lk_cpu := None, locked := False\<rparr>) s"
    by (simp add: upd_lock_def)
  with assms show ?thesis
    by (simp add: release_def kern_defs holding_Done settled_nested popcli_Done released_def)
qed

lemma release_Panic: "cpu_ok s \<Longrightarrow> \<not> held lk s \<Longrightarrow> release lk s = Panic ''release''"
  by (simp add: release_def kern_defs holding_Done)

lemma released_acquired: 
  assumes "cpu_ok s" "unlocked lk s"
  shows "released lk (acquired lk s) = settled s"
proof -
  have "upd_lock lk (\<lambda>l. l\<lparr>lk_cpu := None, locked := False\<rparr>) (acquired lk s) = pushed s"
    using assms(2)
    by (intro kcpu.equality) (auto simp: acquired_def upd_lock_def unlocked_def pushed_sel fun_eq_iff)
  with assms(1) show ?thesis by (simp add: released_def popped_pushed)
qed

lemma popped_upd_lock: "popped (upd_lock lk f s) = upd_lock lk f (popped s)"
proof -
  have "depth (upd_lock lk f s) = depth s" "me (upd_lock lk f s) = me s" by simp_all
  then show ?thesis
    by (intro kcpu.equality) (simp_all add: popped_def upd_lock_def)
qed

text \<open>Releasing an outer lock while an inner one stays held, as \<^verbatim>\<open>sleep\<close> does.\<close>

lemma released_outer:
  assumes "cpu_ok s" "unlocked l1 s" "l1 \<noteq> l2"
  shows "released l1 (acquired l2 (acquired l1 s)) = acquired l2 s"
proof -
  have "upd_lock l1 (\<lambda>l. l\<lparr>lk_cpu := None, locked := False\<rparr>) (acquired l2 (acquired l1 s))
      = acquired l2 (pushed s)"
    using assms(2,3)
    by (intro kcpu.equality)
       (auto simp: acquired_def upd_lock_def unlocked_def pushed_def me_def cpu_idx_def fun_eq_iff)
  moreover have "popped (acquired l2 (pushed s)) = acquired l2 s"
  proof -
    have "popped (acquired l2 (pushed s)) =
        upd_lock l2 (\<lambda>l. l\<lparr>locked := True, lk_cpu := Some (me s)\<rparr>) (popped (pushed (pushed s)))"
      by (simp add: acquired_def popped_upd_lock)
    moreover have "popped (pushed (pushed s)) = pushed s"
      using assms(1) depth_nonneg [OF assms(1)] by (simp add: popped_pushed settled_nested)
    ultimately show ?thesis by (simp add: acquired_def)
  qed
  ultimately show ?thesis by (simp add: released_def)
qed

lemma settled_settled [simp]: "cpu_ok s \<Longrightarrow> settled (settled s) = settled s"
  by (rule kcpu.equality) (auto simp: settled_def me_def cpu_idx_upd elim!: cpu_okE)

lemma pushed_settled: "cpu_ok s \<Longrightarrow> pushed (settled s) = pushed s"
proof -
  assume "cpu_ok s"
  then have b: "me s < length (cpus s)" and m: "me (settled s) = me s" by (auto elim: cpu_okE)
  show ?thesis
    using b by (intro kcpu.equality) (simp_all add: pushed_def m, simp_all add: settled_def)
qed

lemma acquired_settled [simp]: "cpu_ok s \<Longrightarrow> acquired lk (settled s) = acquired lk s"
  by (simp add: acquired_def pushed_settled)

lemma runs_acquire [kern]:
  "cpu_ok s \<Longrightarrow> unlocked lk s \<Longrightarrow> runs (acquire lk) s Q \<longleftrightarrow> Q () (acquired lk s)"
  by (simp add: runs_Done acquire_Done)

lemma runs_release [kern]:
  "cpu_ok s \<Longrightarrow> held lk s \<Longrightarrow> 0 < depth s \<Longrightarrow> runs (release lk) s Q \<longleftrightarrow> Q () (released lk s)"
  by (simp add: runs_Done release_Done)

lemma depth_pos [simp]: "cpu_ok s \<Longrightarrow> 0 < depth s + 1" "cpu_ok s \<Longrightarrow> 0 \<le> depth s"
  using depth_nonneg [of s] by simp_all

subsection \<open>No contention\<close>

text \<open>A state in which the executing processor holds no lock, no other processor does either, and
  the saved interrupt flag is up to date: every critical section can be entered at once and
  leaves the lock layer exactly as it was.\<close>

definition idle :: "'x kcpu_scheme \<Rightarrow> bool" where
  "idle s \<longleftrightarrow> cpu_ok s \<and> settled s = s \<and> (\<forall>lk. unlocked lk s)"

lemma idleD [simp]:
  assumes "idle s"
  shows "cpu_ok s" "settled s = s" "unlocked lk s" "released lk (acquired lk s) = s"
    "0 < depth s + 1"
proof -
  show c: "cpu_ok s" and e: "settled s = s" and u: "unlocked lk s" using assms unfolding idle_def by blast+
  show "released lk (acquired lk s) = s" unfolding released_acquired [OF c u] by (rule e)
  show "0 < depth s + 1" using c by (rule depth_pos)
qed

subsection \<open>The current process\<close>

definition cur :: "'x kcpu_scheme \<Rightarrow> nat option" where
  "cur s = cpu_proc (cpus s ! me s)"

lemma cur_upd_lock [simp]: "cur (upd_lock lk h s) = cur s"
  by (simp add: cur_def) (simp add: upd_lock_def)

lemma cur_effects [simp]:
  assumes "cpu_ok s"
  shows "cur (pushed s) = cur s" "cur (settled s) = cur s" "cur (acquired lk s) = cur s"
    "cur (released lk s) = cur s"
proof -
  have b: "me s < length (cpus s)" using assms by (rule cpu_okE)
  then show p: "cur (pushed s) = cur s" "cur (settled s) = cur s" by (simp_all add: cur_def pushed_sel settled_sel)
  then show "cur (acquired lk s) = cur s" by (simp add: acquired_def)
  show "cur (released lk s) = cur s"
    using b by (simp add: cur_def released_def popped_sel) (simp add: upd_lock_def)
qed

text \<open>Updates of a processor entry that keep its APIC id and nesting depth.\<close>

lemma upd_cpu_frame:
  fixes s :: "'x kcpu_scheme" and i :: nat and f :: "cpu \<Rightarrow> cpu"
  assumes f: "\<And>k. apicid (f k) = apicid k" "\<And>k. ncli (f k) = ncli k"
  defines "u \<equiv> upd_cpu i f s"
  shows "cpu_ok u = cpu_ok s" "depth u = depth s" "me u = me s" "held lk u = held lk s"
    "unlocked lk u = unlocked lk s" "hw_if u = hw_if s"
proof -
  have i: "cpu_idx u = cpu_idx s"
    unfolding u_def upd_cpu_def by (rule cpu_idx_upd) (rule f(1))
  then show m: "me u = me s" by (simp add: me_def)
  have n: "ncli (cpus u ! j) = ncli (cpus s ! j)" for j
    unfolding u_def upd_cpu_def using f(2) by (simp add: nth_update_same)
  show "depth u = depth s" by (simp add: depth_def m n)
  show "hw_if u = hw_if s" by (simp add: u_def upd_cpu_def)
  then show "cpu_ok u = cpu_ok s" by (simp add: cpu_ok_def i n)
  show "held lk u = held lk s" "unlocked lk u = unlocked lk s"
    by (simp_all add: held_def unlocked_def m) (simp_all add: u_def upd_cpu_def)
qed

subsection \<open>Component state above the lock layer\<close>

text \<open>
  Each component of the kernel adds one field to the state record. The locale collects what
  the field's selector and update function owe the lock layer: they do not touch processors
  and locks. Its lemmas move an update of the field through the lock operations, so that a
  critical section \<open>acquire; update; release\<close> simplifies to the update alone.
\<close>

locale component_field =
  fixes sel :: "'x kcpu_scheme \<Rightarrow> 'f"
    and upd :: "('f \<Rightarrow> 'f) \<Rightarrow> 'x kcpu_scheme \<Rightarrow> 'x kcpu_scheme"
  assumes upd_hw_if: "hw_if (upd f s) = hw_if s"
    and upd_hw_lapicid: "hw_lapicid (upd f s) = hw_lapicid s"
    and upd_cpus: "cpus (upd f s) = cpus s"
    and upd_locks: "locks (upd f s) = locks s"
    and upd_comm_if: "upd f (s\<lparr>hw_if := b\<rparr>) = (upd f s)\<lparr>hw_if := b\<rparr>"
    and upd_comm_cpus: "upd f (s\<lparr>cpus := c\<rparr>) = (upd f s)\<lparr>cpus := c\<rparr>"
    and upd_comm_locks: "upd f (s\<lparr>locks := l\<rparr>) = (upd f s)\<lparr>locks := l\<rparr>"
    and sel_if: "sel (s\<lparr>hw_if := b\<rparr>) = sel s"
    and sel_cpus: "sel (s\<lparr>cpus := c\<rparr>) = sel s"
    and sel_locks: "sel (s\<lparr>locks := l\<rparr>) = sel s"
begin

lemma cpu_idx_upd_field [simp]: "cpu_idx (upd f s) = cpu_idx s"
  by (simp add: cpu_idx_def upd_hw_lapicid upd_cpus)

lemma me_upd_field [simp]: "me (upd f s) = me s"
  by (simp add: me_def)

lemma depth_upd_field [simp]: "depth (upd f s) = depth s"
  by (simp add: depth_def upd_cpus)

lemma cpu_ok_upd_field [simp]: "cpu_ok (upd f s) = cpu_ok s"
  by (simp add: cpu_ok_def upd_cpus upd_hw_if)

lemma cur_upd_field [simp]: "cur (upd f s) = cur s"
  by (simp add: cur_def upd_cpus)

lemma held_upd_field [simp]: "held lk (upd f s) = held lk s"
  by (simp add: held_def upd_locks)

lemma unlocked_upd_field [simp]: "unlocked lk (upd f s) = unlocked lk s"
  by (simp add: unlocked_def upd_locks)

lemma acquired_upd_field [simp]: "acquired lk (upd f s) = upd f (acquired lk s)"
  by (simp add: acquired_def upd_lock_def pushed_def upd_hw_if upd_cpus upd_locks
      upd_comm_if upd_comm_cpus upd_comm_locks)

lemma released_upd_field [simp]: "released lk (upd f s) = upd f (released lk s)"
proof -
  have "upd_lock lk g (upd f s) = upd f (upd_lock lk g s)" for g
    by (simp add: upd_lock_def upd_locks upd_comm_locks)
  then show ?thesis
    by (simp add: released_def popped_def upd_cpus upd_comm_if upd_comm_cpus)
qed

lemma settled_upd_field [simp]: "settled (upd f s) = upd f (settled s)"
  by (simp add: settled_def upd_hw_if upd_cpus upd_comm_cpus)

lemma idle_upd_field [simp]: "idle s \<Longrightarrow> idle (upd f s)"
  unfolding idle_def by (simp only: cpu_ok_upd_field settled_upd_field unlocked_upd_field) simp

lemma sel_upd_cpu [simp]: "sel (upd_cpu i f s) = sel s"
  by (simp add: upd_cpu_def sel_cpus)

lemma sel_effects [simp]:
  "sel (acquired lk s) = sel s" "sel (released lk s) = sel s" "sel (settled s) = sel s"
  by (simp_all add: acquired_def released_def settled_def pushed_def popped_def upd_lock_def
      sel_if sel_cpus sel_locks)

end

end
