(* ===== verification/Smp.thy ===== *)
theory Smp
  imports Spinlock
begin

text \<open>
  Several processors running \<^verbatim>\<open>acquire\<close> and \<^verbatim>\<open>release\<close> of \<^verbatim>\<open>src/spinlock.c\<close> against the same locks.
  A step is one completed call on one processor, or a processor that holds nothing changing its
  interrupt flag; the order of the steps is arbitrary. The history of a run says which
  processor is between the acquire and the release of which lock, and the theorem is mutual
  exclusion together with the reason \<^verbatim>\<open>acquire\<close> calls \<^verbatim>\<open>pushcli\<close>: a processor that holds a
  spin lock runs with interrupts off.
\<close>

record smp =
  smp_cpus :: "cpu list"
  smp_locks :: "lockid \<Rightarrow> spinlock"
  smp_if :: "nat \<Rightarrow> bool"

definition focus :: "nat \<Rightarrow> smp \<Rightarrow> kcpu" where
  "focus i m = \<lparr>hw_if = smp_if m i, hw_lapicid = apicid (smp_cpus m ! i),
     cpus = smp_cpus m, locks = smp_locks m\<rparr>"

definition defocus :: "nat \<Rightarrow> kcpu \<Rightarrow> smp \<Rightarrow> smp" where
  "defocus i s m = \<lparr>smp_cpus = cpus s, smp_locks = locks s, smp_if = (smp_if m)(i := hw_if s)\<rparr>"

datatype lock_event = Acq nat lockid | Rel nat lockid

text \<open>Histories are kept latest event first.\<close>

inductive smp_run :: "smp \<Rightarrow> lock_event list \<Rightarrow> smp \<Rightarrow> bool" for m0 where
  smp_start: "smp_run m0 [] m0"
| smp_acquire: "smp_run m0 es m \<Longrightarrow> i < length (smp_cpus m) \<Longrightarrow>
     acquire lk (focus i m) = Done () t \<Longrightarrow> smp_run m0 (Acq i lk # es) (defocus i t m)"
| smp_release: "smp_run m0 es m \<Longrightarrow> i < length (smp_cpus m) \<Longrightarrow>
     release lk (focus i m) = Done () t \<Longrightarrow> smp_run m0 (Rel i lk # es) (defocus i t m)"
| smp_flag: "smp_run m0 es m \<Longrightarrow> i < length (smp_cpus m) \<Longrightarrow> ncli (smp_cpus m ! i) = 0 \<Longrightarrow>
     smp_run m0 es (m\<lparr>smp_if := (smp_if m)(i := b)\<rparr>)"

fun in_crit :: "lock_event list \<Rightarrow> (nat \<times> lockid) set" where
  "in_crit [] = {}"
| "in_crit (Acq i lk # es) = insert (i, lk) (in_crit es)"
| "in_crit (Rel i lk # es) = in_crit es - {(i, lk)}"

definition smp_init :: "smp \<Rightarrow> bool" where
  "smp_init m \<longleftrightarrow> distinct (map apicid (smp_cpus m)) \<and> (\<forall>lk. \<not> locked (smp_locks m lk) \<and> lk_cpu (smp_locks m lk) = None)
     \<and> (\<forall>c \<in> set (smp_cpus m). ncli c = 0)"

definition smp_inv :: "lock_event list \<Rightarrow> smp \<Rightarrow> bool" where
  "smp_inv es m \<longleftrightarrow> distinct (map apicid (smp_cpus m)) \<and>
     finite (in_crit es) \<and>
     (\<forall>lk. \<not> locked (smp_locks m lk) \<longrightarrow> lk_cpu (smp_locks m lk) = None) \<and>
     (\<forall>i lk. (i, lk) \<in> in_crit es \<longleftrightarrow> locked (smp_locks m lk) \<and> lk_cpu (smp_locks m lk) = Some i) \<and>
     (\<forall>i < length (smp_cpus m).
        ncli (smp_cpus m ! i) = int (card {lk. (i, lk) \<in> in_crit es}) \<and>
        (0 < ncli (smp_cpus m ! i) \<longrightarrow> \<not> smp_if m i))"

lemma focus_sel [simp]:
  "hw_if (focus i m) = smp_if m i" "cpus (focus i m) = smp_cpus m" "locks (focus i m) = smp_locks m"
  by (simp_all add: focus_def)

lemma me_focus:
  assumes "distinct (map apicid (smp_cpus m))" "i < length (smp_cpus m)"
  shows "cpu_idx (focus i m) = Some i" "me (focus i m) = i"
proof -
  show "cpu_idx (focus i m) = Some i"
    using assms unfolding cpu_idx_def first_index_Some
    by (auto simp: focus_def distinct_conv_nth)
  then show "me (focus i m) = i" by (simp add: me_def)
qed

lemma smp_inv_cpu_ok:
  assumes "smp_inv es m" "i < length (smp_cpus m)"
  shows "cpu_ok (focus i m)" "depth (focus i m) = int (card {lk. (i, lk) \<in> in_crit es})"
proof -
  have me: "cpu_idx (focus i m) = Some i" "me (focus i m) = i"
    using assms me_focus by (auto simp: smp_inv_def)
  then show "depth (focus i m) = int (card {lk. (i, lk) \<in> in_crit es})"
    using assms by (simp add: depth_def smp_inv_def)
  then show "cpu_ok (focus i m)"
    using assms me by (intro cpu_okI) (auto simp: smp_inv_def)
qed

lemma finite_crit_locks: "finite (in_crit es) \<Longrightarrow> finite {lk. (i, lk) \<in> in_crit es}"
  by (rule finite_imageD [of "\<lambda>lk. (i, lk)"]) (auto intro: finite_subset simp: inj_on_def)

lemma smp_inv_init: "smp_init m \<Longrightarrow> smp_inv [] m"
  by (auto simp: smp_init_def smp_inv_def)

lemma distinct_apicid_update:
  "i < length xs \<Longrightarrow> apicid x = apicid (xs ! i) \<Longrightarrow> map apicid (xs[i := x]) = map apicid xs"
  by (metis list_update_id map_update nth_map)

lemma acquire_focus_cases:
  assumes "cpu_ok s" "\<not> locked (locks s lk) \<longrightarrow> lk_cpu (locks s lk) = None" "acquire lk s = Done () t"
  shows "unlocked lk s" "t = acquired lk s"
proof -
  show "unlocked lk s"
    using assms acquire_Spins [of s lk] acquire_Panic [of s lk]
    by (cases "locked (locks s lk)"; cases "held lk s") (auto simp: unlocked_def)
  then show "t = acquired lk s" using assms acquire_Done [of s lk] by simp
qed

lemma smp_inv_acquire:
  assumes inv: "smp_inv es m" and i: "i < length (smp_cpus m)"
    and acq: "acquire lk (focus i m) = Done () t"
  shows "smp_inv (Acq i lk # es) (defocus i t m)"
proof -
  let ?s = "focus i m"
  have ok: "cpu_ok ?s" and dep: "depth ?s = int (card {lk. (i, lk) \<in> in_crit es})"
    using smp_inv_cpu_ok [OF inv i] by auto
  have me: "me ?s = i" using inv i me_focus by (auto simp: smp_inv_def)
  have u: "unlocked lk ?s" and t: "t = acquired lk ?s"
    using acquire_focus_cases [OF ok _ acq] inv by (auto simp: smp_inv_def)
  have new: "(i, lk) \<notin> in_crit es"
    using inv u by (auto simp: smp_inv_def unlocked_def)
  have fin: "finite {lk. (i, lk) \<in> in_crit es}"
    using inv unfolding smp_inv_def by (blast intro: finite_crit_locks)
  have "{l. (i, l) \<in> in_crit (Acq i lk # es)} = insert lk {l. (i, l) \<in> in_crit es}"
    by auto
  then have card: "card {l. (i, l) \<in> in_crit (Acq i lk # es)} = card {l. (i, l) \<in> in_crit es} + 1"
    using new fin by simp
  have cs: "cpus t = (smp_cpus m)[i := (smp_cpus m ! i)
     \<lparr>intena := (if ncli (smp_cpus m ! i) = 0 then smp_if m i else intena (smp_cpus m ! i)),
      ncli := ncli (smp_cpus m ! i) + 1\<rparr>]"
    by (simp add: t acquired_sel pushed_sel me)
  have others: "j \<noteq> i \<Longrightarrow> {l. (j, l) \<in> in_crit (Acq i lk # es)} = {l. (j, l) \<in> in_crit es}" for j
    by auto
  show ?thesis
    unfolding smp_inv_def
  proof (intro conjI allI impI)
    show "distinct (map apicid (smp_cpus (defocus i t m)))"
      using inv i cs by (simp add: defocus_def distinct_apicid_update smp_inv_def)
    show "finite (in_crit (Acq i lk # es))" using inv by (simp add: smp_inv_def)
    show "lk_cpu (smp_locks (defocus i t m) l) = None" if "\<not> locked (smp_locks (defocus i t m) l)" for l
      using that inv by (auto simp: defocus_def t acquired_sel smp_inv_def split: if_splits)
    show "((j, l) \<in> in_crit (Acq i lk # es)) = (locked (smp_locks (defocus i t m) l) \<and>
        lk_cpu (smp_locks (defocus i t m) l) = Some j)" for j l
      using inv u by (auto simp: defocus_def t acquired_sel smp_inv_def unlocked_def me)
    fix j assume j: "j < length (smp_cpus (defocus i t m))"
    show "ncli (smp_cpus (defocus i t m) ! j) = int (card {l. (j, l) \<in> in_crit (Acq i lk # es)})"
      using inv i j cs card others [of j]
      by (cases "j = i") (auto simp: defocus_def smp_inv_def simp del: in_crit.simps)
    show "0 < ncli (smp_cpus (defocus i t m) ! j) \<Longrightarrow> \<not> smp_if (defocus i t m) j"
      using inv i j cs
      by (cases "j = i") (auto simp: defocus_def smp_inv_def t acquired_sel)
  qed
qed

lemma smp_inv_release:
  assumes inv: "smp_inv es m" and i: "i < length (smp_cpus m)"
    and rel: "release lk (focus i m) = Done () t"
  shows "smp_inv (Rel i lk # es) (defocus i t m)"
proof -
  let ?s = "focus i m"
  have ok: "cpu_ok ?s" and dep: "depth ?s = int (card {lk. (i, lk) \<in> in_crit es})"
    using smp_inv_cpu_ok [OF inv i] by auto
  have me: "me ?s = i" using inv i me_focus by (auto simp: smp_inv_def)
  have h: "held lk ?s" using rel release_Panic [OF ok, of lk] by (cases "held lk ?s") auto
  then have old: "(i, lk) \<in> in_crit es"
    using inv me by (auto simp: smp_inv_def held_def)
  have fin: "finite {lk. (i, lk) \<in> in_crit es}"
    using inv unfolding smp_inv_def by (blast intro: finite_crit_locks)
  have pos: "0 < card {lk. (i, lk) \<in> in_crit es}"
    using old fin by (auto simp: card_gt_0_iff)
  have t: "t = released lk ?s" using rel release_Done [OF ok h] dep pos by simp
  have "{l. (i, l) \<in> in_crit (Rel i lk # es)} = {l. (i, l) \<in> in_crit es} - {lk}"
    by auto
  then have card: "int (card {l. (i, l) \<in> in_crit (Rel i lk # es)}) = int (card {l. (i, l) \<in> in_crit es}) - 1"
    using old fin pos by (simp add: card_Diff_singleton)
  have cs: "cpus t = (smp_cpus m)[i := (smp_cpus m ! i)\<lparr>ncli := ncli (smp_cpus m ! i) - 1\<rparr>]"
    by (simp add: t released_def popped_sel me) (simp add: upd_lock_def)
  have ls: "locks t = (smp_locks m)(lk := (smp_locks m lk)\<lparr>lk_cpu := None, locked := False\<rparr>)"
    by (simp add: t released_def popped_sel) (simp add: upd_lock_def)
  have fl: "hw_if t \<longrightarrow> depth ?s = 1"
    by (simp add: t released_def popped_sel)
  have others: "j \<noteq> i \<Longrightarrow> {l. (j, l) \<in> in_crit (Rel i lk # es)} = {l. (j, l) \<in> in_crit es}" for j
    by auto
  show ?thesis
    unfolding smp_inv_def
  proof (intro conjI allI impI)
    show "distinct (map apicid (smp_cpus (defocus i t m)))"
      using inv i cs by (simp add: defocus_def distinct_apicid_update smp_inv_def)
    show "finite (in_crit (Rel i lk # es))" using inv by (simp add: smp_inv_def)
    show "lk_cpu (smp_locks (defocus i t m) l) = None" if "\<not> locked (smp_locks (defocus i t m) l)" for l
      using that inv by (auto simp: defocus_def ls smp_inv_def split: if_splits)
    show "((j, l) \<in> in_crit (Rel i lk # es)) = (locked (smp_locks (defocus i t m) l) \<and>
        lk_cpu (smp_locks (defocus i t m) l) = Some j)" for j l
      using inv h me by (auto simp: defocus_def ls smp_inv_def held_def)
    fix j assume j: "j < length (smp_cpus (defocus i t m))"
    show "ncli (smp_cpus (defocus i t m) ! j) = int (card {l. (j, l) \<in> in_crit (Rel i lk # es)})"
      using inv i j cs card others [of j]
      by (cases "j = i") (auto simp: defocus_def smp_inv_def simp del: in_crit.simps)
    show "0 < ncli (smp_cpus (defocus i t m) ! j) \<Longrightarrow> \<not> smp_if (defocus i t m) j"
      using inv i j cs fl dep
      by (cases "j = i") (auto simp: defocus_def smp_inv_def)
  qed
qed

lemma smp_inv_flag:
  "smp_inv es m \<Longrightarrow> i < length (smp_cpus m) \<Longrightarrow> ncli (smp_cpus m ! i) = 0 \<Longrightarrow>
   smp_inv es (m\<lparr>smp_if := (smp_if m)(i := b)\<rparr>)"
  unfolding smp_inv_def by simp

lemma smp_run_inv: "smp_run m0 es m \<Longrightarrow> smp_init m0 \<Longrightarrow> smp_inv es m"
  by (induction rule: smp_run.induct)
     (auto intro: smp_inv_init smp_inv_acquire smp_inv_release smp_inv_flag)


definition two_cpus :: smp where
  "two_cpus = \<lparr>smp_cpus = [\<lparr>apicid = 0, ncli = 0, intena = False, cpu_proc = None, ts_esp0 = 0\<rparr>,
      \<lparr>apicid = 4, ncli = 0, intena = False, cpu_proc = None, ts_esp0 = 0\<rparr>],
     smp_locks = (\<lambda>_. \<lparr>locked = False, lk_name = [], lk_cpu = None\<rparr>), smp_if = (\<lambda>_. True)\<rparr>"


end
