(* ===== verification/CString.thy ===== *)
theory CString
  imports Prelude
begin

text \<open>
  Byte memory, and the kernel's memory and string routines (\<^verbatim>\<open>src/string.c\<close>, with the
  \<^verbatim>\<open>rep stos\<close> loops of \<^verbatim>\<open>src/x86.h\<close>). Memory is a function from 32-bit addresses to bytes;
  pointers are addresses and pointer arithmetic wraps. A routine maps the memory before the call
  to the memory after it.
\<close>

type_synonym mem = "uint \<Rightarrow> uchar"

subsection \<open>Operations\<close>

text \<open>\<^verbatim>\<open>rep stosb\<close> and \<^verbatim>\<open>rep stosl\<close>: store the byte (the little-endian word) \<open>cnt\<close> times.\<close>

primrec stosb :: "nat \<Rightarrow> uint \<Rightarrow> uchar \<Rightarrow> mem \<Rightarrow> mem" where
  "stosb 0 a c m = m"
| "stosb (Suc n) a c m = stosb n (a + 1) c (m(a := c))"

definition store32 :: "uint \<Rightarrow> uint \<Rightarrow> mem \<Rightarrow> mem" where
  "store32 a v m = m(a := ucast v, a + 1 := ucast (drop_bit 8 v),
     a + 2 := ucast (drop_bit 16 v), a + 3 := ucast (drop_bit 24 v))"

definition load32 :: "mem \<Rightarrow> uint \<Rightarrow> uint" where
  "load32 m a = ucast (m a) OR push_bit 8 (ucast (m (a + 1))) OR
     push_bit 16 (ucast (m (a + 2))) OR push_bit 24 (ucast (m (a + 3)))"

primrec stosl :: "nat \<Rightarrow> uint \<Rightarrow> uint \<Rightarrow> mem \<Rightarrow> mem" where
  "stosl 0 a v m = m"
| "stosl (Suc n) a v m = stosl n (a + 4) v (store32 a v m)"

definition memset :: "uint \<Rightarrow> uint \<Rightarrow> uint \<Rightarrow> mem \<Rightarrow> mem" where
  "memset dst c n m =
    (if dst mod 4 = 0 \<and> n mod 4 = 0 then
       let c' = c AND 0xFF
       in stosl (unat (n div 4)) dst (push_bit 24 c' OR push_bit 16 c' OR push_bit 8 c' OR c') m
     else stosb (unat n) dst (ucast c) m)"

primrec memcmp_loop :: "nat \<Rightarrow> uint \<Rightarrow> uint \<Rightarrow> mem \<Rightarrow> int" where
  "memcmp_loop 0 s1 s2 m = 0"
| "memcmp_loop (Suc n) s1 s2 m =
    (if m s1 \<noteq> m s2 then Word.uint (m s1) - Word.uint (m s2)
     else memcmp_loop n (s1 + 1) (s2 + 1) m)"

definition memcmp :: "uint \<Rightarrow> uint \<Rightarrow> uint \<Rightarrow> mem \<Rightarrow> int" where
  "memcmp v1 v2 n m = memcmp_loop (unat n) v1 v2 m"

primrec copy_up :: "nat \<Rightarrow> uint \<Rightarrow> uint \<Rightarrow> mem \<Rightarrow> mem" where
  "copy_up 0 s d m = m"
| "copy_up (Suc n) s d m = copy_up n (s + 1) (d + 1) (m(d := m s))"

primrec copy_down :: "nat \<Rightarrow> uint \<Rightarrow> uint \<Rightarrow> mem \<Rightarrow> mem" where
  "copy_down 0 s d m = m"
| "copy_down (Suc n) s d m = copy_down n (s - 1) (d - 1) (m(d - 1 := m (s - 1)))"

definition memmove :: "uint \<Rightarrow> uint \<Rightarrow> uint \<Rightarrow> mem \<Rightarrow> mem" where
  "memmove dst src n m =
    (if src < dst \<and> src + n > dst then copy_down (unat n) (src + n) (dst + n) m
     else copy_up (unat n) src dst m)"

definition memcpy :: "uint \<Rightarrow> uint \<Rightarrow> uint \<Rightarrow> mem \<Rightarrow> mem" where
  "memcpy dst src n m = memmove dst src n m"

primrec strncmp_loop :: "nat \<Rightarrow> uint \<Rightarrow> uint \<Rightarrow> mem \<Rightarrow> int" where
  "strncmp_loop 0 p q m = 0"
| "strncmp_loop (Suc n) p q m =
    (if m p \<noteq> 0 \<and> m p = m q then strncmp_loop n (p + 1) (q + 1) m
     else Word.uint (m p) - Word.uint (m q))"

definition strncmp :: "uint \<Rightarrow> uint \<Rightarrow> uint \<Rightarrow> mem \<Rightarrow> int" where
  "strncmp p q n m = strncmp_loop (unat n) p q m"

primrec strncpy_loop :: "nat \<Rightarrow> uint \<Rightarrow> uint \<Rightarrow> mem \<Rightarrow> mem" where
  "strncpy_loop 0 s t m = m"
| "strncpy_loop (Suc n) s t m =
    (let m' = m(s := m t)
     in if m' s \<noteq> 0 then strncpy_loop n (s + 1) (t + 1) m' else stosb n (s + 1) 0 m')"

definition strncpy :: "uint \<Rightarrow> uint \<Rightarrow> int \<Rightarrow> mem \<Rightarrow> mem" where
  "strncpy s t n m = strncpy_loop (nat n) s t m"

primrec safestrcpy_loop :: "nat \<Rightarrow> uint \<Rightarrow> uint \<Rightarrow> mem \<Rightarrow> mem" where
  "safestrcpy_loop 0 s t m = m(s := 0)"
| "safestrcpy_loop (Suc n) s t m =
    (let m' = m(s := m t)
     in if m' s \<noteq> 0 then safestrcpy_loop n (s + 1) (t + 1) m' else m'(s + 1 := 0))"

definition safestrcpy :: "uint \<Rightarrow> uint \<Rightarrow> int \<Rightarrow> mem \<Rightarrow> mem" where
  "safestrcpy s t n m = (if n \<le> 0 then m else safestrcpy_loop (nat (n - 1)) s t m)"

text \<open>\<^verbatim>\<open>strlen\<close> reads on until it meets a zero byte: without one it does not return.\<close>

partial_function (option) strlen_loop :: "uint \<Rightarrow> mem \<Rightarrow> int \<Rightarrow> int option" where
  "strlen_loop s m n = (if m (s + word_of_int n) = 0 then Some n else strlen_loop s m (int32 (n + 1)))"

definition strlen :: "uint \<Rightarrow> mem \<Rightarrow> int option" where
  "strlen s m = strlen_loop s m 0"

subsection \<open>Address ranges\<close>

lemma unat_lt32: "unat (n :: uint) < 2 ^ 32"
  using unsigned_less [of n] by simp

lemma len32: "LENGTH(32) = 32"
  by simp

lemma uint_byte_eq: "uint a = uint b \<longleftrightarrow> a = b" "uint a = 0 \<longleftrightarrow> a = 0" for a b :: uchar
  by (simp_all add: word_uint_eq_iff)

lemma unat_diff_Suc: 
  fixes x d :: uint
  assumes "x \<noteq> d"
  shows "unat (x - d) = Suc (unat (x - (d + 1)))"
proof -
  have "x - d \<noteq> 0" using assms by simp
  then have "unat (x - d - 1) = unat (x - d) - 1" "0 < unat (x - d)"
    by (simp_all add: unat_minus_one unat_gt_0)
  then show ?thesis by (simp add: diff_diff_eq)
qed

lemma unat_diff_self_Suc: "unat (d - (d + 1)) = 2 ^ 32 - 1" for d :: uint
proof -
  have "d - (d + 1) = - 1" by simp
  then show ?thesis by (simp add: unsigned_minus_1_eq_mask mask_eq_exp_minus_1)
qed

lemma range_Suc:
  fixes x d :: uint
  assumes "Suc n \<le> 2 ^ 32"
  shows "unat (x - d) < Suc n \<longleftrightarrow> x = d \<or> unat (x - (d + 1)) < n"
proof (cases "x = d")
  case False
  then show ?thesis by (simp add: unat_diff_Suc)
qed simp

lemma range_last:
  fixes x d :: uint
  assumes "Suc n \<le> 2 ^ 32"
  shows "unat (x - d) < Suc n \<longleftrightarrow> x = d + of_nat n \<or> unat (x - d) < n"
proof -
  have "unat (x - d) = n \<longleftrightarrow> x - d = of_nat n"
    using assms by (auto simp: unat_of_nat)
  also have "\<dots> \<longleftrightarrow> x = d + of_nat n" by (auto simp: algebra_simps)
  finally have "unat (x - d) = n \<longleftrightarrow> x = d + of_nat n" .
  then show ?thesis by (auto simp: less_Suc_eq)
qed

lemma of_nat_unat_diff: "s + of_nat (unat (x - d)) = s + (x - d)" for s x d :: uint
  by simp

subsection \<open>memset\<close>

lemma stosb_apply:
  "n \<le> 2 ^ 32 \<Longrightarrow> stosb n a c m x = (if unat (x - a) < n then c else m x)"
proof (induction n arbitrary: a m)
  case (Suc n)
  then show ?case using range_Suc [of n x a] by auto
qed simp

lemma store32_bytes:
  "store32 a v m = m(a := ucast v, a + 1 := ucast (drop_bit 8 v),
     a + 2 := ucast (drop_bit 16 v), a + 3 := ucast (drop_bit 24 v))"
  by (simp add: store32_def)

lemma stosl_stosb:
  assumes "ucast v = c" "ucast (drop_bit 8 v) = c" "ucast (drop_bit 16 v) = c" "ucast (drop_bit 24 v) = c"
  shows "stosl n a v m = stosb (4 * n) a c m"
proof (induction n arbitrary: a m)
  case (Suc n)
  have e: "4 * Suc n = Suc (Suc (Suc (Suc (4 * n))))" by simp
  have "stosb (4 * Suc n) a c m = stosb (4 * n) (a + 4) c (m(a := c, a + 1 := c, a + 2 := c, a + 3 := c))"
    unfolding e stosb.simps by (simp only: add.assoc one_add_one) simp
  moreover have "store32 a v m = m(a := c, a + 1 := c, a + 2 := c, a + 3 := c)"
    unfolding store32_def assms ..
  ultimately show ?case by (simp only: stosl.simps Suc)
qed simp

lemma memset_word_bytes:
  fixes c :: uint
  defines "v \<equiv> push_bit 24 (c AND 0xFF) OR push_bit 16 (c AND 0xFF) OR push_bit 8 (c AND 0xFF) OR (c AND 0xFF)"
  shows "ucast v = (ucast c :: uchar)" "ucast (drop_bit 8 v) = (ucast c :: uchar)"
    "ucast (drop_bit 16 v) = (ucast c :: uchar)" "ucast (drop_bit 24 v) = (ucast c :: uchar)"
proof -
  have "c AND 0xFF = take_bit 8 c" by (simp add: take_bit_eq_mask mask_eq_exp_minus_1)
  then show "ucast v = (ucast c :: uchar)" "ucast (drop_bit 8 v) = (ucast c :: uchar)"
    "ucast (drop_bit 16 v) = (ucast c :: uchar)" "ucast (drop_bit 24 v) = (ucast c :: uchar)"
    unfolding v_def by (auto intro!: bit_word_eqI simp: bit_simps)
qed

lemma memset_apply:
  "memset dst c n m x = (if unat (x - dst) < unat n then ucast c else m x)"
proof -
  have "memset dst c n m = stosb (unat n) dst (ucast c) m"
  proof (cases "dst mod 4 = 0 \<and> n mod 4 = 0")
    case True
    have "unat (n mod 4) = unat n mod 4" "unat (n div 4) = unat n div 4"
      by (simp_all add: unat_mod unat_div)
    then have "4 * unat (n div 4) = unat n" using True by auto
    then show ?thesis
      using True unfolding memset_def Let_def by (simp only: stosl_stosb [OF memset_word_bytes] if_cancel)
  next
    case False
    then show ?thesis by (simp only: memset_def if_False)
  qed
  moreover have "unat n \<le> 2 ^ 32" using unat_lt32 [of n] by simp
  ultimately show ?thesis by (simp add: stosb_apply)
qed

text \<open>
  C23. The word-at-a-time fast path of memset is invisible: for every destination, value and length,
  memset stores the low byte of its argument in exactly the \<open>n\<close> bytes from \<open>dst\<close> and
  leaves every other byte of memory alone.
\<close>

theorem memset_fills:
  "memset dst c n m x = (if unat (x - dst) < unat n then ucast c else m x)"
  by (rule memset_apply)

subsection \<open>memmove\<close>

lemma copy_up_apply:
  assumes "n \<le> 2 ^ 32" "\<And>i j. i < j \<Longrightarrow> j < n \<Longrightarrow> d + of_nat i \<noteq> s + of_nat j"
  shows "copy_up n s d m x = (if unat (x - d) < n then m (s + (x - d)) else m x)"
  using assms
proof (induction n arbitrary: s d m)
  case (Suc n)
  have "d + 1 + of_nat i \<noteq> s + 1 + of_nat j" if "i < j" "j < n" for i j
    using Suc.prems(2) [of "Suc i" "Suc j"] that by (simp add: algebra_simps)
  then have IH: "copy_up n (s + 1) (d + 1) (m(d := m s)) x =
      (if unat (x - (d + 1)) < n then (m(d := m s)) (s + 1 + (x - (d + 1))) else (m(d := m s)) x)"
    using Suc.prems(1) by (intro Suc.IH) auto
  have "s + (x - d) \<noteq> d" if "x \<noteq> d" "unat (x - (d + 1)) < n"
    using that Suc.prems(2) [of 0 "unat (x - d)"] by (simp add: unat_diff_Suc of_nat_unat_diff)
  then show ?case
    using IH range_Suc [of n x d] Suc.prems(1)
    by (cases "x = d") (simp_all add: unat_diff_self_Suc [simplified])
qed simp

lemma copy_down_apply:
  assumes "n \<le> 2 ^ 32" "\<And>i j. i < j \<Longrightarrow> j < n \<Longrightarrow> s + of_nat i \<noteq> d + of_nat j"
  shows "copy_down n (s + of_nat n) (d + of_nat n) m x =
    (if unat (x - d) < n then m (s + (x - d)) else m x)"
  using assms
proof (induction n arbitrary: m)
  case (Suc n)
  let ?m = "m(d + of_nat n := m (s + of_nat n))"
  have IH: "copy_down n (s + of_nat n) (d + of_nat n) ?m x =
      (if unat (x - d) < n then ?m (s + (x - d)) else ?m x)"
    using Suc.prems by (intro Suc.IH) auto
  have "s + (x - d) \<noteq> d + of_nat n" if "unat (x - d) < n"
    using that Suc.prems(2) [of "unat (x - d)" n] by (simp add: of_nat_unat_diff)
  then show ?case
    using IH range_last [of n x d] Suc.prems(1) by (auto simp: algebra_simps)
qed simp

lemma of_nat_eq_iff32: "i < 2 ^ 32 \<Longrightarrow> j < 2 ^ 32 \<Longrightarrow> (of_nat i = (of_nat j :: uint)) = (i = j)"
  by (metis mod_less unat_of_nat len32)

lemma unat_add_of_nat: "unat s + k < 2 ^ 32 \<Longrightarrow> unat (s + of_nat k :: uint) = unat s + k"
  by (simp add: unat_word_ariths unat_of_nat)

lemma memmove_apply:
  assumes "unat src + unat n \<le> 2 ^ 32" "unat dst + unat n \<le> 2 ^ 32"
  shows "memmove dst src n m x = (if unat (x - dst) < unat n then m (src + (x - dst)) else m x)"
proof (cases "src < dst \<and> dst < src + n")
  case True
  have "src + of_nat i \<noteq> dst + of_nat j" if "i < j" "j < unat n" for i j
  proof -
    have "unat (src + of_nat i) < unat (dst + of_nat j)"
      using that True assms by (simp add: unat_add_of_nat word_less_nat_alt)
    then show ?thesis by auto
  qed
  then show ?thesis
    using True assms copy_down_apply [of "unat n" src dst m x] unat_lt32 [of n]
    by (simp add: memmove_def)
next
  case False
  have "dst + of_nat i \<noteq> src + of_nat j" if ij: "i < j" "j < unat n" for i j
  proof -
    have u: "unat (src + of_nat j) = unat src + j" "unat (dst + of_nat i) = unat dst + i"
      using that assms by (simp_all add: unat_add_of_nat)
    have "unat src + unat n \<le> unat dst" if "src < dst"
    proof (cases "unat src + unat n = 2 ^ 32")
      case True
      then show ?thesis using that False ij assms(2) by (simp add: word_less_nat_alt)
    next
      case nw: False
      then have "unat (src + n) = unat src + unat n"
        using assms(1) by (simp add: unat_word_ariths)
      then show ?thesis using that False by (simp add: word_less_nat_alt)
    qed
    then have "unat dst + i \<noteq> unat src + j"
      using ij by (cases "src < dst") (auto simp: word_less_nat_alt)
    then show ?thesis using u by metis
  qed
  then show ?thesis
    using False copy_up_apply [of "unat n" dst src m x] unat_lt32 [of n]
    by (auto simp: memmove_def)
qed

text \<open>
  C24. memmove copies correctly even when source and destination overlap in either direction: for
  regions that do not wrap around the address space, the \<open>n\<close> destination bytes receive the bytes
  the source region held before the call, and no other byte changes.
\<close>

theorem memmove_copies:
  assumes "unat src + unat n \<le> 2 ^ 32" "unat dst + unat n \<le> 2 ^ 32"
  shows "memmove dst src n m x = (if unat (x - dst) < unat n then m (src + (x - dst)) else m x)"
  using assms by (rule memmove_apply)

theorem memmove_copies_witness:
  "unat (0x100 :: uint) + unat (4 :: uint) \<le> 2 ^ 32 \<and> unat (0x102 :: uint) + unat (4 :: uint) \<le> 2 ^ 32 \<and>
   memmove 0x102 0x100 4 (\<lambda>a. ucast a) 0x105 = 3"
  using memmove_copies [of "0x100" 4 "0x102" "\<lambda>a. ucast a" "0x105"] by simp

subsection \<open>Comparison\<close>

definition bytes :: "mem \<Rightarrow> uint \<Rightarrow> nat \<Rightarrow> uchar list" where
  "bytes m a n = map (\<lambda>k. m (a + of_nat k)) [0..<n]"

text \<open>The string of at most \<open>n\<close> bytes at \<open>a\<close>: what comes before the first zero byte.\<close>

definition str_at :: "mem \<Rightarrow> uint \<Rightarrow> nat \<Rightarrow> uchar list" where
  "str_at m a n = takeWhile (\<lambda>b. b \<noteq> 0) (bytes m a n)"

lemma bytes_0 [simp]: "bytes m a 0 = []"
  by (simp add: bytes_def)

lemma bytes_Suc: "bytes m a (Suc n) = m a # bytes m (a + 1) n"
  by (simp add: bytes_def map_upt_Suc add.assoc del: upt_Suc)

lemma length_bytes [simp]: "length (bytes m a n) = n"
  by (simp add: bytes_def)

lemma str_at_0 [simp]: "str_at m a 0 = []"
  by (simp add: str_at_def)

lemma str_at_Suc: "str_at m a (Suc n) = (if m a = 0 then [] else m a # str_at m (a + 1) n)"
  by (simp add: str_at_def bytes_Suc)

lemma memcmp_loop_zero: "memcmp_loop n a b m = 0 \<longleftrightarrow> bytes m a n = bytes m b n"
  by (induction n arbitrary: a b) (auto simp: bytes_Suc uint_byte_eq)

lemma strncmp_loop_zero: "strncmp_loop n p q m = 0 \<longleftrightarrow> str_at m p n = str_at m q n"
  by (induction n arbitrary: p q) (auto simp: str_at_Suc uint_byte_eq)

text \<open>
  memcmp returns 0 exactly for equal byte ranges, and strncmp returns 0 exactly when the two
  strings, cut at their first zero byte or after \<open>n\<close> bytes, are equal.
\<close>

lemma compare_zero_iff_equal:
  "(memcmp a b n m = 0 \<longleftrightarrow> bytes m a (unat n) = bytes m b (unat n)) \<and>
   (strncmp a b n m = 0 \<longleftrightarrow> str_at m a (unat n) = str_at m b (unat n))"
  by (simp add: memcmp_def strncmp_def memcmp_loop_zero strncmp_loop_zero)

subsection \<open>String copies\<close>

lemma bytes_cong: "(\<And>k. k < n \<Longrightarrow> m' (a + of_nat k) = m (a + of_nat k)) \<Longrightarrow> bytes m' a n = bytes m a n"
  by (simp add: bytes_def)

lemma str_at_cong: "(\<And>k. k < n \<Longrightarrow> m' (a + of_nat k) = m (a + of_nat k)) \<Longrightarrow> str_at m' a n = str_at m a n"
  unfolding str_at_def by (metis bytes_cong)

lemma bytes_stosb: "n \<le> 2 ^ 32 \<Longrightarrow> bytes (stosb n a c m) a n = replicate n c"
  by (auto simp: bytes_def stosb_apply unat_of_nat intro!: nth_equalityI)

definition apart :: "uint \<Rightarrow> nat \<Rightarrow> uint \<Rightarrow> nat \<Rightarrow> bool" where
  "apart s n t k \<longleftrightarrow> (\<forall>i < n. \<forall>j < k. s + of_nat i \<noteq> t + of_nat j)"

lemma apart_if: "unat s + n \<le> unat t \<Longrightarrow> unat t + k \<le> 2 ^ 32 \<Longrightarrow> apart s n t k"
  unfolding apart_def
proof (intro allI impI)
  fix i j assume "unat s + n \<le> unat t" "unat t + k \<le> 2 ^ 32" "i < n" "j < k"
  then have "unat (s + of_nat i) \<noteq> unat (t + of_nat j)" by (simp add: unat_add_of_nat)
  then show "s + of_nat i \<noteq> t + of_nat j" by metis
qed

lemma apart_Suc: "apart s (Suc n) t (Suc k) \<Longrightarrow> apart (s + 1) n (t + 1) k"
  unfolding apart_def
proof (intro allI impI)
  fix i j assume ap: "\<forall>i < Suc n. \<forall>j < Suc k. s + of_nat i \<noteq> t + of_nat j" and "i < n" "j < k"
  then have "s + of_nat (Suc i) \<noteq> t + of_nat (Suc j)" by blast
  then show "s + 1 + of_nat i \<noteq> t + 1 + of_nat j" by (simp add: algebra_simps)
qed

lemma str_at_upd_apart:
  "apart s (Suc n) t (Suc k) \<Longrightarrow> str_at (m(s := b)) (t + 1) k = str_at m (t + 1) k"
proof (rule str_at_cong)
  fix i assume ap: "apart s (Suc n) t (Suc k)" and i: "i < k"
  have "s + of_nat 0 \<noteq> t + of_nat (Suc i)"
    using ap i unfolding apart_def by blast
  then show "(m(s := b)) (t + 1 + of_nat i) = m (t + 1 + of_nat i)" by (auto simp: add.assoc)
qed

lemma outside_Suc:
  fixes x s :: uint
  assumes "Suc n \<le> 2 ^ 32" "Suc n \<le> unat (x - s)"
  shows "x \<noteq> s" "n \<le> unat (x - (s + 1))"
  using assms range_Suc [of n x s] by (auto simp: not_less)

lemma outside_self: "n < 2 ^ 32 \<Longrightarrow> n \<le> unat (s - (s + 1))" for s :: uint
  unfolding unat_diff_self_Suc by simp

lemma strncpy_loop_frame:
  "n \<le> 2 ^ 32 \<Longrightarrow> n \<le> unat (x - s) \<Longrightarrow> strncpy_loop n s t m x = m x"
proof (induction n arbitrary: s t m)
  case (Suc n)
  then show ?case
    using outside_Suc [of n x s] by (simp add: Let_def stosb_apply)
qed simp

lemma strncpy_loop_bytes:
  assumes "n \<le> 2 ^ 32" "apart s n t n"
  shows "bytes (strncpy_loop n s t m) s n = str_at m t n @ replicate (n - length (str_at m t n)) 0"
  using assms
proof (induction n arbitrary: s t m)
  case (Suc n)
  have out: "n \<le> unat (s - (s + 1))" using Suc.prems(1) by (intro outside_self) simp
  show ?case
  proof (cases "m t = 0")
    case True
    have "stosb n (s + 1) 0 (m(s := 0)) s = 0"
      using Suc.prems(1) by (simp add: stosb_apply)
    then show ?thesis
      using True Suc.prems(1) by (simp add: bytes_Suc str_at_Suc bytes_stosb Let_def)
  next
    case False
    define m' where "m' = m(s := m t)"
    have "str_at m' (t + 1) n = str_at m (t + 1) n"
      unfolding m'_def by (rule str_at_upd_apart [OF Suc.prems(2)])
    then have "bytes (strncpy_loop n (s + 1) (t + 1) m') (s + 1) n =
        str_at m (t + 1) n @ replicate (n - length (str_at m (t + 1) n)) 0"
      using Suc.IH [of "s + 1" "t + 1" m'] Suc.prems by (simp add: apart_Suc)
    moreover have "strncpy_loop n (s + 1) (t + 1) m' s = m t"
      using strncpy_loop_frame [of n s "s + 1"] Suc.prems(1) out by (simp add: m'_def)
    moreover have "strncpy_loop (Suc n) s t m = strncpy_loop n (s + 1) (t + 1) m'"
      using False by (simp add: m'_def Let_def)
    ultimately show ?thesis using False by (simp add: bytes_Suc str_at_Suc)
  qed
qed simp

lemma safestrcpy_loop_frame:
  "Suc n \<le> 2 ^ 32 \<Longrightarrow> Suc n \<le> unat (x - s) \<Longrightarrow> safestrcpy_loop n s t m x = m x"
proof (induction n arbitrary: s t m)
  case 0
  then show ?case by auto
next
  case (Suc n)
  then have o: "x \<noteq> s" "Suc n \<le> unat (x - (s + 1))" using outside_Suc [of "Suc n" x s] by auto
  moreover have "x \<noteq> s + 1" using o(2) by auto
  ultimately show ?case using Suc by (simp add: Let_def)
qed

lemma safestrcpy_loop_str:
  assumes "Suc n \<le> 2 ^ 32" "apart s (Suc n) t n"
  shows "str_at (safestrcpy_loop n s t m) s (Suc n) = str_at m t n"
  using assms
proof (induction n arbitrary: s t m)
  case (Suc n)
  have ap: "apart s (Suc n) t (Suc n)" "apart (s + 1) (Suc n) (t + 1) n"
    using Suc.prems(2) apart_Suc [of s "Suc n" t n] by (auto simp: apart_def)
  show ?case
  proof (cases "m t = 0")
    case True
    then show ?thesis by (simp add: str_at_Suc Let_def)
  next
    case False
    define m' where "m' = m(s := m t)"
    define r where "r = safestrcpy_loop n (s + 1) (t + 1) m'"
    have "r s = m t"
      using safestrcpy_loop_frame [of n s "s + 1"] outside_self [of "Suc n" s] Suc.prems(1)
      by (simp add: r_def m'_def)
    moreover have "str_at m' (t + 1) n = str_at m (t + 1) n"
      unfolding m'_def by (rule str_at_upd_apart [OF ap(1)])
    then have "str_at r (s + 1) (Suc n) = str_at m (t + 1) n"
      using Suc.IH [of "s + 1" "t + 1" m'] ap Suc.prems(1) by (simp add: r_def)
    moreover have "safestrcpy_loop (Suc n) s t m = r"
      using False by (simp add: r_def m'_def Let_def)
    ultimately show ?thesis
      using False str_at_Suc [of r s "Suc n"] by (simp add: str_at_Suc [of m])
  qed
qed (simp add: str_at_Suc)

text \<open>
  The two bounded string copies, on buffers that do not overlap: strncpy stores the source string
  cut at \<open>n\<close> bytes and pads the rest of the buffer with zeros; safestrcpy stores the source cut
  at \<open>n - 1\<close> bytes and always terminates it inside the buffer; neither writes outside
  its \<open>n\<close> bytes.
\<close>

lemma string_copies:
  assumes "0 < n" "n < 2 ^ 31" "apart s (nat n) t (nat n)"
  shows "bytes (strncpy s t n m) s (nat n) =
      str_at m t (nat n) @ replicate (nat n - length (str_at m t (nat n))) 0 \<and>
    str_at (safestrcpy s t n m) s (nat n) = str_at m t (nat n - 1) \<and>
    (nat n \<le> unat (x - s) \<longrightarrow> strncpy s t n m x = m x \<and> safestrcpy s t n m x = m x)"
proof -
  obtain k where k: "nat n = Suc k" using assms(1) by (cases "nat n") auto
  then have n: "nat (n - 1) = k" "Suc k \<le> 2 ^ 32" using assms by auto
  have ap: "apart s (Suc k) t (Suc k)" "apart s (Suc k) t k"
    using assms(3) k by (auto simp: apart_def)
  have "bytes (strncpy s t n m) s (nat n) =
      str_at m t (nat n) @ replicate (nat n - length (str_at m t (nat n))) 0"
    using strncpy_loop_bytes [OF n(2) ap(1)] k by (simp add: strncpy_def)
  moreover have "str_at (safestrcpy s t n m) s (nat n) = str_at m t (nat n - 1)"
    using safestrcpy_loop_str [OF n(2) ap(2)] k n(1) assms(1) by (simp add: safestrcpy_def)
  moreover have "strncpy s t n m x = m x \<and> safestrcpy s t n m x = m x" if "nat n \<le> unat (x - s)"
    using that k n assms(1) strncpy_loop_frame [of "Suc k" x s] safestrcpy_loop_frame [of k x s]
    by (simp add: strncpy_def safestrcpy_def)
  ultimately show ?thesis by blast
qed

lemma string_copies_example:
  "let m = (\<lambda>a. if a < 0x203 then 65 else 0) in
   (0::int) < 6 \<and> apart 0x100 (nat 6) 0x200 (nat 6) \<and>
   bytes (strncpy 0x100 0x200 6 m) 0x100 (nat 6) = [65, 65, 65, 0, 0, 0] \<and>
   str_at (safestrcpy 0x100 0x200 6 m) 0x100 (nat 6) = [65, 65, 65]"
proof -
  define m :: mem where "m = (\<lambda>a. if a < 0x203 then 65 else 0)"
  have ap: "apart 0x100 (nat 6) 0x200 (nat 6)" by (rule apart_if) simp_all
  have s: "str_at m 0x200 (nat 6) = [65, 65, 65]" "str_at m 0x200 (nat 6 - 1) = [65, 65, 65]"
    by (simp_all add: m_def str_at_def bytes_def upt_rec)
  have r: "replicate (nat 6 - length [65, 65, 65 :: uchar]) (0 :: uchar) = [0, 0, 0]"
    by (simp add: numeral_eq_Suc)
  have "bytes (strncpy 0x100 0x200 6 m) 0x100 (nat 6) = [65, 65, 65, 0, 0, 0] \<and>
      str_at (safestrcpy 0x100 0x200 6 m) 0x100 (nat 6) = [65, 65, 65]"
    using string_copies [of 6 "0x100" "0x200" m "0x300", OF _ _ ap] unfolding s r by simp
  then show ?thesis using ap unfolding m_def [symmetric] by simp
qed

subsection \<open>strlen\<close>

lemma strlen_loop_Some:
  assumes "k \<le> len" "len < 2 ^ 31" "\<And>i. i < len \<Longrightarrow> m (s + of_nat i) \<noteq> 0" "m (s + of_nat len) = 0"
  shows "strlen_loop s m (int k) = Some (int len)"
  using assms(1)
proof (induction "len - k" arbitrary: k)
  case 0
  then have "k = len" by simp
  then show ?case using assms(4) by (simp add: strlen_loop.simps)
next
  case (Suc d)
  then have "k < len" "m (s + of_nat k) \<noteq> 0" using assms(3) by auto
  moreover have "int32 (int k + 1) = int (Suc k)"
    using \<open>k < len\<close> assms(2) by (simp add: is_int32_def)
  moreover have "strlen_loop s m (int (Suc k)) = Some (int len)"
    using Suc by (intro Suc.hyps(1)) auto
  ultimately show ?case by (simp add: strlen_loop.simps [of s m "int k"])
qed

text \<open>
  strlen returns, and returns the number of bytes before the terminator, for every string that
  has a terminator less than 2 GB away.
\<close>

lemma strlen_counts:
  assumes "len < 2 ^ 31" "\<And>i. i < len \<Longrightarrow> m (s + of_nat i) \<noteq> 0" "m (s + of_nat len) = 0"
  shows "strlen s m = Some (int len)"
  using strlen_loop_Some [of 0 len m s] assms by (simp add: strlen_def)

lemma strlen_counts_example:
  "strlen 0x200 (\<lambda>a. if a < 0x203 then 65 else 0) = Some 3"
proof -
  define m :: mem where "m = (\<lambda>a. if a < 0x203 then 65 else 0)"
  have "m (0x200 + of_nat i) \<noteq> 0" if "i < 3" for i
  proof -
    from that consider "i = 0" | "i = 1" | "i = 2" by linarith
    then show ?thesis by cases (simp_all add: m_def)
  qed
  then have "strlen 0x200 m = Some (int 3)"
    by (intro strlen_counts) (simp_all add: m_def)
  then show ?thesis by (simp add: m_def)
qed

end
