(* ===== verification/Kalloc.thy ===== *)
theory Kalloc
  imports Spinlock CString
begin

text \<open>
  The physical page allocator, \<^verbatim>\<open>src/kalloc.c\<close>, with the address constants of
  \<^verbatim>\<open>src/memlayout.h\<close> and \<^verbatim>\<open>src/mmu.h\<close>. The free list is threaded through the free pages
  themselves, so the state adds the machine's memory to the allocator's globals. The linker symbol
  \<^verbatim>\<open>end\<close> (first address after the kernel image) is the state component \<open>kend\<close>, and \<^verbatim>\<open>data\<close> (start of the
  kernel's writable data) is \<open>kdata\<close>; no operation changes them.

  The lemmas relate the in-memory list to an abstract stack of free pages: \<^verbatim>\<open>kfree\<close> pushes,
  \<^verbatim>\<open>kalloc\<close> pops. The interface offered to the rest of the kernel is the locale
  \<open>page_allocator\<close>.
\<close>

subsection \<open>State and constants\<close>

record kmem =
  use_lock :: bool
  freelist :: uint       \<comment> \<open>address of the first free page, 0 for none\<close>

record kmach = kcpu +
  kmem :: kmem
  ram :: mem
  kend :: uint
  kdata :: uint          \<comment> \<open>start of the kernel's writable data\<close>
  hw_cr3 :: uint         \<comment> \<open>page table base register of the executing processor\<close>
  kpgdir :: uint         \<comment> \<open>the kernel's own page directory\<close>

definition PGSIZE :: uint where "PGSIZE = 4096"
definition KERNBASE :: uint where "KERNBASE = 0x80000000"
definition PHYSTOP :: uint where "PHYSTOP = 0xE000000"

definition V2P :: "uint \<Rightarrow> uint" where "V2P a = a - KERNBASE"
definition P2V :: "uint \<Rightarrow> uint" where "P2V a = a + KERNBASE"

definition PGROUNDUP :: "uint \<Rightarrow> uint" where
  "PGROUNDUP sz = (sz + PGSIZE - 1) AND NOT (PGSIZE - 1)"

definition PGROUNDDOWN :: "uint \<Rightarrow> uint" where
  "PGROUNDDOWN a = a AND NOT (PGSIZE - 1)"

subsection \<open>Operations\<close>

definition kfree :: "uint \<Rightarrow> ('x kmach_scheme, unit) kern" where
  "kfree v = bnd (gets kend) (\<lambda>e.
     if v mod PGSIZE \<noteq> 0 \<or> v < e \<or> V2P v \<ge> PHYSTOP then panic ''kfree''
     else sq (modify (\<lambda>s. s\<lparr>ram := memset v 1 PGSIZE (ram s)\<rparr>)) (
       bnd (gets (\<lambda>s. use_lock (kmem s))) (\<lambda>ul.
       sq (whenM ul (acquire Lk_kmem)) (
       sq (modify (\<lambda>s. s\<lparr>ram := store32 v (freelist (kmem s)) (ram s)\<rparr>)) (
       sq (modify (\<lambda>s. s\<lparr>kmem := (kmem s)\<lparr>freelist := v\<rparr>\<rparr>))
          (whenM ul (release Lk_kmem)))))))"

definition kalloc :: "('x kmach_scheme, uint) kern" where
  "kalloc = bnd (gets (\<lambda>s. use_lock (kmem s))) (\<lambda>ul.
     sq (whenM ul (acquire Lk_kmem)) (
     bnd (gets (\<lambda>s. freelist (kmem s))) (\<lambda>r.
     sq (whenM (r \<noteq> 0) (modify (\<lambda>s. s\<lparr>kmem := (kmem s)\<lparr>freelist := load32 (ram s) r\<rparr>\<rparr>))) (
     sq (whenM ul (release Lk_kmem)) (ret r)))))"

text \<open>The loop of \<^verbatim>\<open>freerange\<close>. When \<^verbatim>\<open>p + PGSIZE\<close> wraps, \<^verbatim>\<open>kfree\<close> panics on that \<open>p\<close>
  (its physical address is above \<^verbatim>\<open>PHYSTOP\<close>), so the loop never continues past the top of the
  address space.\<close>

function freerange_loop :: "uint \<Rightarrow> uint \<Rightarrow> ('x kmach_scheme, unit) kern" where
  "freerange_loop p vend =
    (if p + PGSIZE \<le> vend then
       sq (kfree p) (if p < p + PGSIZE then freerange_loop (p + PGSIZE) vend else ret ())
     else ret ())"
  by pat_completeness auto
termination
  by (relation "measure (\<lambda>(p, vend). 2 ^ 32 - unat p)")
     (auto simp: word_less_nat_alt intro!: diff_less_mono2 unat_lt32 [simplified])

declare freerange_loop.simps [simp del]

definition freerange :: "uint \<Rightarrow> uint \<Rightarrow> ('x kmach_scheme, unit) kern" where
  "freerange vstart vend = freerange_loop (PGROUNDUP vstart) vend"

definition kinit1 :: "uint \<Rightarrow> uint \<Rightarrow> ('x kmach_scheme, unit) kern" where
  "kinit1 vstart vend = sq (initlock Lk_kmem ''kmem'') (
     sq (modify (\<lambda>s. s\<lparr>kmem := (kmem s)\<lparr>use_lock := False\<rparr>\<rparr>)) (freerange vstart vend))"

definition kinit2 :: "uint \<Rightarrow> uint \<Rightarrow> ('x kmach_scheme, unit) kern" where
  "kinit2 vstart vend = sq (freerange vstart vend)
     (modify (\<lambda>s. s\<lparr>kmem := (kmem s)\<lparr>use_lock := True\<rparr>\<rparr>))"

subsection \<open>Memory words\<close>

interpretation kmem_field: component_field kmem kmem_update
  by unfold_locales simp_all

interpretation ram_field: component_field ram ram_update
  by unfold_locales simp_all

interpretation kend_field: component_field kend kend_update
  by unfold_locales simp_all

interpretation kdata_field: component_field kdata kdata_update
  by unfold_locales simp_all

interpretation cr3_field: component_field hw_cr3 hw_cr3_update
  by unfold_locales simp_all

interpretation kpgdir_field: component_field kpgdir kpgdir_update
  by unfold_locales simp_all

lemma load_store32: "load32 (store32 a v m) a = v"
proof -
  have ne: "a + 1 \<noteq> a" "a + 2 \<noteq> a" "a + 3 \<noteq> a" "a + 2 \<noteq> a + 1" "a + 3 \<noteq> a + 1" "a + 3 \<noteq> a + 2"
    by simp_all
  have "load32 (store32 a v m) a = ucast (ucast v :: uchar) OR
      push_bit 8 (ucast (ucast (drop_bit 8 v) :: uchar)) OR
      push_bit 16 (ucast (ucast (drop_bit 16 v) :: uchar)) OR
      push_bit 24 (ucast (ucast (drop_bit 24 v) :: uchar))"
    using ne ne [symmetric] by (simp add: load32_def store32_def)
  also have "\<dots> = v"
  proof (rule bit_word_eqI)
    fix n assume "n < LENGTH(32)"
    then show "bit (ucast (ucast v :: uchar) OR push_bit 8 (ucast (ucast (drop_bit 8 v) :: uchar)) OR
        push_bit 16 (ucast (ucast (drop_bit 16 v) :: uchar)) OR
        push_bit 24 (ucast (ucast (drop_bit 24 v) :: uchar)) :: uint) n = bit v n"
      by (cases "n < 16"; cases "n < 24") (auto simp: bit_simps)
  qed
  finally show ?thesis .
qed

definition page_aligned :: "uint \<Rightarrow> bool" where
  "page_aligned v \<longleftrightarrow> v mod PGSIZE = 0"

lemma page_aligned_unat: "page_aligned v \<longleftrightarrow> unat v mod 4096 = 0"
proof -
  have "unat (v mod 4096) = unat v mod 4096" by (simp add: unat_mod)
  then show ?thesis unfolding page_aligned_def PGSIZE_def by (metis unat_0 unat_gt_0 neq0_conv)
qed

text \<open>Distinct pages do not overlap.\<close>

lemma page_apart:
  assumes "page_aligned x" "page_aligned v" "x \<noteq> v" "i < 4096"
  shows "4096 \<le> unat (x + of_nat i - v)"
proof -
  have "unat (x - v) mod 4096 = 0"
    using assms(1,2) unat_lt32 [of v]
    by (auto simp: page_aligned_unat unat_sub_if' mod_eq_0_iff_dvd dvd_diff_nat)
  moreover have "unat (x - v) \<noteq> 0" using assms(3) by (simp add: unat_eq_zero)
  ultimately have "4096 \<le> unat (x - v)" "unat (x - v) + 4096 \<le> 2 ^ 32"
    using unat_lt32 [of "x - v"] by (auto simp: mod_eq_0_iff_dvd elim!: dvdE)
  moreover from this assms(4) have "unat (x - v + of_nat i) = unat (x - v) + i"
    by (intro unat_add_of_nat) simp
  ultimately show ?thesis by (simp add: algebra_simps)
qed

lemma page_bytes_apart:
  assumes "page_aligned x" "page_aligned v" "x \<noteq> v" "i < 4"
  shows "memset v c PGSIZE m (x + of_nat i) = m (x + of_nat i)"
    and "store32 v w m (x + of_nat i) = m (x + of_nat i)"
proof -
  have far: "4096 \<le> unat (x + of_nat i - v)"
    using assms by (intro page_apart) auto
  then show "memset v c PGSIZE m (x + of_nat i) = m (x + of_nat i)"
    by (simp add: memset_apply PGSIZE_def)
  have "x + of_nat i \<noteq> v + of_nat k" if "k < 4" for k
  proof
    assume "x + of_nat i = v + of_nat k"
    then have "unat (x + of_nat i - v) = unat (of_nat k :: uint)" by simp
    then show False using far that by (simp add: unat_of_nat)
  qed
  from this [of 0] this [of 1] this [of 2] this [of 3]
  show "store32 v w m (x + of_nat i) = m (x + of_nat i)"
    by (simp add: store32_def)
qed

subsection \<open>The free list\<close>

text \<open>The abstract view: the pages met by following the \<^verbatim>\<open>next\<close> pointers.\<close>

primrec flist :: "mem \<Rightarrow> uint \<Rightarrow> uint list \<Rightarrow> bool" where
  "flist m p [] \<longleftrightarrow> p = 0"
| "flist m p (x # xs) \<longleftrightarrow> p = x \<and> x \<noteq> 0 \<and> flist m (load32 m x) xs"

definition page_ok :: "uint \<Rightarrow> uint \<Rightarrow> bool" where
  "page_ok e v \<longleftrightarrow> page_aligned v \<and> e \<le> v \<and> V2P v < PHYSTOP"

text \<open>The allocator's invariant. \<open>kend\<close> is not 0: the kernel image is loaded above the null page.\<close>

definition kmem_inv :: "'x kmach_scheme \<Rightarrow> uint list \<Rightarrow> bool" where
  "kmem_inv s pages \<longleftrightarrow> flist (ram s) (freelist (kmem s)) pages \<and> distinct pages \<and>
     (\<forall>x \<in> set pages. page_ok (kend s) x) \<and> 0 < kend s"

text \<open>When the allocator can run without waiting.\<close>

definition kmem_ready :: "'x kmach_scheme \<Rightarrow> bool" where
  "kmem_ready s \<longleftrightarrow> cpu_ok s \<and> (use_lock (kmem s) \<longrightarrow> unlocked Lk_kmem s)"

lemma load32_cong:
  assumes "\<And>i. i < 4 \<Longrightarrow> m' (x + of_nat i) = m (x + of_nat i)"
  shows "load32 m' x = load32 m x"
  using assms [of 0] assms [of 1] assms [of 2] assms [of 3] by (simp add: load32_def)

lemma flist_cong:
  "(\<And>x. x \<in> set xs \<Longrightarrow> load32 m' x = load32 m x) \<Longrightarrow> flist m' p xs = flist m p xs"
  by (induction xs arbitrary: p) auto

lemma flist_after_free:
  assumes "flist m p xs" "\<forall>x \<in> set xs. page_aligned x" "page_aligned v" "v \<notin> set xs" "v \<noteq> 0"
  shows "flist (store32 v p (memset v 1 PGSIZE m)) v (v # xs)"
proof -
  have "load32 (store32 v p (memset v 1 PGSIZE m)) x = load32 m x" if "x \<in> set xs" for x
  proof (rule load32_cong)
    have "page_aligned x" "x \<noteq> v" using that assms(2,4) by auto
    then show "store32 v p (memset v 1 PGSIZE m) (x + of_nat i) = m (x + of_nat i)" if "i < 4" for i
      using that assms(3) by (simp add: page_bytes_apart)
  qed
  then have "flist (store32 v p (memset v 1 PGSIZE m)) p xs"
    using assms(1) flist_cong by blast
  then show ?thesis using assms(5) by (simp add: load_store32)
qed

subsection \<open>The operations in closed form\<close>

definition tidy :: "bool \<Rightarrow> 'x kcpu_scheme \<Rightarrow> 'x kcpu_scheme" where
  "tidy b s = (if b then settled s else s)"

lemma cpu_ok_tidy [simp]: "cpu_ok s \<Longrightarrow> cpu_ok (tidy b s)"
  by (simp add: tidy_def)

lemma tidy_locks [simp]: "held l (tidy b s) = held l s" "unlocked l (tidy b s) = unlocked l s"
  by (simp_all add: tidy_def)

lemma depth_tidy [simp]: "cpu_ok s \<Longrightarrow> depth (tidy b s) = depth s"
  by (simp add: tidy_def)

lemma tidy_kmach [simp]:
  "kmem (tidy b s) = kmem s" "ram (tidy b s) = ram s" "kend (tidy b s) = kend s"
  by (simp_all add: tidy_def)

definition popped_page :: "'x kmach_scheme \<Rightarrow> 'x kmach_scheme" where
  "popped_page s = (if freelist (kmem s) = 0 then s
     else s\<lparr>kmem := (kmem s)\<lparr>freelist := load32 (ram s) (freelist (kmem s))\<rparr>\<rparr>)"

definition pushed_page :: "uint \<Rightarrow> 'x kmach_scheme \<Rightarrow> 'x kmach_scheme" where
  "pushed_page v s = s\<lparr>ram := store32 v (freelist (kmem s)) (memset v 1 PGSIZE (ram s)),
     kmem := (kmem s)\<lparr>freelist := v\<rparr>\<rparr>"

lemma kalloc_Done:
  assumes "kmem_ready s"
  shows "kalloc s = Done (freelist (kmem s)) (popped_page (tidy (use_lock (kmem s)) s))"
  using assms
  by (auto simp: kmem_ready_def kalloc_def kern_defs popped_page_def tidy_def acquire_Done release_Done
      released_acquired)

lemma kfree_Done:
  assumes "kmem_ready s" "page_ok (kend s) v"
  shows "kfree v s = Done () (pushed_page v (tidy (use_lock (kmem s)) s))"
proof -
  have "\<not> (v mod PGSIZE \<noteq> 0 \<or> v < kend s \<or> PHYSTOP \<le> V2P v)"
    using assms(2) by (auto simp: page_ok_def page_aligned_def)
  then show ?thesis
    using assms(1)
    by (cases "use_lock (kmem s)")
       (simp_all add: kmem_ready_def kfree_def kern_defs pushed_page_def tidy_def acquire_Done
         release_Done released_acquired)
qed

lemma kfree_Panic: "\<not> page_ok (kend s) v \<Longrightarrow> kfree v s = Panic ''kfree''"
  by (simp add: kfree_def kern_defs page_ok_def page_aligned_def not_le) (auto simp: not_less)

lemma kmem_ready_popped [simp]: "kmem_ready (popped_page s) = kmem_ready s"
  by (simp add: kmem_ready_def popped_page_def)

lemma kmem_ready_pushed [simp]: "kmem_ready (pushed_page v s) = kmem_ready s"
  by (simp add: kmem_ready_def pushed_page_def)

lemma kmem_ready_tidy [simp]: "kmem_ready s \<Longrightarrow> kmem_ready (tidy b s)"
  by (simp add: kmem_ready_def)

lemma kmem_inv_tidy [simp]: "kmem_inv (tidy b s) = kmem_inv s"
  by (simp add: kmem_inv_def fun_eq_iff)

lemma kmem_inv_popped:
  "kmem_inv s (x # xs) \<Longrightarrow> freelist (kmem s) = x \<and> x \<noteq> 0 \<and> page_ok (kend s) x \<and> kmem_inv (popped_page s) xs"
  by (auto simp: kmem_inv_def popped_page_def)

lemma kmem_inv_pushed:
  assumes "kmem_inv s xs" "page_ok (kend s) v" "v \<notin> set xs"
  shows "kmem_inv (pushed_page v s) (v # xs)"
proof -
  have "v \<noteq> 0" using assms by (auto simp: kmem_inv_def page_ok_def)
  then show ?thesis
    using assms flist_after_free [of "ram s" "freelist (kmem s)" xs v]
    by (auto simp: kmem_inv_def pushed_page_def page_ok_def)
qed

subsection \<open>Writing into an allocated page\<close>

text \<open>Memory agrees outside one page.\<close>

definition same_outside :: "uint \<Rightarrow> mem \<Rightarrow> mem \<Rightarrow> bool" where
  "same_outside k m m' \<longleftrightarrow> (\<forall>a. 4096 \<le> unat (a - k) \<longrightarrow> m' a = m a)"

lemma same_outside_refl [simp]: "same_outside k m m"
  by (simp add: same_outside_def)

lemma same_outside_trans: "same_outside k m m' \<Longrightarrow> same_outside k m' m'' \<Longrightarrow> same_outside k m m''"
  by (simp add: same_outside_def)

lemma store32_other:
  assumes "4 \<le> unat (a - b)"
  shows "store32 b v m a = m a"
proof -
  have "a \<noteq> b + of_nat i" if "i < 4" for i
  proof
    assume "a = b + of_nat i"
    then have "unat (a - b) = unat (of_nat i :: uint)" by simp
    then show False using assms that by (simp add: unat_of_nat)
  qed
  from this [of 0] this [of 1] this [of 2] this [of 3] show ?thesis
    by (simp add: store32_def)
qed

lemma same_outside_step:
  assumes "unat (b - k) + n \<le> 4096" "4096 \<le> unat (a - k)"
  shows "n \<le> unat (a - b)"
proof -
  have "b - k \<le> a - k" using assms by (simp add: word_le_nat_alt)
  then have "unat ((a - k) - (b - k)) = unat (a - k) - unat (b - k)" by (rule unat_sub)
  moreover have "(a - k) - (b - k) = a - b" by simp
  ultimately have "unat (a - b) = unat (a - k) - unat (b - k)" by (simp only:)
  then show ?thesis using assms by simp
qed

lemma same_outside_store32: "unat (b - k) + 4 \<le> 4096 \<Longrightarrow> same_outside k m (store32 b v m)"
  unfolding same_outside_def
proof (intro allI impI)
  fix a assume "unat (b - k) + 4 \<le> 4096" "4096 \<le> unat (a - k)"
  then have "4 \<le> unat (a - b)" by (rule same_outside_step)
  then show "store32 b v m a = m a" by (rule store32_other)
qed

lemma same_outside_memset: "unat (b - k) + unat n \<le> 4096 \<Longrightarrow> same_outside k m (memset b c n m)"
  unfolding same_outside_def
proof (intro allI impI)
  fix a assume "unat (b - k) + unat n \<le> 4096" "4096 \<le> unat (a - k)"
  then have "unat n \<le> unat (a - b)" by (rule same_outside_step)
  then show "memset b c n m a = m a" by (simp add: memset_apply)
qed

lemma load32_same_outside:
  assumes "same_outside k m m'" "page_aligned k" "page_aligned x" "x \<noteq> k"
  shows "load32 m' x = load32 m x"
proof (rule load32_cong)
  fix i :: nat assume "i < 4"
  then have "4096 \<le> unat (x + of_nat i - k)" using assms by (intro page_apart) auto
  then show "m' (x + of_nat i) = m (x + of_nat i)" using assms(1) by (simp add: same_outside_def)
qed

lemma kmem_inv_ram:
  assumes "kmem_inv s ps" "same_outside k (ram s) m" "page_aligned k" "k \<notin> set ps"
  shows "kmem_inv (s\<lparr>ram := m\<rparr>) ps"
proof -
  have "load32 m x = load32 (ram s) x" if "x \<in> set ps" for x
    using that assms by (intro load32_same_outside [of k]) (auto simp: kmem_inv_def page_ok_def)
  then have "flist m (freelist (kmem s)) ps = flist (ram s) (freelist (kmem s)) ps"
    by (rule flist_cong)
  then show ?thesis using assms(1) by (simp add: kmem_inv_def)
qed

lemma load32_store32_other:
  assumes "4 \<le> unat (a - b)" "4 \<le> unat (b - a)"
  shows "load32 (store32 b v m) a = load32 m a"
proof (rule load32_cong)
  fix i :: nat assume i: "i < 4"
  have "unat ((a - b) + (b - a)) = 0" by simp
  then have "2 ^ 32 dvd unat (a - b) + unat (b - a)"
    unfolding unat_word_ariths by (simp add: mod_eq_0_iff_dvd)
  then obtain q where q: "unat (a - b) + unat (b - a) = 2 ^ 32 * q" by (rule dvdE)
  have lt: "unat (a - b) < 2 ^ 32" "unat (b - a) < 2 ^ 32" by (rule unat_lt32)+
  have "0 < q" "q < 2" using q lt assms by simp_all
  then have "unat (a - b) + 4 \<le> 2 ^ 32" using q assms by simp
  then have "unat (a - b + of_nat i) = unat (a - b) + i" using i by (intro unat_add_of_nat) simp
  moreover have "a + of_nat i - b = a - b + of_nat i" by simp
  ultimately have "4 \<le> unat (a + of_nat i - b)" using assms(1) by (simp only:)
  then show "store32 b v m (a + of_nat i) = m (a + of_nat i)" by (rule store32_other)
qed

subsection \<open>Rounding to pages\<close>

lemma and_not_4095: "unat (x AND NOT (PGSIZE - 1)) = unat x div 4096 * 4096" for x :: uint
proof -
  have m: "PGSIZE - 1 = mask 12" by (simp add: PGSIZE_def mask_eq_exp_minus_1)
  have "x AND NOT (PGSIZE - 1) = push_bit 12 (drop_bit 12 x)"
    unfolding m by (intro bit_word_eqI) (auto simp: bit_simps)
  moreover have "unat (push_bit 12 (drop_bit 12 x)) = unat x div 4096 * 4096"
  proof -
    have "unat x div 4096 * 4096 < 2 ^ 32"
      using unat_lt32 [of x] by (meson div_times_less_eq_dividend order_le_less_trans)
    moreover have "unat (push_bit 12 (drop_bit 12 x)) = (unat x div 4096 * 4096) mod 2 ^ 32"
      by (simp add: push_bit_eq_mult drop_bit_eq_div unat_word_ariths unat_div mod_mult_left_eq)
    ultimately show ?thesis by simp
  qed
  ultimately show ?thesis by simp
qed

lemma round_up_le: "(n + 4095) div 4096 * 4096 \<le> 4096 * q \<longleftrightarrow> n \<le> 4096 * q" for n q :: nat
proof -
  have "(n + 4095) div 4096 < Suc q \<longleftrightarrow> n + 4095 < Suc q * 4096"
    by (simp add: div_less_iff_less_mult)
  then show ?thesis by auto
qed

lemma page_fits:
  fixes d k q v :: nat
  assumes "d * 4096 + 4096 * k \<le> v" "v < d * 4096 + 4096 * Suc k"
  shows "4096 * q < d * 4096 + 4096 * k \<longleftrightarrow> 4096 * q + 4096 \<le> v"
proof
  assume "4096 * q < d * 4096 + 4096 * k"
  then have "q + 1 \<le> d + k" by linarith
  then show "4096 * q + 4096 \<le> v" using assms(1) by linarith
next
  assume "4096 * q + 4096 \<le> v"
  then have "q < d + k" using assms(2) by simp
  then show "4096 * q < d * 4096 + 4096 * k" by simp
qed

lemma PGROUNDUP_unat:
  assumes "unat a + 4095 < 2 ^ 32"
  shows "unat (PGROUNDUP a) = (unat a + 4095) div 4096 * 4096"
proof -
  have e: "a + PGSIZE - 1 = a + of_nat 4095" by (simp add: PGSIZE_def)
  have "unat (a + PGSIZE - 1) = unat a + 4095" unfolding e by (rule unat_add_of_nat [OF assms])
  then show ?thesis unfolding PGROUNDUP_def and_not_4095 by simp
qed

lemma page_aligned_rounded: "page_aligned (PGROUNDUP a)" "page_aligned (PGROUNDDOWN a)"
  by (simp_all add: page_aligned_unat PGROUNDUP_def PGROUNDDOWN_def and_not_4095)

subsection \<open>freerange\<close>

primrec page_list :: "uint \<Rightarrow> nat \<Rightarrow> uint list" where
  "page_list p 0 = []"
| "page_list p (Suc k) = p # page_list (p + PGSIZE) k"

lemma set_page_list:
  assumes "page_aligned p" "unat p + 4096 * k < 2 ^ 32"
  shows "set (page_list p k) = {x. page_aligned x \<and> p \<le> x \<and> unat x < unat p + 4096 * k}"
  using assms
proof (induction k arbitrary: p)
  case (Suc k)
  have u: "unat (p + PGSIZE) = unat p + 4096"
    using Suc.prems unat_add_of_nat [of p 4096] by (simp add: PGSIZE_def)
  have al: "page_aligned (p + PGSIZE)" using Suc.prems(1) u by (simp add: page_aligned_unat)
  have step: "p \<le> x \<and> x \<noteq> p \<longleftrightarrow> p + PGSIZE \<le> x" if "page_aligned x" for x
  proof -
    have "unat p < unat x \<longrightarrow> unat p + 4096 \<le> unat x"
      using that Suc.prems(1) by (auto simp: page_aligned_unat mod_eq_0_iff_dvd elim!: dvdE)
    then show ?thesis unfolding word_le_nat_alt u word_unat_eq_iff by linarith
  qed
  show ?case
    using Suc.IH [OF al] Suc.prems u step by (auto simp: word_le_nat_alt)
qed (auto simp: word_le_nat_alt)

lemma page_ok_between:
  assumes "page_aligned x" "e \<le> x" "KERNBASE \<le> e" "unat x + 4096 \<le> 0x8E000000"
  shows "page_ok e x"
proof -
  have "KERNBASE \<le> x" using assms(2,3) by simp
  then have "unat (V2P x) = unat x - 0x80000000"
    by (simp add: V2P_def KERNBASE_def unat_sub word_le_nat_alt)
  then show ?thesis
    using assms by (simp add: page_ok_def word_less_nat_alt PHYSTOP_def)
qed

lemma runs_kfree:
  assumes "kmem_ready s" "kmem_inv s xs" "page_ok (kend s) v" "v \<notin> set xs"
  shows "runs (kfree v) s (\<lambda>_ t. kmem_ready t \<and> kmem_inv t (v # xs) \<and> kend t = kend s \<and>
     use_lock (kmem t) = use_lock (kmem s))"
  using assms kmem_inv_pushed [of "tidy (use_lock (kmem s)) s" xs v]
  by (simp add: runs_Done kfree_Done) (simp add: pushed_page_def)

lemma runs_freerange_loop:
  assumes "kmem_ready s" "kmem_inv s xs" "page_aligned p" "kend s \<le> p" "KERNBASE \<le> kend s"
    "unat p + 4096 * k \<le> unat vend" "unat vend < unat p + 4096 * Suc k" "unat vend \<le> 0x8E000000"
    "set (page_list p k) \<inter> set xs = {}"
  shows "runs (freerange_loop p vend) s (\<lambda>_ t. kmem_ready t \<and> kmem_inv t (rev (page_list p k) @ xs) \<and>
     kend t = kend s \<and> use_lock (kmem t) = use_lock (kmem s))"
  using assms
proof (induction k arbitrary: s p xs)
  case 0
  have "unat (p + PGSIZE) = unat p + 4096"
    using 0 unat_add_of_nat [of p 4096] by (simp add: PGSIZE_def)
  then have "\<not> p + PGSIZE \<le> vend" using 0 by (simp add: word_le_nat_alt)
  then show ?case using 0 by (simp add: freerange_loop.simps kern)
next
  case (Suc k)
  have u: "unat (p + PGSIZE) = unat p + 4096"
    using Suc.prems unat_add_of_nat [of p 4096] by (simp add: PGSIZE_def)
  have le: "p + PGSIZE \<le> vend" "p < p + PGSIZE"
    using Suc.prems u by (simp_all add: word_le_nat_alt word_less_nat_alt)
  have al: "page_aligned (p + PGSIZE)" using Suc.prems(3) u by (simp add: page_aligned_unat)
  have ok: "page_ok (kend s) p"
    using Suc.prems by (intro page_ok_between) auto
  have p: "p \<notin> set xs" "p \<notin> set (page_list (p + PGSIZE) k)"
    using Suc.prems al u by (auto simp: set_page_list word_le_nat_alt)
  have "runs (kfree p) s (\<lambda>_ t. kmem_ready t \<and> kmem_inv t (p # xs) \<and> kend t = kend s \<and>
     use_lock (kmem t) = use_lock (kmem s))"
    using Suc.prems(1,2) ok p(1) by (rule runs_kfree)
  then have "runs (kfree p) s (\<lambda>_ t. runs (freerange_loop (p + PGSIZE) vend) t
     (\<lambda>_ t. kmem_ready t \<and> kmem_inv t (rev (page_list (p + PGSIZE) k) @ p # xs) \<and> kend t = kend s \<and>
       use_lock (kmem t) = use_lock (kmem s)))"
  proof (rule runs_weaken)
    fix t :: "'a kmach_scheme"
    assume t: "kmem_ready t \<and> kmem_inv t (p # xs) \<and> kend t = kend s \<and> use_lock (kmem t) = use_lock (kmem s)"
    have "kend s \<le> p + PGSIZE" using Suc.prems(4) le(2) by simp
    then have "runs (freerange_loop (p + PGSIZE) vend) t
       (\<lambda>_ u. kmem_ready u \<and> kmem_inv u (rev (page_list (p + PGSIZE) k) @ p # xs) \<and> kend u = kend t \<and>
         use_lock (kmem u) = use_lock (kmem t))"
      using t u al p Suc.prems by (intro Suc.IH) auto
    then show "runs (freerange_loop (p + PGSIZE) vend) t
       (\<lambda>_ t. kmem_ready t \<and> kmem_inv t (rev (page_list (p + PGSIZE) k) @ p # xs) \<and> kend t = kend s \<and>
         use_lock (kmem t) = use_lock (kmem s))"
      using t by simp
  qed
  then show ?case using le by (simp add: freerange_loop.simps [of p] kern)
qed

subsection \<open>The interface of the allocator\<close>

text \<open>
  What the rest of the kernel relies on: a stack of free pages. \<open>avail s ps\<close> says that the pages
  \<open>ps\<close> are free in state \<open>s\<close> and that the allocator can run; \<open>legal s v\<close> that \<open>v\<close> is a page
  the allocator accepts.
\<close>

locale page_allocator =
  fixes alloc :: "('s, uint) kern"
    and free :: "uint \<Rightarrow> ('s, unit) kern"
    and avail :: "'s \<Rightarrow> uint list \<Rightarrow> bool"
    and legal :: "'s \<Rightarrow> uint \<Rightarrow> bool"
  assumes alloc_Nil: "avail s [] \<Longrightarrow> runs alloc s (\<lambda>r t. r = 0 \<and> avail t [])"
    and alloc_Cons: "avail s (p # ps) \<Longrightarrow>
      runs alloc s (\<lambda>r t. r = p \<and> avail t ps \<and> (\<forall>v. legal t v = legal s v))"
    and free_push: "avail s ps \<Longrightarrow> legal s v \<Longrightarrow> v \<notin> set ps \<Longrightarrow> runs (free v) s (\<lambda>_ t. avail t (v # ps))"
    and avail_legal: "avail s ps \<Longrightarrow> distinct ps \<and> (\<forall>p \<in> set ps. legal s p \<and> p \<noteq> 0)"

text \<open>Asking for \<open>n\<close> pages in a row.\<close>

primrec alloc_seq :: "('s, uint) kern \<Rightarrow> nat \<Rightarrow> ('s, uint list) kern" where
  "alloc_seq al 0 = ret []"
| "alloc_seq al (Suc n) = bnd al (\<lambda>p. bnd (alloc_seq al n) (\<lambda>ps. ret (p # ps)))"

context page_allocator
begin

lemma alloc_seq_take:
  assumes "avail s ps" "n \<le> length ps"
  shows "runs (alloc_seq alloc n) s (\<lambda>qs t. qs = take n ps \<and> avail t (drop n ps))"
  using assms
proof (induction n arbitrary: s ps)
  case (Suc n)
  then obtain p ps' where ps: "ps = p # ps'" by (cases ps) auto
  have "runs alloc s (\<lambda>r t. r = p \<and> avail t ps' \<and> (\<forall>v. legal t v = legal s v))"
    using Suc.prems ps by (auto intro: alloc_Cons)
  then have "runs alloc s (\<lambda>r t. runs (alloc_seq alloc n) t
      (\<lambda>qs u. r # qs = take (Suc n) ps \<and> avail u (drop (Suc n) ps)))"
    by (rule runs_weaken) (use Suc ps in \<open>auto intro: runs_weaken\<close>)
  then show ?case by (simp add: kern)
qed (simp add: kern)

lemma free_alloc:
  assumes "avail s ps" "legal s v" "v \<notin> set ps"
  shows "runs (sq (free v) alloc) s (\<lambda>r t. r = v \<and> avail t ps)"
proof -
  have "runs (free v) s (\<lambda>_ t. runs alloc t (\<lambda>r u. r = v \<and> avail u ps))"
    using free_push [OF assms]
    by (rule runs_weaken) (auto intro: runs_weaken alloc_Cons)
  then show ?thesis by (simp add: kern)
qed

lemma alloc_all:
  assumes "avail s ps"
  shows "runs (alloc_seq alloc (Suc (length ps))) s (\<lambda>qs t. qs = ps @ [0] \<and> avail t [])"
  using assms
proof (induction ps arbitrary: s)
  case Nil
  then have "runs alloc s (\<lambda>r t. r = 0 \<and> avail t [])" by (rule alloc_Nil)
  then show ?case by (auto simp: kern intro: runs_weaken)
next
  case (Cons p ps)
  have "runs alloc s (\<lambda>r t. r = p \<and> avail t ps \<and> (\<forall>v. legal t v = legal s v))"
    using Cons.prems by (rule alloc_Cons)
  then have "runs alloc s (\<lambda>r t. runs (alloc_seq alloc (Suc (length ps))) t
      (\<lambda>qs u. r # qs = (p # ps) @ [0] \<and> avail u []))"
    by (rule runs_weaken) (use Cons.IH in \<open>auto intro: runs_weaken simp del: alloc_seq.simps\<close>)
  then show ?case by (simp add: kern)
qed

end

definition kmem_avail :: "'x kmach_scheme \<Rightarrow> uint list \<Rightarrow> bool" where
  "kmem_avail s ps \<longleftrightarrow> kmem_ready s \<and> kmem_inv s ps"

definition kmem_legal :: "'x kmach_scheme \<Rightarrow> uint \<Rightarrow> bool" where
  "kmem_legal s v \<longleftrightarrow> page_ok (kend s) v"

interpretation pages: page_allocator kalloc kfree kmem_avail kmem_legal
proof
  fix s :: "'a kmach_scheme" and p ps v
  show "runs kalloc s (\<lambda>r t. r = 0 \<and> kmem_avail t [])" if "kmem_avail s []"
    using that by (auto simp: kmem_avail_def runs_Done kalloc_Done kmem_inv_def popped_page_def)
  show "runs kalloc s (\<lambda>r t. r = p \<and> kmem_avail t ps \<and> (\<forall>v. kmem_legal t v = kmem_legal s v))"
    if "kmem_avail s (p # ps)"
    using that kmem_inv_popped [of "tidy (use_lock (kmem s)) s" p ps]
    by (auto simp: kmem_avail_def kmem_legal_def runs_Done kalloc_Done) (simp_all add: popped_page_def)
  show "runs (kfree v) s (\<lambda>_ t. kmem_avail t (v # ps))"
    if "kmem_avail s ps" "kmem_legal s v" "v \<notin> set ps"
    using that by (auto simp: kmem_avail_def kmem_legal_def intro: runs_weaken [OF runs_kfree])
  show "distinct ps \<and> (\<forall>p \<in> set ps. kmem_legal s p \<and> p \<noteq> 0)" if "kmem_avail s ps"
    using that by (auto simp: kmem_avail_def kmem_legal_def kmem_inv_def page_ok_def)
qed

subsection \<open>Properties\<close>

text \<open>
  C19. From a state with \<open>n\<close> free pages, \<open>n + 1\<close> calls of kalloc hand out each free page exactly once,
  all distinct, page-aligned and within the memory the allocator manages, and the last call
  returns 0; no page is handed out twice.
\<close>

theorem kalloc_hands_out_each_page_once:
  assumes "kmem_ready s" "kmem_inv s ps"
  shows "runs (alloc_seq kalloc (Suc (length ps))) s (\<lambda>qs t. qs = ps @ [0] \<and> distinct qs \<and>
    (\<forall>p \<in> set ps. page_ok (kend s) p) \<and> freelist (kmem t) = 0)"
proof -
  have av: "kmem_avail s ps" using assms by (simp add: kmem_avail_def)
  have "distinct (ps @ [0])" "\<forall>p \<in> set ps. page_ok (kend s) p"
    using pages.avail_legal [OF av] by (auto simp: kmem_legal_def)
  then show ?thesis
    using pages.alloc_all [OF av]
    by (auto simp: kmem_avail_def kmem_inv_def elim!: runs_weaken simp del: alloc_seq.simps)
qed

text \<open>
  C25. kfree accepts exactly the page-aligned addresses between the end of the kernel and PHYSTOP and
  panics on any other; after a kfree of a page that was not free, kalloc returns that page again and
  the free list is what it was before.
\<close>

theorem kfree_kalloc_roundtrip:
  assumes "kmem_ready s" "kmem_inv s ps" "v \<notin> set ps"
  shows "(page_ok (kend s) v \<longrightarrow> runs (sq (kfree v) kalloc) s (\<lambda>r t. r = v \<and> kmem_inv t ps)) \<and>
    (\<not> page_ok (kend s) v \<longrightarrow> kfree v s = Panic ''kfree'')"
proof -
  have av: "kmem_avail s ps" using assms by (simp add: kmem_avail_def)
  have "runs (sq (kfree v) kalloc) s (\<lambda>r t. r = v \<and> kmem_inv t ps)" if "page_ok (kend s) v"
    using pages.free_alloc [OF av, of v] that assms(3)
    by (auto simp: kmem_avail_def kmem_legal_def elim!: runs_weaken)
  then show ?thesis by (simp add: kfree_Panic)
qed

text \<open>
  The boot-time initialisation puts exactly the whole pages of the given range on the free list:
  started with an empty list, freerange returns and the free pages are the page-aligned addresses
  from the first page boundary of the range whose 4096 bytes lie below its end.
\<close>

lemma freerange_frees_whole_pages:
  assumes "kmem_ready s" "kmem_inv s []" "KERNBASE \<le> kend s" "kend s \<le> vstart" "vstart \<le> vend"
    "unat vend \<le> 0x8E000000" "unat (PGROUNDUP vstart) \<le> unat vend"
  shows "runs (freerange vstart vend) s (\<lambda>_ t. \<exists>ps. kmem_inv t ps \<and>
    set ps = {x. page_aligned x \<and> vstart \<le> x \<and> unat x + 4096 \<le> unat vend})"
proof -
  let ?p = "PGROUNDUP vstart"
  define k where "k = (unat vend - unat ?p) div 4096"
  have up: "unat ?p = (unat vstart + 4095) div 4096 * 4096"
    using assms(5,6) by (intro PGROUNDUP_unat) (simp add: word_le_nat_alt)
  then have le: "vstart \<le> ?p" by (simp add: word_le_nat_alt)
  have k: "unat ?p + 4096 * k \<le> unat vend" "unat vend < unat ?p + 4096 * Suc k"
    using assms(7) unfolding k_def by (simp_all add: algebra_simps)
  have al: "page_aligned ?p" by (rule page_aligned_rounded)
  have "set (page_list ?p k) = {x. page_aligned x \<and> ?p \<le> x \<and> unat x < unat ?p + 4096 * k}"
    using al k(1) assms(6) by (intro set_page_list) auto
  also have "\<dots> = {x. page_aligned x \<and> vstart \<le> x \<and> unat x + 4096 \<le> unat vend}"
  proof (rule Collect_cong)
    fix x show "(page_aligned x \<and> ?p \<le> x \<and> unat x < unat ?p + 4096 * k) \<longleftrightarrow>
        (page_aligned x \<and> vstart \<le> x \<and> unat x + 4096 \<le> unat vend)"
    proof (cases "page_aligned x")
      case True
      then obtain q where q: "unat x = 4096 * q"
        by (auto simp: page_aligned_unat mod_eq_0_iff_dvd elim!: dvdE)
      have "?p \<le> x \<longleftrightarrow> vstart \<le> x"
        unfolding word_le_nat_alt up q by (rule round_up_le)
      moreover have "unat x < unat ?p + 4096 * k \<longleftrightarrow> unat x + 4096 \<le> unat vend"
        using k unfolding up q by (intro page_fits)
      ultimately show ?thesis by auto
    qed simp
  qed
  finally have st: "set (rev (page_list ?p k) @ []) =
      {x. page_aligned x \<and> vstart \<le> x \<and> unat x + 4096 \<le> unat vend}" by simp
  have "runs (freerange_loop ?p vend) s (\<lambda>_ t. kmem_ready t \<and> kmem_inv t (rev (page_list ?p k) @ []) \<and>
     kend t = kend s \<and> use_lock (kmem t) = use_lock (kmem s))"
    using assms k le al by (intro runs_freerange_loop) auto
  then show ?thesis
    unfolding freerange_def by (rule runs_weaken) (use st in blast)
qed

text \<open>A concrete machine with one free page, for the witnesses.\<close>

definition one_page :: kmach where
  "one_page = \<lparr>hw_if = True, hw_lapicid = 0,
     cpus = [\<lparr>apicid = 0, ncli = 0, intena = False, cpu_proc = None, ts_esp0 = 0\<rparr>],
     locks = (\<lambda>_. \<lparr>locked = False, lk_name = [], lk_cpu = None\<rparr>),
     kmem = \<lparr>use_lock = True, freelist = 0x80200000\<rparr>, ram = (\<lambda>_. 0), kend = 0x80110000, kdata = 0x80108000, hw_cr3 = 0, kpgdir = 0x803FF000\<rparr>"

lemma one_page_ready: "kmem_ready one_page"
  by (simp add: kmem_ready_def one_page_def cpu_ok_def cpu_idx_def first_index_def unlocked_def)

lemma one_page_inv: "kmem_inv one_page [0x80200000]"
  by (simp add: kmem_inv_def one_page_def load32_def page_ok_def page_aligned_def PGSIZE_def V2P_def
      KERNBASE_def PHYSTOP_def)

theorem kalloc_hands_out_each_page_once_witness:
  "runs (alloc_seq kalloc 2) one_page (\<lambda>qs t. qs = [0x80200000, 0] \<and> freelist (kmem t) = 0)"
  using kalloc_hands_out_each_page_once [OF one_page_ready one_page_inv]
  by (auto simp: numeral_2_eq_2 elim!: runs_weaken simp del: alloc_seq.simps)

theorem kfree_kalloc_roundtrip_witness:
  "runs (sq (kfree 0x80300000) kalloc) one_page (\<lambda>r t. r = 0x80300000 \<and> kmem_inv t [0x80200000])"
proof -
  have "page_ok (kend one_page) 0x80300000"
    by (simp add: one_page_def page_ok_def page_aligned_def PGSIZE_def V2P_def KERNBASE_def PHYSTOP_def)
  then show ?thesis
    using kfree_kalloc_roundtrip [OF one_page_ready one_page_inv, of "0x80300000"] by simp
qed

lemma freerange_frees_whole_pages_example:
  "runs (freerange 0x80200001 0x80203000) (one_page\<lparr>kmem := \<lparr>use_lock = False, freelist = 0\<rparr>\<rparr>)
    (\<lambda>_ t. \<exists>ps. kmem_inv t ps \<and>
       set ps = {x. page_aligned x \<and> 0x80200001 \<le> x \<and> unat x + 4096 \<le> unat (0x80203000 :: uint)})"
proof (rule freerange_frees_whole_pages)
  let ?s = "one_page\<lparr>kmem := \<lparr>use_lock = False, freelist = 0\<rparr>\<rparr>"
  show "kmem_ready ?s" using one_page_ready by (simp add: kmem_ready_def)
  show "kmem_inv ?s []" by (simp add: kmem_inv_def one_page_def)
  show "unat (PGROUNDUP 0x80200001) \<le> unat (0x80203000 :: uint)"
    by (subst PGROUNDUP_unat) simp_all
qed (simp_all add: one_page_def KERNBASE_def)

end
