(* ===== verification/Console.thy ===== *)
theory Console
  imports Kalloc
begin

text \<open>
  Console output: \<^verbatim>\<open>printint\<close>, \<^verbatim>\<open>cprintf\<close>, \<^verbatim>\<open>cgaputc\<close> and \<^verbatim>\<open>consputc\<close> of
  \<^verbatim>\<open>src/console.c\<close> and \<^verbatim>\<open>uartputc\<close> of \<^verbatim>\<open>src/uart.c\<close>.

  The devices are part of the state: the 80 by 25 text memory and the cursor registers of the
  CGA adapter, and the bytes sent to the serial port. Waiting for the serial port to become ready
  is not modelled. A C string argument of \<^verbatim>\<open>cprintf\<close> is passed as its characters.
\<close>

subsection \<open>State\<close>

record console =
  locking :: bool            \<comment> \<open>cons.locking\<close>
  panicked :: bool
  uart :: bool               \<comment> \<open>is there a serial port?\<close>
  uart_sent :: "uchar list"  \<comment> \<open>bytes written to COM1\<close>
  crt :: "ushort list"       \<comment> \<open>CGA memory\<close>
  crtpos :: int              \<comment> \<open>cursor registers 14 and 15\<close>

record kcons = kmach +
  cons :: console

interpretation cons_field: component_field cons cons_update
  by unfold_locales simp_all

subsection \<open>The character devices\<close>

definition BACKSPACE :: int where "BACKSPACE = 0x100"

definition uartputc :: "int \<Rightarrow> console \<Rightarrow> console" where
  "uartputc c k = (if \<not> uart k then k else k\<lparr>uart_sent := uart_sent k @ [word_of_int c]\<rparr>)"

text \<open>The scroll of \<^verbatim>\<open>cgaputc\<close>: \<^verbatim>\<open>memmove\<close> of 23 lines up by one line, then blank cells from the
  new cursor to the end of line 24.\<close>

definition scroll :: "int \<Rightarrow> ushort list \<Rightarrow> ushort list" where
  "scroll pos v = (let v' = take (23 * 80) (drop 80 v) @ drop (23 * 80) v
     in take (nat pos) v' @ replicate (24 * 80 - nat pos) 0 @ drop (24 * 80) v')"

text \<open>\<^verbatim>\<open>None\<close> stands for the panic \<^verbatim>\<open>pos under/overflow\<close>.\<close>

definition cgaputc :: "int \<Rightarrow> console \<Rightarrow> console option" where
  "cgaputc c k =
    (let pos = crtpos k;
         (pos, v) = (if c = 10 then (pos + (80 - pos mod 80), crt k)
           else if c = BACKSPACE then (if pos > 0 then pos - 1 else pos, crt k)
           else (pos + 1, (crt k)[nat pos := word_of_int (c mod 256) OR 0x0700]))
     in if pos < 0 \<or> pos > 25 * 80 then None
        else let (pos, v) = (if pos div 80 \<ge> 24 then (pos - 80, scroll (pos - 80) v) else (pos, v))
          in Some (k\<lparr>crtpos := pos, crt := v[nat pos := 0x0720]\<rparr>))"

definition consputc :: "int \<Rightarrow> ('x kcons_scheme, unit) kern" where
  "consputc c = bnd (gets (\<lambda>s. panicked (cons s))) (\<lambda>p.
     if p then sq cli (panic ''halted'')
     else sq (modify (\<lambda>s. s\<lparr>cons :=
            (if c = BACKSPACE then uartputc 8 (uartputc 32 (uartputc 8 (cons s)))
             else uartputc c (cons s))\<rparr>)) (
       bnd (gets (\<lambda>s. cgaputc c (cons s))) (\<lambda>r. case r of
         None \<Rightarrow> panic ''pos under/overflow''
       | Some k \<Rightarrow> modify (\<lambda>s. s\<lparr>cons := k\<rparr>))))"

subsection \<open>Formatting\<close>

text \<open>The digits of \<open>x\<close>, least significant first, as the \<^verbatim>\<open>do ... while\<close> loop of
  \<^verbatim>\<open>printint\<close> stores them. The second test always holds for the bases the source uses (10 and
  16); it makes the recursion well-founded for every base.\<close>

function digit_loop :: "string \<Rightarrow> uint \<Rightarrow> uint \<Rightarrow> string" where
  "digit_loop digits base x = digits ! unat (x mod base) #
     (if x div base \<noteq> 0 \<and> x div base < x then digit_loop digits base (x div base) else [])"
  by pat_completeness auto
termination
  by (relation "measure (\<lambda>(_, _, x). unat x)") (auto simp: word_less_nat_alt)

declare digit_loop.simps [simp del]

definition printint_chars :: "string \<Rightarrow> int \<Rightarrow> uint \<Rightarrow> bool \<Rightarrow> string" where
  "printint_chars digits xx base sign =
    (let neg = sign \<and> xx < 0;
         x = (if neg then word_of_int (- xx) else word_of_int xx);
         buf = digit_loop digits base x @ (if neg then ''-'' else [])
     in rev buf)"

definition console_digits :: string where
  "console_digits = ''0123456789abcdef''"

definition puts :: "string \<Rightarrow> ('x kcons_scheme, unit) kern" where
  "puts str = for_each str (\<lambda>c. consputc (of_char c))"

definition printint :: "int \<Rightarrow> uint \<Rightarrow> bool \<Rightarrow> ('x kcons_scheme, unit) kern" where
  "printint xx base sign = puts (printint_chars console_digits xx base sign)"

text \<open>The arguments after the format: words, or strings (\<open>None\<close> for a null pointer). Consuming an
  argument that was not passed, or one of the wrong kind, is undefined.\<close>

datatype carg = Arg int | Str "string option"

fun cprintf_loop :: "string \<Rightarrow> carg list \<Rightarrow> ('x kcons_scheme, unit) kern" where
  "cprintf_loop [] argp = ret ()"
| "cprintf_loop (c # fmt) argp =
    (if c \<noteq> CHR ''%'' then sq (consputc (of_char c)) (cprintf_loop fmt argp)
     else case fmt of
       [] \<Rightarrow> ret ()
     | d # rest \<Rightarrow>
         if d = CHR ''d'' then (case argp of
             Arg n # as \<Rightarrow> sq (printint n 10 True) (cprintf_loop rest as)
           | _ \<Rightarrow> undef ''cprintf argument'')
         else if d = CHR ''x'' \<or> d = CHR ''p'' then (case argp of
             Arg n # as \<Rightarrow> sq (printint n 16 False) (cprintf_loop rest as)
           | _ \<Rightarrow> undef ''cprintf argument'')
         else if d = CHR ''s'' then (case argp of
             Str None # as \<Rightarrow> sq (puts ''(null)'') (cprintf_loop rest as)
           | Str (Some t) # as \<Rightarrow> sq (puts t) (cprintf_loop rest as)
           | _ \<Rightarrow> undef ''cprintf argument'')
         else if d = CHR ''%'' then sq (consputc 37) (cprintf_loop rest argp)
         else sq (consputc 37) (sq (consputc (of_char d)) (cprintf_loop rest argp)))"

definition cprintf :: "string \<Rightarrow> carg list \<Rightarrow> ('x kcons_scheme, unit) kern" where
  "cprintf fmt argp = bnd (gets (\<lambda>s. locking (cons s))) (\<lambda>lk.
     sq (whenM lk (acquire Lk_cons)) (
     sq (cprintf_loop fmt argp)
        (whenM lk (release Lk_cons))))"

subsection \<open>Writing characters never fails\<close>

text \<open>The screen invariant: the cursor is on one of the first 24 lines.\<close>

definition cons_ok :: "console \<Rightarrow> bool" where
  "cons_ok k \<longleftrightarrow> \<not> panicked k \<and> 0 \<le> crtpos k \<and> crtpos k < 24 * 80 \<and> length (crt k) = 25 * 80"

definition emit :: "int \<Rightarrow> console \<Rightarrow> console" where
  "emit c k = the (cgaputc c (if c = BACKSPACE then uartputc 8 (uartputc 32 (uartputc 8 k)) else uartputc c k))"

definition emits :: "string \<Rightarrow> console \<Rightarrow> console" where
  "emits str k = foldl (\<lambda>k c. emit (of_char c) k) k str"

lemma length_scroll: "length v = 25 * 80 \<Longrightarrow> 0 \<le> p \<Longrightarrow> p \<le> 23 * 80 \<Longrightarrow> length (scroll p v) = 25 * 80"
  by (simp add: scroll_def Let_def)

lemma cgaputc_ok:
  assumes "cons_ok k"
  obtains k' where "cgaputc c k = Some k'" "cons_ok k'" "uart_sent k' = uart_sent k" "uart k' = uart k"
    "locking k' = locking k"
proof -
  have p: "0 \<le> crtpos k" "crtpos k < 1920" "length (crt k) = 2000" "\<not> panicked k"
    using assms by (auto simp: cons_ok_def)
  have d: "crtpos k + (80 - crtpos k mod 80) = 80 * (crtpos k div 80 + 1)" 
    by (simp add: minus_mod_eq_mult_div [symmetric])
  have "crtpos k div 80 \<le> 23" using p by simp
  define q where "q = (if c = 10 then crtpos k + (80 - crtpos k mod 80)
      else if c = BACKSPACE then (if crtpos k > 0 then crtpos k - 1 else crtpos k) else crtpos k + 1)"
  define v where "v = (if c = 10 \<or> c = BACKSPACE then crt k
      else (crt k)[nat (crtpos k) := word_of_int (c mod 256) OR 0x0700])"
  have q: "0 \<le> q" "q \<le> 1920"
    using p d \<open>crtpos k div 80 \<le> 23\<close> unfolding q_def by auto
  have v: "length v = 2000" using p by (simp add: v_def)
  have "24 \<le> q div 80 \<longleftrightarrow> 1920 \<le> q" by auto
  moreover have "cgaputc c k = (if q < 0 \<or> q > 2000 then None
      else let (q, v) = (if q div 80 \<ge> 24 then (q - 80, scroll (q - 80) v) else (q, v))
        in Some (k\<lparr>crtpos := q, crt := v[nat q := 0x0720]\<rparr>))"
    by (simp add: cgaputc_def q_def v_def Let_def)
  ultimately show ?thesis
    using that [of "the (cgaputc c k)"] q v p(4) length_scroll [of v "q - 80"]
    by (auto simp: cons_ok_def)
qed

lemma uartputc_sel [simp]:
  "cons_ok (uartputc c k) = cons_ok k" "uart (uartputc c k) = uart k"
  "locking (uartputc c k) = locking k"
  "uart_sent (uartputc c k) = uart_sent k @ (if uart k then [word_of_int c] else [])"
  by (simp_all add: uartputc_def cons_ok_def)

lemma emit_sel [simp]:
  assumes "cons_ok k"
  shows "cons_ok (emit c k)" "uart (emit c k) = uart k" "locking (emit c k) = locking k"
    "c \<noteq> BACKSPACE \<Longrightarrow> uart_sent (emit c k) = uart_sent k @ (if uart k then [word_of_int c] else [])"
proof -
  define k0 where "k0 = (if c = BACKSPACE then uartputc 8 (uartputc 32 (uartputc 8 k)) else uartputc c k)"
  have k0: "cons_ok k0" "uart k0 = uart k" "locking k0 = locking k"
    "c \<noteq> BACKSPACE \<Longrightarrow> uart_sent k0 = uart_sent k @ (if uart k then [word_of_int c] else [])"
    using assms by (simp_all add: k0_def)
  from k0(1) obtain k' where "cgaputc c k0 = Some k'" "cons_ok k'" "uart_sent k' = uart_sent k0"
    "uart k' = uart k0" "locking k' = locking k0" by (rule cgaputc_ok)
  moreover from this have "emit c k = k'" by (simp add: emit_def k0_def)
  ultimately show "cons_ok (emit c k)" "uart (emit c k) = uart k" "locking (emit c k) = locking k"
    "c \<noteq> BACKSPACE \<Longrightarrow> uart_sent (emit c k) = uart_sent k @ (if uart k then [word_of_int c] else [])"
    using k0 by simp_all
qed

lemma consputc_Done:
  assumes "cons_ok (cons s)"
  shows "consputc c s = Done () (s\<lparr>cons := emit c (cons s)\<rparr>)"
proof -
  define k where "k = (if c = BACKSPACE then uartputc 8 (uartputc 32 (uartputc 8 (cons s))) else uartputc c (cons s))"
  have "cons_ok k" using assms by (simp add: k_def)
  then obtain k' where "cgaputc c k = Some k'" by (rule cgaputc_ok)
  moreover have "\<not> panicked (cons s)" using assms by (simp add: cons_ok_def)
  ultimately show ?thesis by (simp add: consputc_def kern_defs emit_def flip: k_def)
qed

lemma emits_simps [simp]: "emits [] k = k" "emits (c # cs) k = emits cs (emit (of_char c) k)"
  by (simp_all add: emits_def)

lemma emits_append [simp]: "emits (xs @ ys) k = emits ys (emits xs k)"
  by (simp add: emits_def)

lemma of_char_not_BACKSPACE [simp]: "of_char c \<noteq> BACKSPACE"
  using pos_mod_bound [of 256 "of_char c :: int"] by (simp add: BACKSPACE_def)

lemma emits_sel [simp]:
  assumes "cons_ok k"
  shows "cons_ok (emits str k)" "uart (emits str k) = uart k" "locking (emits str k) = locking k"
    "uart_sent (emits str k) = uart_sent k @ (if uart k then map of_char str else [])"
  using assms by (induction str arbitrary: k) (simp_all add: of_int_of_char)

lemma puts_Done: "cons_ok (cons s) \<Longrightarrow> puts str s = Done () (s\<lparr>cons := emits str (cons s)\<rparr>)"
  by (induction str arbitrary: s) (simp_all add: puts_def kern_defs consputc_Done)

subsection \<open>What cprintf prints\<close>

text \<open>The text a format and its arguments stand for; \<open>None\<close> when an argument is missing or of the
  wrong kind.\<close>

fun fmt_text :: "string \<Rightarrow> carg list \<Rightarrow> string option" where
  "fmt_text [] as = Some []"
| "fmt_text (c # fmt) as =
    (if c \<noteq> CHR ''%'' then map_option ((#) c) (fmt_text fmt as)
     else case fmt of
       [] \<Rightarrow> Some []
     | d # rest \<Rightarrow>
         if d = CHR ''d'' then (case as of
             Arg n # as \<Rightarrow> map_option ((@) (printint_chars console_digits n 10 True)) (fmt_text rest as)
           | _ \<Rightarrow> None)
         else if d = CHR ''x'' \<or> d = CHR ''p'' then (case as of
             Arg n # as \<Rightarrow> map_option ((@) (printint_chars console_digits n 16 False)) (fmt_text rest as)
           | _ \<Rightarrow> None)
         else if d = CHR ''s'' then (case as of
             Str t # as \<Rightarrow> map_option ((@) (case t of None \<Rightarrow> ''(null)'' | Some t \<Rightarrow> t)) (fmt_text rest as)
           | _ \<Rightarrow> None)
         else if d = CHR ''%'' then map_option ((#) CHR ''%'') (fmt_text rest as)
         else map_option (\<lambda>t. CHR ''%'' # d # t) (fmt_text rest as))"

lemma emit_percent: "emit 37 k = emits ''%'' k"
  by simp

lemma cprintf_loop_Done:
  assumes "fmt_text fmt as = Some str" "cons_ok (cons s)"
  shows "cprintf_loop fmt as s = Done () (s\<lparr>cons := emits str (cons s)\<rparr>)"
  using assms
proof (induction "length fmt" arbitrary: fmt as str s rule: less_induct)
  case less
  have IH: "cprintf_loop f as' t = Done () (t\<lparr>cons := emits str' (cons t)\<rparr>)"
    if "length f < length fmt" "fmt_text f as' = Some str'" "cons_ok (cons t)"
    for f as' str' and t :: "'a kcons_scheme"
    using that by (rule less.hyps)
  show ?case
  proof (cases fmt)
    case (Cons c fmt')
    show ?thesis
    proof (cases "c = CHR ''%''")
      case pc: True
      show ?thesis
      proof (cases fmt')
        case (Cons d rest)
        with \<open>fmt = c # fmt'\<close> have len: "length rest < length fmt" by simp
        note prems = less.prems \<open>fmt = c # fmt'\<close> pc Cons IH [OF len]
        show ?thesis
          by (cases "d = CHR ''d''"; cases "d = CHR ''x'' \<or> d = CHR ''p''"; cases "d = CHR ''s''";
              cases "d = CHR ''%''")
             (use prems in \<open>auto simp: kern_defs printint_def puts_Done consputc_Done
                split: list.splits carg.splits option.splits\<close>)
      qed (use less Cons pc in \<open>simp add: kern_defs\<close>)
    qed (use less.prems Cons IH [of fmt'] in \<open>auto simp: kern_defs consputc_Done\<close>)
  qed (use less in \<open>simp add: kern_defs\<close>)
qed

definition cons_ready :: "'x kcons_scheme \<Rightarrow> bool" where
  "cons_ready s \<longleftrightarrow> cpu_ok s \<and> cons_ok (cons s) \<and> (locking (cons s) \<longrightarrow> unlocked Lk_cons s)"

lemma cprintf_Done:
  assumes "cons_ready s" "fmt_text fmt as = Some str"
  shows "cprintf fmt as s = Done () ((tidy (locking (cons s)) s)\<lparr>cons := emits str (cons s)\<rparr>)"
proof (cases "locking (cons s)")
  case True
  moreover have "cprintf_loop fmt as (acquired Lk_cons s) =
      Done () ((acquired Lk_cons s)\<lparr>cons := emits str (cons s)\<rparr>)"
    using assms cprintf_loop_Done [of fmt as str "acquired Lk_cons s"] by (simp add: cons_ready_def)
  ultimately show ?thesis
    using assms
    by (simp add: cprintf_def kern_defs cons_ready_def acquire_Done release_Done released_acquired tidy_def)
next
  case False
  then show ?thesis
    using assms by (simp add: cprintf_def kern_defs cons_ready_def cprintf_loop_Done tidy_def)
qed

subsection \<open>Numbers\<close>

text \<open>Reading a numeral back: the value of a digit, of a digit string, and of an optional sign.\<close>

definition digit_val :: "string \<Rightarrow> char \<Rightarrow> nat" where
  "digit_val digits c = length (takeWhile (\<lambda>d. d \<noteq> c) digits)"

definition num_val :: "string \<Rightarrow> nat \<Rightarrow> string \<Rightarrow> nat" where
  "num_val digits b = foldl (\<lambda>a c. b * a + digit_val digits c) 0"

definition read_int :: "string \<Rightarrow> string \<Rightarrow> int" where
  "read_int digits str = (case str of CHR ''-'' # ds \<Rightarrow> - int (num_val digits 10 ds)
     | ds \<Rightarrow> int (num_val digits 10 ds))"

lemma digit_val_nth:
  assumes "distinct digits" "i < length digits"
  shows "digit_val digits (digits ! i) = i"
proof -
  have "takeWhile (\<lambda>d. d \<noteq> digits ! i) digits = take i digits"
    using assms by (intro takeWhile_eq_take_P_nth) (auto simp: nth_eq_iff_index_eq)
  then show ?thesis using assms by (simp add: digit_val_def)
qed

lemma num_val_snoc: "num_val digits b (ds @ [c]) = b * num_val digits b ds + digit_val digits c"
  by (simp add: num_val_def)

locale digit_table =
  fixes digits :: string and base :: uint
  assumes table: "distinct digits" "unat base \<le> length digits" "2 \<le> unat base"
begin

lemma div_base: "unat (x div base) = unat x div unat base" "unat (x mod base) = unat x mod unat base"
  by (simp_all add: unat_div unat_mod)

lemma loop_step:
  "digit_loop digits base x = digits ! (unat x mod unat base) #
     (if unat base \<le> unat x then digit_loop digits base (x div base) else [])"
proof -
  have "x div base \<noteq> 0 \<and> x div base < x \<longleftrightarrow> unat base \<le> unat x"
  proof -
    have "x div base \<noteq> 0 \<longleftrightarrow> unat x div unat base \<noteq> 0"
      by (simp add: unat_eq_zero [symmetric] div_base)
    moreover have "x div base < x \<longleftrightarrow> unat x div unat base < unat x"
      by (simp add: word_less_nat_alt div_base)
    ultimately show ?thesis
      using table(3) by (auto simp: div_eq_0_iff)
  qed
  then show ?thesis by (simp add: digit_loop.simps [of digits base x] div_base)
qed

lemma loop_val: "num_val digits (unat base) (rev (digit_loop digits base x)) = unat x"
proof (induction "unat x" arbitrary: x rule: less_induct)
  case less
  have d: "digit_val digits (digits ! (unat x mod unat base)) = unat x mod unat base"
    using table by (intro digit_val_nth) (auto intro: less_le_trans [OF mod_less_divisor])
  show ?case
  proof (cases "unat base \<le> unat x")
    case True
    then have "unat (x div base) < unat x" using table by (simp add: div_base)
    then have "num_val digits (unat base) (rev (digit_loop digits base (x div base))) = unat (x div base)"
      by (rule less)
    then show ?thesis using True d by (subst loop_step) (simp add: num_val_snoc div_base)
  next
    case False
    then show ?thesis using d by (subst loop_step) (simp add: num_val_def)
  qed
qed

lemma loop_length: "0 < k \<Longrightarrow> unat x < unat base ^ k \<Longrightarrow> length (digit_loop digits base x) \<le> k"
proof (induction k arbitrary: x)
  case (Suc k)
  show ?case
  proof (cases "unat base \<le> unat x")
    case True
    have "0 < k" using True Suc.prems by (cases k) auto
    moreover have "unat (x div base) < unat base ^ k"
      using Suc.prems table by (simp add: div_base div_less_iff_less_mult mult.commute)
    ultimately show ?thesis using True Suc.IH by (subst loop_step) simp
  qed (subst loop_step, simp)
qed simp

lemma loop_digits: "set (digit_loop digits base x) \<subseteq> set digits"
proof (induction "unat x" arbitrary: x rule: less_induct)
  case less
  have m: "unat x mod unat base < length digits"
    using table by (auto intro: less_le_trans [OF mod_less_divisor])
  have "unat (x div base) < unat x" if "unat base \<le> unat x" using that table by (simp add: div_base)
  then have "set (digit_loop digits base (x div base)) \<subseteq> set digits" if "unat base \<le> unat x"
    using that less by blast
  then show ?case using m by (subst loop_step) auto
qed

lemma loop_no_leading_zero: "x \<noteq> 0 \<Longrightarrow> last (digit_loop digits base x) \<noteq> digits ! 0"
proof (induction "unat x" arbitrary: x rule: less_induct)
  case less
  show ?case
  proof (cases "unat base \<le> unat x")
    case True
    then have "unat (x div base) < unat x" "x div base \<noteq> 0"
      using table by (simp_all add: div_base unat_eq_zero [symmetric] div_eq_0_iff)
    moreover have "digit_loop digits base (x div base) \<noteq> []" by (subst loop_step) simp
    ultimately show ?thesis using less True by (subst loop_step) simp
  next
    case False
    moreover have "digits ! unat x \<noteq> digits ! 0"
    proof -
      have "unat x < length digits" "0 < length digits" using False table by linarith+
      then show ?thesis
        using less.prems table(1) nth_eq_iff_index_eq [of digits "unat x" 0] by (simp add: unat_eq_zero)
    qed
    ultimately show ?thesis by (subst loop_step) simp
  qed
qed

end

interpretation dec: digit_table console_digits 10
  by unfold_locales (simp_all add: console_digits_def)

interpretation hex: digit_table console_digits 16
  by unfold_locales (simp_all add: console_digits_def)

lemma read_int_pos: "ds \<noteq> [] \<Longrightarrow> hd ds \<noteq> CHR ''-'' \<Longrightarrow> read_int digits ds = int (num_val digits 10 ds)"
  by (cases ds) (auto simp: read_int_def split: char.splits bool.splits)

lemma digit_loop_Nil [simp]: "digit_loop digits b x \<noteq> []"
  by (subst digit_loop.simps) simp

lemma dec_digit_not_minus: "c \<in> set (digit_loop console_digits 10 x) \<Longrightarrow> c \<noteq> CHR ''-''"
  using dec.loop_digits [of x] by (auto simp: console_digits_def)

subsection \<open>Properties\<close>

text \<open>
  C26. Every 32-bit integer printed with \<open>%d\<close>, the most negative one included, reads back as itself,
  without leading zeros; \<open>%x\<close> and \<open>%p\<close> print the word's value in base 16. At most 11 characters are
  produced, so the 16-byte buffer of printint never overflows.
\<close>

theorem printint_roundtrip:
  assumes "is_int32 n"
  shows "read_int console_digits (printint_chars console_digits n 10 True) = n \<and>
    length (printint_chars console_digits n 10 True) \<le> 11 \<and>
    (0 < n \<longrightarrow> hd (printint_chars console_digits n 10 True) \<noteq> CHR ''0'') \<and>
    int (num_val console_digits 16 (printint_chars console_digits n 16 False)) = n mod 2 ^ 32 \<and>
    length (printint_chars console_digits n 16 False) \<le> 8"
proof -
  define x where "x = (word_of_int (if n < 0 then - n else n) :: uint)"
  have x: "int (unat x) = \<bar>n\<bar>" using assms by (auto simp: x_def is_int32_def unat_eq_nat_uint uint_word_of_int)
  have p: "printint_chars console_digits n 10 True = (if n < 0 then ''-'' else []) @ rev (digit_loop console_digits 10 x)"
    by (simp add: printint_chars_def x_def)
  have val: "int (num_val console_digits 10 (rev (digit_loop console_digits 10 x))) = \<bar>n\<bar>"
    using dec.loop_val [of x] x by simp
  have hd: "hd (rev (digit_loop console_digits 10 x)) \<noteq> CHR ''-''"
    using dec_digit_not_minus [of "last (digit_loop console_digits 10 x)" x] by (simp add: hd_rev)
  have "length (digit_loop console_digits 10 x) \<le> 10"
    using dec.loop_length [of 10 x] unat_lt32 [of x] by simp
  moreover have "read_int console_digits (printint_chars console_digits n 10 True) = n"
    using val hd unfolding p by (cases "n < 0") (auto simp: read_int_pos, simp add: read_int_def)
  moreover have "hd (printint_chars console_digits n 10 True) \<noteq> CHR ''0''" if "0 < n"
  proof -
    have "x \<noteq> 0" using that x by auto
    then show ?thesis
      using that dec.loop_no_leading_zero [of x] unfolding p by (simp add: hd_rev) (simp add: console_digits_def)
  qed
  moreover have "int (num_val console_digits 16 (printint_chars console_digits n 16 False)) = n mod 2 ^ 32"
    using hex.loop_val [of "word_of_int n"]
    by (simp add: printint_chars_def unat_eq_nat_uint uint_word_of_int)
  moreover have "length (printint_chars console_digits n 16 False) \<le> 8"
    using hex.loop_length [of 8 "word_of_int n"] unat_lt32 [of "word_of_int n"]
    by (simp add: printint_chars_def)
  ultimately show ?thesis unfolding p by simp
qed

theorem printint_roundtrip_witness:
  "printint_chars console_digits (- 2147483648) 10 True = ''-2147483648'' \<and>
   read_int console_digits ''-2147483648'' = - 2147483648"
proof -
  have "printint_chars console_digits (- 2147483648) 10 True = ''-2147483648''"
    by (simp add: printint_chars_def digit_loop.simps console_digits_def)
  moreover have "is_int32 (- 2147483648)" by (simp add: is_int32_def)
  ultimately show ?thesis using printint_roundtrip [of "- 2147483648"] by simp
qed

text \<open>
  C27. cprintf always returns when the console is idle and the format matches its arguments: it sends
  exactly the formatted text to the serial port, the cursor stays on the screen (the overflow
  panic of cgaputc is unreachable), and locks and interrupt state are as before.
\<close>

theorem cprintf_prints:
  assumes "cons_ready s" "fmt_text fmt as = Some str" "uart (cons s)"
  shows "runs (cprintf fmt as) s (\<lambda>_ t. uart_sent (cons t) = uart_sent (cons s) @ map of_char str \<and>
    cons_ready t \<and> (\<forall>lk. unlocked lk t = unlocked lk s) \<and> depth t = depth s)"
  using assms by (auto simp: runs_Done cprintf_Done cons_ready_def)

definition idle_console :: kcons where
  "idle_console = kmach.extend one_page
     \<lparr>cons = \<lparr>locking = True, panicked = False, uart = True, uart_sent = [], crt = replicate 2000 0, crtpos = 0\<rparr>\<rparr>"

theorem cprintf_prints_witness:
  "runs (cprintf ''pid:%d %s%%'' [Arg 7, Str (Some ''sh'')]) idle_console
    (\<lambda>_ t. uart_sent (cons t) = map of_char ''pid:7 sh%'')"
proof -
  have fmt: "fmt_text ''pid:%d %s%%'' [Arg 7, Str (Some ''sh'')] = Some ''pid:7 sh%''"
    by (simp add: printint_chars_def digit_loop.simps console_digits_def)
  have ready: "cons_ready idle_console"
    by (simp add: cons_ready_def idle_console_def kmach.defs one_page_def cpu_ok_def cpu_idx_def
        first_index_def unlocked_def cons_ok_def)
  have u: "uart (cons idle_console)" "uart_sent (cons idle_console) = []"
    by (simp_all add: idle_console_def kmach.defs)
  show ?thesis
    by (rule runs_weaken [OF cprintf_prints [OF ready fmt u(1)]]) (simp add: u)
qed

end
