(* ===== verification/Vm.thy ===== *)
theory Vm
  imports Console
begin

text \<open>
  Page tables, \<^verbatim>\<open>src/vm.c\<close>, with the constants of \<^verbatim>\<open>src/mmu.h\<close> and \<^verbatim>\<open>src/memlayout.h\<close>. Page directories and page
  tables are pages of the machine's memory, read and written there entry by entry; a pointer to an entry is its
  address, 0 for null. What the hardware makes of them is \<open>translate\<close>: the address a virtual address stands
  for, seen through the kernel's own mapping of physical memory.

  The loops that step from page to page run over the list \<open>page_range\<close> of page addresses; the sizes they get are
  below \<^verbatim>\<open>KERNBASE\<close>, so the addresses do not wrap. \<^verbatim>\<open>loaduvm\<close> needs the file system and is in a later theory.
\<close>

subsection \<open>Constants\<close>

definition EXTMEM :: uint where "EXTMEM = 0x100000"
definition DEVSPACE :: uint where "DEVSPACE = 0xFE000000"
definition KERNLINK :: uint where "KERNLINK = KERNBASE + EXTMEM"

definition NPDENTRIES :: nat where "NPDENTRIES = 1024"
definition PTXSHIFT :: nat where "PTXSHIFT = 12"
definition PDXSHIFT :: nat where "PDXSHIFT = 22"

definition PDX :: "uint \<Rightarrow> uint" where "PDX va = drop_bit PDXSHIFT va AND 0x3FF"
definition PTX :: "uint \<Rightarrow> uint" where "PTX va = drop_bit PTXSHIFT va AND 0x3FF"

definition PGADDR :: "uint \<Rightarrow> uint \<Rightarrow> uint \<Rightarrow> uint" where
  "PGADDR d t off = push_bit PDXSHIFT d OR push_bit PTXSHIFT t OR off"

definition PTE_P :: uint where "PTE_P = 1"
definition PTE_W :: uint where "PTE_W = 2"
definition PTE_U :: uint where "PTE_U = 4"

definition PTE_ADDR :: "uint \<Rightarrow> uint" where "PTE_ADDR pte = pte AND NOT 0xFFF"
definition PTE_FLAGS :: "uint \<Rightarrow> uint" where "PTE_FLAGS pte = pte AND 0xFFF"

abbreviation present :: "uint \<Rightarrow> bool" where "present pte \<equiv> pte AND PTE_P \<noteq> 0"

abbreviation peek32 :: "uint \<Rightarrow> ('x kmach_scheme, uint) kern" where
  "peek32 a \<equiv> gets (\<lambda>s. load32 (ram s) a)"

abbreviation poke32 :: "uint \<Rightarrow> uint \<Rightarrow> ('x kmach_scheme, unit) kern" where
  "poke32 a v \<equiv> modify (\<lambda>s. s\<lparr>ram := store32 a v (ram s)\<rparr>)"

abbreviation clear_page :: "uint \<Rightarrow> ('x kmach_scheme, unit) kern" where
  "clear_page a \<equiv> modify (\<lambda>s. s\<lparr>ram := memset a 0 PGSIZE (ram s)\<rparr>)"

text \<open>The page addresses from \<open>a\<close> on that are below \<open>b\<close>.\<close>

definition page_range :: "uint \<Rightarrow> uint \<Rightarrow> uint list" where
  "page_range a b = map (\<lambda>k. a + of_nat k * PGSIZE) [0..<(unat b - unat a + 4095) div 4096]"

subsection \<open>Page tables\<close>

definition walkpgdir :: "uint \<Rightarrow> uint \<Rightarrow> bool \<Rightarrow> ('x kmach_scheme, uint) kern" where
  "walkpgdir pgdir va alloc = (let pde = pgdir + 4 * PDX va in
     bnd (peek32 pde) (\<lambda>e.
       if present e then ret (P2V (PTE_ADDR e) + 4 * PTX va)
       else if \<not> alloc then ret 0
       else bnd kalloc (\<lambda>pgtab.
         if pgtab = 0 then ret 0
         else sq (clear_page pgtab) (
           sq (poke32 pde (V2P pgtab OR PTE_P OR PTE_W OR PTE_U))
              (ret (pgtab + 4 * PTX va))))))"

text \<open>The endless loop of \<^verbatim>\<open>mappages\<close>: \<open>k\<close> is the number of pages from \<open>a\<close> to the last one.\<close>

primrec mappages_loop :: "uint \<Rightarrow> nat \<Rightarrow> uint \<Rightarrow> uint \<Rightarrow> uint \<Rightarrow> ('x kmach_scheme, int) kern" where
  "mappages_loop pgdir 0 a pa perm = bnd (walkpgdir pgdir a True) (\<lambda>pte.
     if pte = 0 then ret (-1)
     else bnd (peek32 pte) (\<lambda>e.
       if present e then panic ''remap''
       else sq (poke32 pte (pa OR perm OR PTE_P)) (ret 0)))"
| "mappages_loop pgdir (Suc k) a pa perm = bnd (walkpgdir pgdir a True) (\<lambda>pte.
     if pte = 0 then ret (-1)
     else bnd (peek32 pte) (\<lambda>e.
       if present e then panic ''remap''
       else sq (poke32 pte (pa OR perm OR PTE_P))
         (mappages_loop pgdir k (a + PGSIZE) (pa + PGSIZE) perm)))"

definition mappages :: "uint \<Rightarrow> uint \<Rightarrow> uint \<Rightarrow> uint \<Rightarrow> uint \<Rightarrow> ('x kmach_scheme, int) kern" where
  "mappages pgdir va size' pa perm =
    (let a = PGROUNDDOWN va; lst = PGROUNDDOWN (va + size' - 1) in
     mappages_loop pgdir (unat (lst - a) div unat PGSIZE) a pa perm)"

text \<open>The loop of \<^verbatim>\<open>deallocuvm\<close>. A directory entry that is not present lets it skip the 4 MB of that entry. The test
  \<open>a < a'\<close> fails only past the end of the address space.\<close>

function deallocuvm_loop :: "uint \<Rightarrow> uint \<Rightarrow> uint \<Rightarrow> ('x kmach_scheme, unit) kern" where
  "deallocuvm_loop pgdir oldsz a = (if a < oldsz then
     bnd (walkpgdir pgdir a False) (\<lambda>pte.
       if pte = 0 then
         (let a' = PGADDR (PDX a + 1) 0 0 - PGSIZE + PGSIZE in
          if a < a' then deallocuvm_loop pgdir oldsz a' else undef ''address wraps'')
       else bnd (peek32 pte) (\<lambda>e.
         sq (whenM (present e)
              (if PTE_ADDR e = 0 then panic ''kfree''
               else sq (kfree (P2V (PTE_ADDR e))) (poke32 pte 0)))
            (if a < a + PGSIZE then deallocuvm_loop pgdir oldsz (a + PGSIZE) else undef ''address wraps'')))
     else ret ())"
  by pat_completeness auto
termination
  by (relation "measure (\<lambda>(_, _, a). 2 ^ 32 - unat a)")
     (auto simp: word_less_nat_alt intro!: diff_less_mono2 unat_lt32 [simplified])

declare deallocuvm_loop.simps [simp del]

definition deallocuvm :: "uint \<Rightarrow> uint \<Rightarrow> uint \<Rightarrow> ('x kmach_scheme, uint) kern" where
  "deallocuvm pgdir oldsz newsz = (if newsz \<ge> oldsz then ret oldsz
     else sq (deallocuvm_loop pgdir oldsz (PGROUNDUP newsz)) (ret newsz))"

definition freevm :: "uint \<Rightarrow> ('x kmach_scheme, unit) kern" where
  "freevm pgdir = (if pgdir = 0 then panic ''freevm: no pgdir''
     else sq (deallocuvm pgdir KERNBASE 0) (
       sq (for_each [0..<NPDENTRIES] (\<lambda>i. bnd (peek32 (pgdir + 4 * of_nat i)) (\<lambda>e.
            whenM (present e) (kfree (P2V (PTE_ADDR e)))))) (
       kfree pgdir)))"

text \<open>The table \<^verbatim>\<open>kmap\<close>: virtual start, physical start and end, permissions.\<close>

definition kmap :: "uint \<Rightarrow> (uint \<times> uint \<times> uint \<times> uint) list" where
  "kmap dat = [(KERNBASE, 0, EXTMEM, PTE_W), (KERNLINK, V2P KERNLINK, V2P dat, 0),
     (dat, V2P dat, PHYSTOP, PTE_W), (DEVSPACE, DEVSPACE, 0, PTE_W)]"

primrec setupkvm_loop :: "uint \<Rightarrow> (uint \<times> uint \<times> uint \<times> uint) list \<Rightarrow> ('x kmach_scheme, uint) kern" where
  "setupkvm_loop pgdir [] = ret pgdir"
| "setupkvm_loop pgdir (k # ks) = (case k of (virt, phys_start, phys_end, perm) \<Rightarrow>
     bnd (mappages pgdir virt (phys_end - phys_start) phys_start perm) (\<lambda>r.
       if r < 0 then sq (freevm pgdir) (ret 0) else setupkvm_loop pgdir ks))"

definition setupkvm :: "('x kmach_scheme, uint) kern" where
  "setupkvm = bnd kalloc (\<lambda>pgdir.
     if pgdir = 0 then ret 0
     else sq (clear_page pgdir) (
       if P2V PHYSTOP > DEVSPACE then panic ''PHYSTOP too high''
       else bnd (gets kdata) (\<lambda>dat. setupkvm_loop pgdir (kmap dat))))"

definition store_bytes :: "uint \<Rightarrow> uchar list \<Rightarrow> mem \<Rightarrow> mem" where
  "store_bytes a bs m = (\<lambda>x. if unat (x - a) < length bs then bs ! unat (x - a) else m x)"

definition inituvm :: "uint \<Rightarrow> uchar list \<Rightarrow> ('x kmach_scheme, unit) kern" where
  "inituvm pgdir init = (if length init \<ge> unat PGSIZE then panic ''inituvm: more than a page''
     else bnd kalloc (\<lambda>p.
       if p = 0 then undef ''null page''
       else sq (clear_page p) (
         sq (mappages pgdir 0 PGSIZE (V2P p) (PTE_W OR PTE_U))
            (modify (\<lambda>s. s\<lparr>ram := store_bytes p init (ram s)\<rparr>)))))"

primrec allocuvm_loop :: "uint \<Rightarrow> uint \<Rightarrow> uint \<Rightarrow> uint list \<Rightarrow> ('x kcons_scheme, uint) kern" where
  "allocuvm_loop pgdir oldsz newsz [] = ret newsz"
| "allocuvm_loop pgdir oldsz newsz (a # as) = bnd kalloc (\<lambda>p.
     if p = 0 then
       sq (cprintf (''allocuvm out of memory'' @ [CHR 0x0A]) []) (
       sq (deallocuvm pgdir newsz oldsz) (ret 0))
     else sq (clear_page p) (
       bnd (mappages pgdir a PGSIZE (V2P p) (PTE_W OR PTE_U)) (\<lambda>r.
       if r < 0 then
         sq (cprintf (''allocuvm out of memory (2)'' @ [CHR 0x0A]) []) (
         sq (deallocuvm pgdir newsz oldsz) (
         sq (kfree p) (ret 0)))
       else allocuvm_loop pgdir oldsz newsz as)))"

definition allocuvm :: "uint \<Rightarrow> uint \<Rightarrow> uint \<Rightarrow> ('x kcons_scheme, uint) kern" where
  "allocuvm pgdir oldsz newsz = (if newsz \<ge> KERNBASE then ret 0
     else if newsz < oldsz then ret oldsz
     else allocuvm_loop pgdir oldsz newsz (page_range (PGROUNDUP oldsz) newsz))"

definition clearpteu :: "uint \<Rightarrow> uint \<Rightarrow> ('x kmach_scheme, unit) kern" where
  "clearpteu pgdir uva = bnd (walkpgdir pgdir uva False) (\<lambda>pte.
     if pte = 0 then panic ''clearpteu''
     else bnd (peek32 pte) (\<lambda>e. poke32 pte (e AND NOT PTE_U)))"

primrec copyuvm_loop :: "uint \<Rightarrow> uint \<Rightarrow> uint list \<Rightarrow> ('x kmach_scheme, uint) kern" where
  "copyuvm_loop pgdir d [] = ret d"
| "copyuvm_loop pgdir d (i # is) = bnd (walkpgdir pgdir i False) (\<lambda>pte.
     if pte = 0 then panic ''copyuvm: pte should exist''
     else bnd (peek32 pte) (\<lambda>e.
       if \<not> present e then panic ''copyuvm: page not present''
       else bnd kalloc (\<lambda>p.
         if p = 0 then sq (freevm d) (ret 0)
         else sq (modify (\<lambda>s. s\<lparr>ram := memmove p (P2V (PTE_ADDR e)) PGSIZE (ram s)\<rparr>)) (
           bnd (mappages d i PGSIZE (V2P p) (PTE_FLAGS e)) (\<lambda>r.
           if r < 0 then sq (kfree p) (sq (freevm d) (ret 0))
           else copyuvm_loop pgdir d is)))))"

definition copyuvm :: "uint \<Rightarrow> uint \<Rightarrow> ('x kmach_scheme, uint) kern" where
  "copyuvm pgdir size' = bnd setupkvm (\<lambda>d. if d = 0 then ret 0 else copyuvm_loop pgdir d (page_range 0 size'))"

text \<open>\<^verbatim>\<open>uva2ka\<close> reads through the result of \<^verbatim>\<open>walkpgdir\<close> without a test for null.\<close>

definition uva2ka :: "uint \<Rightarrow> uint \<Rightarrow> ('x kmach_scheme, uint) kern" where
  "uva2ka pgdir uva = bnd (walkpgdir pgdir uva False) (\<lambda>pte.
     if pte = 0 then undef ''null page table entry''
     else bnd (peek32 pte) (\<lambda>e.
       if e AND PTE_P = 0 then ret 0
       else if e AND PTE_U = 0 then ret 0
       else ret (P2V (PTE_ADDR e))))"

lemma page_offset: "va - PGROUNDDOWN va = va AND 0xFFF" "unat (va - PGROUNDDOWN va) < 4096"
proof -
  have "(va AND 0xFFF) + (va AND NOT 0xFFF) = va"
    by (subst disjunctive_add) (auto simp: bit_simps intro!: bit_word_eqI)
  then have "(va AND 0xFFF) + PGROUNDDOWN va = va" by (simp add: PGROUNDDOWN_def PGSIZE_def)
  then show e: "va - PGROUNDDOWN va = va AND 0xFFF" by (metis add_diff_cancel_right')
  have "va AND 0xFFF \<le> 0xFFF" by (rule word_and_le1)
  then show "unat (va - PGROUNDDOWN va) < 4096" by (simp add: e word_le_nat_alt)
qed

text \<open>The loop of \<^verbatim>\<open>copyout\<close> over the bytes still to copy.\<close>

function copyout :: "uint \<Rightarrow> uint \<Rightarrow> uchar list \<Rightarrow> ('x kmach_scheme, int) kern" where
  "copyout pgdir va bs = (if bs = [] then ret 0 else
     (let va0 = PGROUNDDOWN va in
      bnd (uva2ka pgdir va0) (\<lambda>pa0.
      if pa0 = 0 then ret (-1)
      else let n = min (4096 - unat (va - va0)) (length bs) in
        sq (modify (\<lambda>s. s\<lparr>ram := store_bytes (pa0 + (va - va0)) (take n bs) (ram s)\<rparr>))
           (copyout pgdir (va0 + PGSIZE) (drop n bs)))))"
  by pat_completeness auto
termination
  by (relation "measure (\<lambda>(_, _, bs). length bs)") (use page_offset(2) in \<open>auto simp: Let_def intro!: diff_less\<close>)

declare copyout.simps [simp del]

subsection \<open>The hardware\<close>

text \<open>The entry for \<open>va\<close> in the page table with directory \<open>pgdir\<close> (0 for none), and the kernel address of the byte
  \<open>va\<close> stands for.\<close>

definition pte_of :: "mem \<Rightarrow> uint \<Rightarrow> uint \<Rightarrow> uint" where
  "pte_of m pgdir va = (let e = load32 m (pgdir + 4 * PDX va) in
     if present e then load32 m (P2V (PTE_ADDR e) + 4 * PTX va) else 0)"

definition translate :: "mem \<Rightarrow> uint \<Rightarrow> uint \<Rightarrow> uint option" where
  "translate m pgdir va = (let e = pte_of m pgdir va in
     if present e then Some (P2V (PTE_ADDR e) + (va AND 0xFFF)) else None)"

end
