(* ===== verification/Proc.thy ===== *)
theory Proc
  imports Console
begin

text \<open>
  The process table: \<^verbatim>\<open>src/proc.c\<close> and \<^verbatim>\<open>src/proc.h\<close> without the parts that need virtual
  memory and the file system. This theory holds the structs, the allocation of a process slot,
  \<^verbatim>\<open>sleep\<close>, \<^verbatim>\<open>wakeup\<close>, \<^verbatim>\<open>sched\<close>, \<^verbatim>\<open>yield\<close>, \<^verbatim>\<open>kill\<close>, \<^verbatim>\<open>gtcid\<close> and \<^verbatim>\<open>procdump\<close>; the container
  operations and the scheduler have their own theories.

  A pointer to a process is the index of its slot, a null pointer is \<open>None\<close>. A process that gives
  up the processor ends in the outcome \<open>Switches\<close>; what it does when it is scheduled again is a
  separate definition (\<open>sleep_resume\<close>, \<open>yield_resume\<close>).
\<close>

subsection \<open>State\<close>

datatype procstate = UNUSED | EMBRYO | SLEEPING | RUNNABLE | RUNNING | ZOMBIE

datatype containerState = CRUNNING | CWAITING | CUNUSED

definition NPROC :: nat where "NPROC = 64"
definition KSTACKSIZE :: uint where "KSTACKSIZE = 4096"
definition NCONT :: nat where "NCONT = 20"
definition NOFILE :: nat where "NOFILE = 16"
definition NPAGE :: nat where "NPAGE = 100"

text \<open>\<^verbatim>\<open>struct proc\<close>. The process name is kept as the characters before its terminating zero; open
  files and the current directory are indices into the file table and the inode cache.\<close>

record proc =
  sz :: uint
  pgdir :: uint
  kstack :: uint
  pstate :: procstate
  pid :: int
  parent :: "nat option"
  containerID :: int
  tf :: uint              \<comment> \<open>address of the trap frame\<close>
  pcontext :: uint        \<comment> \<open>address of the saved context\<close>
  pchan :: "chan option"
  killed :: bool
  ofile :: "nat option list"
  cwd :: "nat option"
  pname :: string

record ptab =
  procs :: "proc list"
  nextpid :: int
  initproc :: "nat option"
  sym_forkret :: uint     \<comment> \<open>address of forkret\<close>
  sym_trapret :: uint     \<comment> \<open>address of trapret\<close>

record pgElement =
  GVA :: int
  HVA :: uint
  pg_pid :: int

record pgTable =
  page :: "pgElement list"
  pg_next :: int

record container =
  con_id :: int
  con_state :: containerState
  nextGVA :: int
  pgTable :: pgTable
  nextprocId :: int

text \<open>The container table and the globals \<^verbatim>\<open>containers\<close>, \<^verbatim>\<open>schedulerLog\<close> and \<^verbatim>\<open>memoryLog\<close> of
  \<^verbatim>\<open>src/syscall.c\<close>.\<close>

record ctab =
  container :: "container list"
  containers :: "int list"
  schedulerLog :: int
  memoryLog :: int

record kproc = kcons +
  ptable :: ptab
  ctable :: ctab

interpretation ptable_field: component_field ptable ptable_update
  by unfold_locales simp_all

interpretation ctable_field: component_field ctable ctable_update
  by unfold_locales simp_all

abbreviation proc_at :: "nat \<Rightarrow> 'x kproc_scheme \<Rightarrow> proc" where
  "proc_at i s \<equiv> procs (ptable s) ! i"

definition upd_proc :: "nat \<Rightarrow> (proc \<Rightarrow> proc) \<Rightarrow> 'x kproc_scheme \<Rightarrow> 'x kproc_scheme" where
  "upd_proc i f s = s\<lparr>ptable := (ptable s)\<lparr>procs := (procs (ptable s))[i := f (procs (ptable s) ! i)]\<rparr>\<rparr>"

subsection \<open>Operations\<close>

definition pinit :: "('x kproc_scheme, unit) kern" where
  "pinit = initlock Lk_ptable ''ptable''"

definition cpuid :: "('x kproc_scheme, nat) kern" where
  "cpuid = mycpu"

definition myproc :: "('x kproc_scheme, nat option) kern" where
  "myproc = sq pushcli (bnd mycpu (\<lambda>c.
     bnd (gets (\<lambda>s. cpu_proc (cpus s ! c))) (\<lambda>p. sq popcli (ret p))))"

text \<open>\<^verbatim>\<open>myproc()->field\<close>: undefined when there is no current process.\<close>

definition curproc :: "('x kproc_scheme, nat) kern" where
  "curproc = bnd myproc (\<lambda>r. case r of None \<Rightarrow> undef ''null process'' | Some p \<Rightarrow> ret p)"

definition sizeof_trapframe :: uint where "sizeof_trapframe = 76"
definition sizeof_context :: uint where "sizeof_context = 20"
definition off_eip :: uint where "off_eip = 16"      \<comment> \<open>eip in struct context\<close>
definition off_ebp :: uint where "off_ebp = 12"      \<comment> \<open>ebp in struct context\<close>

definition allocproc :: "('x kproc_scheme, nat option) kern" where
  "allocproc = sq (acquire Lk_ptable) (
     bnd (gets (\<lambda>s. first_index (\<lambda>p. pstate p = UNUSED) (procs (ptable s)))) (\<lambda>r. case r of
       None \<Rightarrow> sq (release Lk_ptable) (ret None)
     | Some i \<Rightarrow>
         sq (modify (upd_proc i (\<lambda>p. p\<lparr>pstate := EMBRYO\<rparr>))) (
         sq (modify (\<lambda>s. upd_proc i (\<lambda>p. p\<lparr>pid := nextpid (ptable s)\<rparr>) s)) (
         sq (modify (\<lambda>s. s\<lparr>ptable := (ptable s)\<lparr>nextpid := int32 (nextpid (ptable s) + 1)\<rparr>\<rparr>)) (
         sq (modify (upd_proc i (\<lambda>p. p\<lparr>containerID := 0\<rparr>))) (
         sq (release Lk_ptable) (
         bnd kalloc (\<lambda>k.
         sq (modify (upd_proc i (\<lambda>p. p\<lparr>kstack := k\<rparr>))) (
         if k = 0 then sq (modify (upd_proc i (\<lambda>p. p\<lparr>pstate := UNUSED\<rparr>))) (ret None)
         else
           let sp = k + KSTACKSIZE - sizeof_trapframe; sp' = sp - 4; sp'' = sp' - sizeof_context in
           sq (modify (upd_proc i (\<lambda>p. p\<lparr>tf := sp\<rparr>))) (
           sq (modify (\<lambda>s. s\<lparr>ram := store32 sp' (sym_trapret (ptable s)) (ram s)\<rparr>)) (
           sq (modify (upd_proc i (\<lambda>p. p\<lparr>pcontext := sp''\<rparr>))) (
           sq (modify (\<lambda>s. s\<lparr>ram := memset sp'' 0 sizeof_context (ram s)\<rparr>)) (
           sq (modify (\<lambda>s. s\<lparr>ram := store32 (sp'' + off_eip) (sym_forkret (ptable s)) (ram s)\<rparr>))
              (ret (Some i)))))))))))))))"

text \<open>\<^verbatim>\<open>gtcid\<close>: when no slot has the pid, the source reads one past the table.\<close>

definition gtcid :: "('x kproc_scheme, int) kern" where
  "gtcid = bnd curproc (\<lambda>c. bnd (gets (\<lambda>s. pid (proc_at c s))) (\<lambda>pd.
     bnd (gets (\<lambda>s. first_index (\<lambda>p. pid p = pd) (procs (ptable s)))) (\<lambda>r. case r of
       None \<Rightarrow> undef ''read past the process table''
     | Some i \<Rightarrow> gets (\<lambda>s. containerID (proc_at i s)))))"

text \<open>\<^verbatim>\<open>sched\<close> up to the context switch, and what remains after it: the saved \<^verbatim>\<open>intena\<close> is restored.\<close>

definition sched :: "('x kproc_scheme, 'a) kern" where
  "sched = bnd curproc (\<lambda>p. bnd (holding Lk_ptable) (\<lambda>h.
     if \<not> h then panic ''sched ptable.lock''
     else bnd mycpu (\<lambda>c. bnd (gets (\<lambda>s. ncli (cpus s ! c))) (\<lambda>n.
       if n \<noteq> 1 then panic ''sched locks''
       else bnd (gets (\<lambda>s. pstate (proc_at p s))) (\<lambda>st.
         if st = RUNNING then panic ''sched running''
         else bnd (gets hw_if) (\<lambda>f.
           if f then panic ''sched interruptible'' else (\<lambda>s. Switches s)))))))"

definition sched_resume :: "bool \<Rightarrow> ('x kproc_scheme, unit) kern" where
  "sched_resume ie = bnd mycpu (\<lambda>c. modify (upd_cpu c (\<lambda>k. k\<lparr>intena := ie\<rparr>)))"

definition yield :: "('x kproc_scheme, unit) kern" where
  "yield = sq (acquire Lk_ptable) (bnd curproc (\<lambda>p.
     sq (modify (upd_proc p (\<lambda>q. q\<lparr>pstate := RUNNABLE\<rparr>))) sched))"

definition yield_resume :: "bool \<Rightarrow> ('x kproc_scheme, unit) kern" where
  "yield_resume ie = sq (sched_resume ie) (release Lk_ptable)"

definition sleep :: "chan \<Rightarrow> lockid \<Rightarrow> ('x kproc_scheme, 'a) kern" where
  "sleep ch lk = bnd myproc (\<lambda>r. case r of
     None \<Rightarrow> panic ''sleep''
   | Some p \<Rightarrow>
       sq (whenM (lk \<noteq> Lk_ptable) (sq (acquire Lk_ptable) (release lk))) (
       sq (modify (upd_proc p (\<lambda>q. q\<lparr>pchan := Some ch\<rparr>))) (
       sq (modify (upd_proc p (\<lambda>q. q\<lparr>pstate := SLEEPING\<rparr>))) sched)))"

definition sleep_resume :: "nat \<Rightarrow> bool \<Rightarrow> lockid \<Rightarrow> ('x kproc_scheme, unit) kern" where
  "sleep_resume p ie lk = sq (sched_resume ie) (
     sq (modify (upd_proc p (\<lambda>q. q\<lparr>pchan := None\<rparr>)))
        (whenM (lk \<noteq> Lk_ptable) (sq (release Lk_ptable) (acquire lk))))"

definition wakeup1 :: "chan \<Rightarrow> ('x kproc_scheme, unit) kern" where
  "wakeup1 ch = for_each [0..<NPROC] (\<lambda>i. bnd (gets (proc_at i)) (\<lambda>p.
     whenM (pstate p = SLEEPING \<and> pchan p = Some ch)
       (modify (upd_proc i (\<lambda>q. q\<lparr>pstate := RUNNABLE\<rparr>)))))"

definition wakeup :: "chan \<Rightarrow> ('x kproc_scheme, unit) kern" where
  "wakeup ch = sq (acquire Lk_ptable) (sq (wakeup1 ch) (release Lk_ptable))"

definition kill :: "int \<Rightarrow> ('x kproc_scheme, int) kern" where
  "kill pd = sq (acquire Lk_ptable) (
     bnd (gets (\<lambda>s. first_index (\<lambda>p. pid p = pd) (procs (ptable s)))) (\<lambda>r. case r of
       None \<Rightarrow> sq (release Lk_ptable) (ret (-1))
     | Some i \<Rightarrow>
         sq (modify (upd_proc i (\<lambda>p. p\<lparr>killed := True, containerID := 0\<rparr>))) (
         sq (bnd (gets (proc_at i)) (\<lambda>p.
              whenM (pstate p = SLEEPING) (modify (upd_proc i (\<lambda>p. p\<lparr>pstate := RUNNABLE\<rparr>))))) (
         sq (release Lk_ptable) (ret 0)))))"

text \<open>\<^verbatim>\<open>getcallerpcs\<close> of \<^verbatim>\<open>src/spinlock.c\<close>: the return addresses found by following saved frame
  pointers, zeros after the last one.\<close>

primrec pcs_loop :: "nat \<Rightarrow> uint \<Rightarrow> mem \<Rightarrow> uint list" where
  "pcs_loop 0 ebp m = []"
| "pcs_loop (Suc n) ebp m =
    (if ebp = 0 \<or> ebp < KERNBASE \<or> ebp = 0xffffffff then replicate (Suc n) 0
     else load32 m (ebp + 4) # pcs_loop n (load32 m ebp) m)"

definition getcallerpcs :: "uint \<Rightarrow> mem \<Rightarrow> uint list" where
  "getcallerpcs v m = pcs_loop 10 (v - 8) m"

fun state_text :: "procstate \<Rightarrow> string" where
  "state_text UNUSED = ''unused''"
| "state_text EMBRYO = ''embryo''"
| "state_text SLEEPING = ''sleep ''"
| "state_text RUNNABLE = ''runble''"
| "state_text RUNNING = ''run   ''"
| "state_text ZOMBIE = ''zombie''"

definition procdump :: "('x kproc_scheme, unit) kern" where
  "procdump = for_each [0..<NPROC] (\<lambda>i. bnd (gets (proc_at i)) (\<lambda>p.
     whenM (pstate p \<noteq> UNUSED) (
       sq (cprintf ''%d %s %s'' [Arg (pid p), Str (Some (state_text (pstate p))), Str (Some (pname p))]) (
       sq (whenM (pstate p = SLEEPING) (
             bnd (gets (\<lambda>s. getcallerpcs (load32 (ram s) (pcontext p + off_ebp) + 8) (ram s))) (\<lambda>pcs.
             for_each (takeWhile (\<lambda>pc. pc \<noteq> 0) pcs) (\<lambda>pc. cprintf '' %p'' [Arg (uint pc)]))))
          (cprintf [CHR 0x0A] [])))))"

subsection \<open>Moving slot updates around\<close>

text \<open>An update of the whole table, and its frame rules.\<close>

definition upd_procs :: "(proc list \<Rightarrow> proc list) \<Rightarrow> 'x kproc_scheme \<Rightarrow> 'x kproc_scheme" where
  "upd_procs f s = s\<lparr>ptable := (ptable s)\<lparr>procs := f (procs (ptable s))\<rparr>\<rparr>"

lemma upd_proc_procs: "upd_proc i f = upd_procs (\<lambda>ps. ps[i := f (ps ! i)])"
  by (simp add: upd_proc_def upd_procs_def fun_eq_iff)

lemma upd_procs_sel [simp]:
  "procs (ptable (upd_procs f s)) = f (procs (ptable s))"
  "nextpid (ptable (upd_procs f s)) = nextpid (ptable s)"
  "initproc (ptable (upd_procs f s)) = initproc (ptable s)"
  "sym_forkret (ptable (upd_procs f s)) = sym_forkret (ptable s)"
  "sym_trapret (ptable (upd_procs f s)) = sym_trapret (ptable s)"
  "ctable (upd_procs f s) = ctable s" "cons (upd_procs f s) = cons s"
  "kmem (upd_procs f s) = kmem s" "ram (upd_procs f s) = ram s" "kend (upd_procs f s) = kend s"
  "cpus (upd_procs f s) = cpus s" "hw_if (upd_procs f s) = hw_if s" "locks (upd_procs f s) = locks s"
  by (simp_all add: upd_procs_def)

lemma upd_procs_frame [simp]:
  "cpu_ok (upd_procs f s) = cpu_ok s" "me (upd_procs f s) = me s" "depth (upd_procs f s) = depth s"
  "held lk (upd_procs f s) = held lk s" "unlocked lk (upd_procs f s) = unlocked lk s"
  "cpu_idx (upd_procs f s) = cpu_idx s"
  "acquired lk (upd_procs f s) = upd_procs f (acquired lk s)"
  "released lk (upd_procs f s) = upd_procs f (released lk s)"
  "settled (upd_procs f s) = upd_procs f (settled s)"
  by (simp_all add: upd_procs_def)

lemma upd_procs_upd_procs: "upd_procs f (upd_procs g s) = upd_procs (\<lambda>ps. f (g ps)) s"
  by (simp add: upd_procs_def)

lemma upd_procs_cong: "f (procs (ptable s)) = g (procs (ptable s)) \<Longrightarrow> upd_procs f s = upd_procs g s"
  by (simp add: upd_procs_def)

lemma upd_procs_id: "f (procs (ptable s)) = procs (ptable s) \<Longrightarrow> upd_procs f s = s"
  by (simp add: upd_procs_def)

lemma upd_proc_twice:
  "i < length (procs (ptable s)) \<Longrightarrow> upd_proc i f (upd_proc i g s) = upd_proc i (\<lambda>p. f (g p)) s"
  by (simp add: upd_proc_procs upd_procs_upd_procs) (rule upd_procs_cong, simp)

lemma upd_proc_id: "f (proc_at i s) = proc_at i s \<Longrightarrow> upd_proc i f s = s"
  by (simp add: upd_proc_procs upd_procs_id)

lemma ptable_tidy [simp]: "ptable (tidy b s) = ptable s" "ctable (tidy b s) = ctable s" "cons (tidy b s) = cons s"
  by (simp_all add: tidy_def)

text \<open>A loop that updates each slot on its own is a map over the table.\<close>

lemma for_each_slots_inv:
  assumes step: "\<And>i t. i < n \<Longrightarrow> length (procs (ptable t)) = n \<Longrightarrow> I t \<Longrightarrow>
      f i t = Done () (upd_proc i g t) \<and> I (upd_proc i g t)"
    and len: "length (procs (ptable s)) = n" and init: "I s"
  shows "for_each [0..<n] f s = Done () (upd_procs (map g) s)"
proof -
  have "for_each [k..<n] f s = Done () (upd_procs (\<lambda>ps. take k ps @ map g (drop k ps)) s)"
    if "k \<le> n" "length (procs (ptable s)) = n" "I s" for k and s :: "'a kproc_scheme"
    using that
  proof (induction k arbitrary: s rule: inc_induct)
    case base
    then show ?case by (simp add: ret_def upd_procs_id)
  next
    case (step k)
    have "f k s = Done () (upd_proc k g s)" "I (upd_proc k g s)" using step assms(1) by simp_all
    moreover have "for_each [Suc k..<n] f (upd_proc k g s) =
        Done () (upd_procs (\<lambda>ps. take (Suc k) ps @ map g (drop (Suc k) ps)) (upd_proc k g s))"
      using step calculation(2) by (intro step.IH) (simp_all add: upd_proc_procs)
    moreover have "upd_procs (\<lambda>ps. take (Suc k) ps @ map g (drop (Suc k) ps)) (upd_proc k g s) =
        upd_procs (\<lambda>ps. take k ps @ map g (drop k ps)) s"
      using step.prems step.hyps
      by (simp add: upd_proc_procs upd_procs_upd_procs)
         (rule upd_procs_cong, simp add: take_Suc_conv_app_nth Cons_nth_drop_Suc [symmetric])
    ultimately show ?case using step by (simp add: upt_conv_Cons kern_defs)
  qed
  from this [of 0 s] len init show ?thesis by simp
qed

lemma for_each_slots:
  assumes "\<And>i t. i < n \<Longrightarrow> length (procs (ptable t)) = n \<Longrightarrow> f i t = Done () (upd_proc i g t)"
    "length (procs (ptable s)) = n"
  shows "for_each [0..<n] f s = Done () (upd_procs (map g) s)"
  using assms by (intro for_each_slots_inv [where I = "\<lambda>_. True"]) auto

subsection \<open>The current process\<close>

lemma cur_upd_procs [simp]: "cur (upd_procs f s) = cur s"
  by (simp add: upd_procs_def)

lemma cur_tidy [simp]: "cpu_ok s \<Longrightarrow> cur (tidy b s) = cur s"
  by (simp add: tidy_def)

lemma myproc_Done:
  assumes "cpu_ok s"
  shows "myproc s = Done (cur s) (settled s)"
proof -
  have m: "mycpu (pushed s) = Done (me s) (pushed s)"
    using assms by (intro mycpu_Done) (auto elim: cpu_okE simp: pushed_sel)
  have "cpu_proc (cpus (pushed s) ! me s) = cur s"
    using cur_effects(1) [OF assms] by (simp add: cur_def)
  with m show ?thesis
    using assms by (simp add: myproc_def kern_defs pushcli_Done popcli_Done popped_pushed)
qed

lemma curproc_Done: "cpu_ok s \<Longrightarrow> cur s = Some p \<Longrightarrow> curproc s = Done p (settled s)"
  by (simp add: curproc_def kern_defs myproc_Done)

lemma runs_myproc [kern]: "cpu_ok s \<Longrightarrow> runs myproc s Q \<longleftrightarrow> Q (cur s) (settled s)"
  by (simp add: runs_Done myproc_Done)

lemma runs_curproc [kern]: "cpu_ok s \<Longrightarrow> cur s = Some p \<Longrightarrow> runs curproc s Q \<longleftrightarrow> Q p (settled s)"
  by (simp add: runs_Done curproc_Done)

subsection \<open>The operations in closed form\<close>

definition ptable_ready :: "'x kproc_scheme \<Rightarrow> bool" where
  "ptable_ready s \<longleftrightarrow> cpu_ok s \<and> unlocked Lk_ptable s \<and> length (procs (ptable s)) = NPROC"

lemma ptable_ready_settled [simp]: "ptable_ready s \<Longrightarrow> ptable_ready (settled s)"
  by (simp add: ptable_ready_def)

definition wake :: "chan \<Rightarrow> proc \<Rightarrow> proc" where
  "wake ch p = (if pstate p = SLEEPING \<and> pchan p = Some ch then p\<lparr>pstate := RUNNABLE\<rparr> else p)"

definition kill_mark :: "proc \<Rightarrow> proc" where
  "kill_mark p = p\<lparr>killed := True, containerID := 0,
     pstate := (if pstate p = SLEEPING then RUNNABLE else pstate p)\<rparr>"

lemma wakeup1_Done:
  assumes "length (procs (ptable s)) = NPROC"
  shows "wakeup1 ch s = Done () (upd_procs (map (wake ch)) s)"
  unfolding wakeup1_def using assms
  by (intro for_each_slots) (auto simp: kern_defs wake_def upd_proc_def)

lemma wakeup_Done:
  "ptable_ready s \<Longrightarrow> wakeup ch s = Done () (upd_procs (map (wake ch)) (settled s))"
  by (simp add: wakeup_def kern_defs ptable_ready_def acquire_Done wakeup1_Done release_Done released_acquired)

lemma kill_Done:
  assumes "ptable_ready s"
  shows "kill pd s = (case first_index (\<lambda>p. pid p = pd) (procs (ptable s)) of
      None \<Rightarrow> Done (-1) (settled s)
    | Some i \<Rightarrow> Done 0 (upd_proc i kill_mark (settled s)))"
proof (cases "first_index (\<lambda>p. pid p = pd) (procs (ptable s))")
  case None
  then show ?thesis
    using assms by (simp add: kill_def kern_defs ptable_ready_def acquire_Done release_Done released_acquired)
next
  case (Some i)
  then have i: "i < length (procs (ptable s))" by (simp add: first_index_Some)
  show ?thesis
    using assms Some i
    by (auto simp: kill_def kern_defs ptable_ready_def acquire_Done release_Done released_acquired
        upd_proc_procs upd_procs_upd_procs kill_mark_def intro!: upd_procs_cong)
qed

lemma sched_Switches:
  assumes "cpu_ok s" "cur s = Some p" "held Lk_ptable s" "depth s = 1" "pstate (proc_at p s) \<noteq> RUNNING"
  shows "sched s = Switches s"
proof -
  have st: "settled s = s" using assms by (simp add: settled_nested)
  have f: "\<not> hw_if s" "cpu_idx s = Some (me s)" using assms by (auto elim: cpu_okE)
  then have "mycpu s = Done (me s) s" by (intro mycpu_Done)
  then show ?thesis
    using assms st f by (simp add: sched_def kern_defs curproc_Done holding_Done depth_def)
qed

text \<open>Restoring the saved interrupt flag after the switch.\<close>

lemma set_intena_frame [simp]:
  fixes s :: "'x kproc_scheme" and i :: nat and b :: bool
  defines "u \<equiv> upd_cpu i (\<lambda>k. k\<lparr>intena := b\<rparr>) s"
  shows "cpu_ok u = cpu_ok s" "depth u = depth s" "me u = me s" "held lk u = held lk s"
    "unlocked lk u = unlocked lk s"
  by (simp_all add: u_def upd_cpu_frame)

lemma sched_resume_Done:
  "cpu_ok s \<Longrightarrow> 0 < depth s \<Longrightarrow> sched_resume ie s = Done () (upd_cpu (me s) (\<lambda>k. k\<lparr>intena := ie\<rparr>) s)"
  by (auto simp: sched_resume_def kern_defs mycpu_Done elim!: cpu_okE)

lemma sched_Panic_locks:
  assumes "cpu_ok s" "cur s = Some p" "held Lk_ptable s" "1 < depth s"
  shows "sched s = Panic ''sched locks''"
proof -
  have st: "settled s = s" using assms by (simp add: settled_nested)
  have f: "\<not> hw_if s" "cpu_idx s = Some (me s)" using assms by (auto elim: cpu_okE)
  then have "mycpu s = Done (me s) s" by (intro mycpu_Done)
  then show ?thesis
    using assms st f by (simp add: sched_def kern_defs curproc_Done holding_Done depth_def)
qed

text \<open>The state in which a process leaves the processor inside \<^verbatim>\<open>sleep\<close>.\<close>

definition asleep :: "chan \<Rightarrow> lockid \<Rightarrow> nat \<Rightarrow> 'x kproc_scheme \<Rightarrow> 'x kproc_scheme" where
  "asleep ch lk p s = upd_proc p (\<lambda>q. q\<lparr>pchan := Some ch, pstate := SLEEPING\<rparr>)
     (if lk = Lk_ptable then s else released lk (acquired Lk_ptable s))"

lemma sleep_Switches:
  assumes ok: "cpu_ok s" and p: "cur s = Some p" "p < length (procs (ptable s))"
    and h: "held lk s" "depth s = 1" "lk \<noteq> Lk_ptable \<Longrightarrow> unlocked Lk_ptable s"
  shows "sleep ch lk s = Switches (asleep ch lk p s)"
proof -
  define t where "t = (if lk = Lk_ptable then s else released lk (acquired Lk_ptable s))"
  have st: "settled s = s" using ok h by (simp add: settled_nested)
  have t: "cpu_ok t" "cur t = Some p" "held Lk_ptable t" "depth t = 1" "procs (ptable t) = procs (ptable s)"
    using ok p h by (auto simp: t_def)
  have "sched (asleep ch lk p s) = (Switches (asleep ch lk p s) :: ('b, 'a kproc_scheme) outcome)"
    unfolding asleep_def t_def [symmetric] using t p(2)
    by (intro sched_Switches [of _ p]) (simp_all add: upd_proc_procs)
  moreover have "upd_proc p (\<lambda>q. q\<lparr>pstate := SLEEPING\<rparr>) (upd_proc p (\<lambda>q. q\<lparr>pchan := Some ch\<rparr>) t)
      = asleep ch lk p s"
    using p(2) t(5) by (simp add: upd_proc_twice asleep_def t_def)
  ultimately show ?thesis
    using ok p h st
    by (cases "lk = Lk_ptable")
       (simp_all add: sleep_def kern_defs myproc_Done acquire_Done release_Done t_def)
qed

subsection \<open>Allocating a process\<close>

text \<open>The invariant of the process table: pids are handed out in increasing order, and no two slots
  share a pid other than 0.\<close>

definition ptab_inv :: "ptab \<Rightarrow> bool" where
  "ptab_inv pt \<longleftrightarrow> length (procs pt) = NPROC \<and> 1 \<le> nextpid pt \<and>
     (\<forall>p \<in> set (procs pt). 0 \<le> pid p \<and> pid p < nextpid pt \<and> (pstate p \<noteq> UNUSED \<longrightarrow> pid p \<noteq> 0)) \<and>
     (\<forall>i < NPROC. \<forall>j < NPROC. pid (procs pt ! i) = pid (procs pt ! j) \<longrightarrow> pid (procs pt ! i) \<noteq> 0 \<longrightarrow> i = j)"

text \<open>The slot as \<^verbatim>\<open>allocproc\<close> leaves it, and the two words it plants on the new kernel stack.\<close>

definition embryo :: "int \<Rightarrow> uint \<Rightarrow> proc \<Rightarrow> proc" where
  "embryo n k p = p\<lparr>pstate := EMBRYO, pid := n, containerID := 0, kstack := k,
     tf := k + 4020, pcontext := k + 3996\<rparr>"

definition stack_image :: "uint \<Rightarrow> uint \<Rightarrow> uint \<Rightarrow> mem \<Rightarrow> mem" where
  "stack_image k tr fr m = store32 (k + 4012) fr (memset (k + 3996) 0 20 (store32 (k + 4016) tr m))"

definition claimed :: "nat \<Rightarrow> 'x kproc_scheme \<Rightarrow> 'x kproc_scheme" where
  "claimed i s = s\<lparr>ptable := (ptable s)\<lparr>procs := (procs (ptable s))
     [i := (proc_at i s)\<lparr>pstate := EMBRYO, pid := nextpid (ptable s), containerID := 0\<rparr>],
     nextpid := int32 (nextpid (ptable s) + 1)\<rparr>\<rparr>"

lemma allocproc_full:
  assumes "ptable_ready s" "\<forall>p \<in> set (procs (ptable s)). pstate p \<noteq> UNUSED"
  shows "allocproc s = Done None (settled s)"
  using assms
  by (simp add: allocproc_def kern_defs ptable_ready_def acquire_Done release_Done released_acquired
      first_index_None [THEN iffD2])

lemma allocproc_claim:
  assumes "ptable_ready s" "first_index (\<lambda>p. pstate p = UNUSED) (procs (ptable s)) = Some i"
    "kmem_ready s"
  defines "k \<equiv> freelist (kmem s)"
    and "t \<equiv> popped_page (tidy (use_lock (kmem s)) (claimed i (settled s)))"
  shows "allocproc s =
    (if k = 0 then Done None (upd_proc i (\<lambda>p. p\<lparr>kstack := 0, pstate := UNUSED\<rparr>) t)
     else Done (Some i) (upd_proc i (\<lambda>p. p\<lparr>kstack := k, tf := k + 4020, pcontext := k + 3996\<rparr>)
       (t\<lparr>ram := stack_image k (sym_trapret (ptable s)) (sym_forkret (ptable s)) (ram s)\<rparr>)))"
proof -
  have i: "i < length (procs (ptable s))" using assms(2) by (simp add: first_index_Some)
  have c: "released Lk_ptable
      (upd_proc i (\<lambda>p. p\<lparr>containerID := 0\<rparr>) ((upd_proc i (\<lambda>p. p\<lparr>pid := nextpid (ptable s)\<rparr>)
        (upd_proc i (\<lambda>p. p\<lparr>pstate := EMBRYO\<rparr>) (acquired Lk_ptable s)))\<lparr>ptable :=
          (ptable (upd_proc i (\<lambda>p. p\<lparr>pid := nextpid (ptable s)\<rparr>)
            (upd_proc i (\<lambda>p. p\<lparr>pstate := EMBRYO\<rparr>) (acquired Lk_ptable s))))
          \<lparr>nextpid := int32 (nextpid (ptable s) + 1)\<rparr>\<rparr>)) = claimed i (settled s)"
    using assms(1) i
    by (simp add: upd_proc_def claimed_def ptable_ready_def released_acquired)
  have rdy: "kmem_ready (claimed i (settled s))"
    using assms(3) by (auto simp: kmem_ready_def claimed_def)
  have kl: "kalloc (claimed i (settled s)) = Done k t"
    using kalloc_Done [OF rdy] by (simp add: k_def t_def claimed_def)
  have tt: "ptable t = ptable (claimed i (settled s))" "ram t = ram s"
    by (simp_all add: t_def popped_page_def claimed_def)
  show ?thesis
    using assms(1,2) c kl i
    by (simp add: allocproc_def kern_defs acquire_Done release_Done ptable_ready_def upd_proc_procs
        Let_def KSTACKSIZE_def sizeof_trapframe_def sizeof_context_def off_eip_def)
       (auto simp: upd_procs_def tt claimed_def stack_image_def add.commute [of k] intro!: kproc.equality ptab.equality)
qed

lemma stack_image_outside: "same_outside k m (stack_image k tr fr m)"
proof -
  have "unat (k + 4016 - k) + 4 \<le> 4096" "unat (k + 3996 - k) + unat (20 :: uint) \<le> 4096"
    "unat (k + 4012 - k) + 4 \<le> 4096" by simp_all
  then show ?thesis
    unfolding stack_image_def
    by (meson same_outside_store32 same_outside_memset same_outside_trans)
qed

lemma stack_image_words:
  "load32 (stack_image k tr fr m) (4012 + k) = fr" "load32 (stack_image k tr fr m) (4016 + k) = tr"
  unfolding add.commute [of _ k]
proof -
  show "load32 (stack_image k tr fr m) (k + 4012) = fr"
    by (simp add: stack_image_def load_store32)
  have "load32 (stack_image k tr fr m) (k + 4016) =
      load32 (memset (k + 3996) 0 20 (store32 (k + 4016) tr m)) (k + 4016)"
    unfolding stack_image_def by (rule load32_store32_other) simp_all
  also have "\<dots> = load32 (store32 (k + 4016) tr m) (k + 4016)"
  proof (rule load32_cong)
    fix i :: nat assume i: "i < 4"
    have e: "k + 4016 + of_nat i - (k + 3996) = 20 + of_nat i" by simp
    have "unat (20 + of_nat i :: uint) = 20 + i" using i unat_add_of_nat [of 20 i] by simp
    then show "memset (k + 3996) 0 20 (store32 (k + 4016) tr m) (k + 4016 + of_nat i) =
        store32 (k + 4016) tr m (k + 4016 + of_nat i)"
      unfolding memset_apply e by simp
  qed
  also have "\<dots> = tr" by (rule load_store32)
  finally show "load32 (stack_image k tr fr m) (k + 4016) = tr" .
qed

lemma ptab_inv_alloc:
  assumes inv: "ptab_inv pt" and i: "i < NPROC" and n: "is_int32 (nextpid pt + 1)"
    and q: "pid q = nextpid pt"
  shows "ptab_inv (pt\<lparr>nextpid := nextpid pt + 1, procs := (procs pt)[i := q]\<rparr>)"
proof -
  have old: "0 \<le> pid (procs pt ! j) \<and> pid (procs pt ! j) < nextpid pt \<and>
      (pstate (procs pt ! j) \<noteq> UNUSED \<longrightarrow> pid (procs pt ! j) \<noteq> 0)" if "j < NPROC" for j
    using inv that by (simp add: ptab_inv_def all_set_conv_all_nth)
  have "1 \<le> nextpid pt" "length (procs pt) = NPROC" using inv by (simp_all add: ptab_inv_def)
  moreover have "x = y" if "x < NPROC" "y < NPROC"
    "pid ((procs pt)[i := q] ! x) = pid ((procs pt)[i := q] ! y)" "pid ((procs pt)[i := q] ! x) \<noteq> 0" for x y
  proof -
    have u: "pid (procs pt ! x) = pid (procs pt ! y) \<Longrightarrow> pid (procs pt ! x) \<noteq> 0 \<Longrightarrow> x = y"
      using inv that(1,2) unfolding ptab_inv_def by blast
    show ?thesis
      using that u old [of x] old [of y] i q \<open>length (procs pt) = NPROC\<close>
      by (cases "x = i"; cases "y = i") simp_all
  qed
  moreover have "0 \<le> pid ((procs pt)[i := q] ! x) \<and> pid ((procs pt)[i := q] ! x) < nextpid pt + 1 \<and>
      (pstate ((procs pt)[i := q] ! x) \<noteq> UNUSED \<longrightarrow> pid ((procs pt)[i := q] ! x) \<noteq> 0)" if "x < NPROC" for x
    using that old [of x] q \<open>1 \<le> nextpid pt\<close> \<open>length (procs pt) = NPROC\<close> by (cases "x = i") auto
  ultimately show ?thesis
    using n by (simp add: ptab_inv_def all_set_conv_all_nth)
qed

lemma ptab_inv_map:
  assumes "ptab_inv pt" "\<And>p. p \<in> set (procs pt) \<Longrightarrow> pid (g p) = pid p \<and> (pstate (g p) = UNUSED \<longleftrightarrow> pstate p = UNUSED)"
  shows "ptab_inv (pt\<lparr>procs := map g (procs pt)\<rparr>)"
  using assms by (simp add: ptab_inv_def)

lemma pid_unique:
  "ptab_inv pt \<Longrightarrow> i < NPROC \<Longrightarrow> j < NPROC \<Longrightarrow> pid (procs pt ! i) = pid (procs pt ! j) \<Longrightarrow>
   pid (procs pt ! i) \<noteq> 0 \<Longrightarrow> i = j"
  unfolding ptab_inv_def by blast

lemma upd_slot_by_pid:
  assumes "ptab_inv (ptable s)" "i < NPROC" "pid (proc_at i s) = pd" "pd \<noteq> 0"
  shows "upd_proc i g s = upd_procs (map (\<lambda>p. if pid p = pd then g p else p)) s"
  unfolding upd_proc_procs
proof (rule upd_procs_cong, rule nth_equalityI)
  have len: "length (procs (ptable s)) = NPROC" using assms(1) by (simp add: ptab_inv_def)
  fix j assume "j < length ((procs (ptable s))[i := g (proc_at i s)])"
  then have "j < NPROC" using len by simp
  then show "(procs (ptable s))[i := g (proc_at i s)] ! j =
      map (\<lambda>p. if pid p = pd then g p else p) (procs (ptable s)) ! j"
    using assms pid_unique [OF assms(1) assms(2), of j] len by (cases "j = i") auto
qed simp

subsection \<open>Properties\<close>

text \<open>
  C9. allocproc hands out an unused slot with a pid no other slot has, a kernel stack taken from the
  allocator, and a stack image that makes the first context switch enter forkret and return to
  trapret; all other slots are untouched. It fails only when the table is full or memory has run
  out, and then every slot is in the state it had and no page is lost. The table invariant (unique
  pids) is kept in every case.
\<close>

theorem allocproc_fresh_process:
  assumes rdy: "ptable_ready s" "kmem_ready s" and mem: "kmem_inv s pages"
    and inv: "ptab_inv (ptable s)" and n: "is_int32 (nextpid (ptable s) + 1)"
  shows "runs allocproc s (\<lambda>r t. ptab_inv (ptable t) \<and> (case r of
      Some i \<Rightarrow> pages \<noteq> [] \<and> pstate (proc_at i s) = UNUSED \<and>
        procs (ptable t) = (procs (ptable s))[i := embryo (nextpid (ptable s)) (hd pages) (proc_at i s)] \<and>
        pid (proc_at i t) \<notin> pid ` set (procs (ptable s)) \<and>
        load32 (ram t) (pcontext (proc_at i t) + off_eip) = sym_forkret (ptable s) \<and>
        load32 (ram t) (pcontext (proc_at i t) + sizeof_context) = sym_trapret (ptable s) \<and>
        kmem_inv t (tl pages)
    | None \<Rightarrow> (pages = [] \<or> (\<forall>p \<in> set (procs (ptable s)). pstate p \<noteq> UNUSED)) \<and>
        map pstate (procs (ptable t)) = map pstate (procs (ptable s)) \<and> kmem_inv t pages))"
proof (cases "first_index (\<lambda>p. pstate p = UNUSED) (procs (ptable s))")
  case None
  then have "\<forall>p \<in> set (procs (ptable s)). pstate p \<noteq> UNUSED" by (simp add: first_index_None)
  then show ?thesis
    using assms by (simp add: runs_Done allocproc_full) (simp add: kmem_inv_def)
next
  case (Some i)
  have i: "i < NPROC" "pstate (proc_at i s) = UNUSED" "length (procs (ptable s)) = NPROC"
    using Some inv by (auto simp: first_index_Some ptab_inv_def)
  have fresh: "nextpid (ptable s) \<notin> pid ` set (procs (ptable s))"
    using inv by (auto simp: ptab_inv_def)
  show ?thesis
  proof (cases pages)
    case Nil
    then have "freelist (kmem s) = 0" using mem by (simp add: kmem_inv_def)
    then show ?thesis
      using Some Nil mem i inv n
      by (simp add: runs_Done allocproc_claim [OF rdy(1) Some rdy(2)] popped_page_def claimed_def upd_proc_def
          ptab_inv_alloc map_update list_update_same_conv kmem_inv_def)
  next
    case (Cons k rest)
    have k: "freelist (kmem s) = k" "k \<noteq> 0" "page_aligned k" "k \<notin> set rest"
      using mem Cons by (auto simp: kmem_inv_def page_ok_def)
    have m: "kmem_inv (popped_page s) rest"
      using mem Cons kmem_inv_popped by blast
    have "kmem_inv ((popped_page s)\<lparr>ram := stack_image k (sym_trapret (ptable s)) (sym_forkret (ptable s)) (ram s)\<rparr>) rest"
      using k by (intro kmem_inv_ram [OF m, of k]) (simp_all add: popped_page_def stack_image_outside)
    then have "kmem_inv (upd_proc i g ((popped_page (tidy b (claimed i (settled s))))
        \<lparr>ram := stack_image k (sym_trapret (ptable s)) (sym_forkret (ptable s)) (ram s)\<rparr>)) rest" for g b
      using k by (simp add: kmem_inv_def popped_page_def upd_proc_def claimed_def)
    then show ?thesis
      using Some Cons k i inv n fresh
      by (simp add: runs_Done allocproc_claim [OF rdy(1) Some rdy(2)])
         (simp add: upd_proc_def popped_page_def claimed_def embryo_def ptab_inv_alloc
            off_eip_def sizeof_context_def stack_image_words)
  qed
qed

text \<open>
  C28. kill marks exactly the process with the given pid: it becomes killed, moves to container 0
  and, if it was asleep, becomes runnable; no other process changes. kill returns 0 exactly when such
  a process exists and -1 otherwise, with the lock released and unique pids kept.
\<close>

theorem kill_marks_one_process:
  assumes "ptable_ready s" "ptab_inv (ptable s)" "pd \<noteq> 0"
  shows "runs (kill pd) s (\<lambda>r t. r = (if pd \<in> pid ` set (procs (ptable s)) then 0 else - 1) \<and>
    procs (ptable t) = map (\<lambda>p. if pid p = pd then kill_mark p else p) (procs (ptable s)) \<and>
    ptab_inv (ptable t) \<and> ptable_ready t)"
proof (cases "first_index (\<lambda>p. pid p = pd) (procs (ptable s))")
  case None
  then have "pd \<notin> pid ` set (procs (ptable s))" by (auto simp: first_index_None)
  moreover from this have "map (\<lambda>p. if pid p = pd then kill_mark p else p) (procs (ptable s)) = procs (ptable s)"
    by (auto intro!: map_idI)
  ultimately show ?thesis using assms None by (simp add: runs_Done kill_Done)
next
  case (Some i)
  have i: "i < NPROC" "pid (proc_at i s) = pd"
    using Some assms by (auto simp: first_index_Some ptab_inv_def)
  then have mem: "pd \<in> pid ` set (procs (ptable s))" using assms by (auto simp: ptab_inv_def)
  have u: "upd_proc i kill_mark (settled s) =
      upd_procs (map (\<lambda>p. if pid p = pd then kill_mark p else p)) (settled s)"
    using assms i by (intro upd_slot_by_pid) simp_all
  have "ptab_inv ((ptable s)\<lparr>procs := map (\<lambda>p. if pid p = pd then kill_mark p else p) (procs (ptable s))\<rparr>)"
    using assms by (intro ptab_inv_map) (auto simp: kill_mark_def)
  then show ?thesis
    using assms Some mem by (simp add: runs_Done kill_Done u) (simp add: upd_procs_def ptable_ready_def)
qed

text \<open>
  C8. Sleeping and waking do not lose wakeups. A process that calls sleep with the lock \<open>lk\<close> held
  leaves the processor with \<open>lk\<close> free, still holding the process-table lock and already marked as
  sleeping on its channel. Once the scheduler has released that lock, wakeup on the same channel makes
  it runnable, wakeup on any other channel leaves it asleep, and in both cases exactly the
  sleepers of that channel are woken. When it is scheduled again it returns with \<open>lk\<close> held and no
  channel.
\<close>

theorem sleep_wakeup:
  assumes ok: "cpu_ok s" and p: "cur s = Some p" "p < NPROC" "length (procs (ptable s)) = NPROC"
    and l: "held lk s" "depth s = 1" "lk \<noteq> Lk_ptable" "unlocked Lk_ptable s"
  shows "\<exists>t. sleep ch lk s = Switches t \<and> held Lk_ptable t \<and> unlocked lk t \<and>
    pstate (proc_at p t) = SLEEPING \<and> pchan (proc_at p t) = Some ch \<and>
    runs (sq (release Lk_ptable) (wakeup ch')) t (\<lambda>_ u. unlocked Lk_ptable u \<and>
      pstate (proc_at p u) = (if ch' = ch then RUNNABLE else SLEEPING) \<and>
      (\<forall>j < NPROC. j \<noteq> p \<longrightarrow> proc_at j u = wake ch' (proc_at j s))) \<and>
    runs (sleep_resume p ie lk) t (\<lambda>_ u. held lk u \<and> unlocked Lk_ptable u \<and> pchan (proc_at p u) = None)"
proof -
  let ?t = "asleep ch lk p s"
  have sw: "sleep ch lk s = Switches ?t"
    using assms by (intro sleep_Switches) auto
  have t: "cpu_ok ?t" "depth ?t = 1" "held Lk_ptable ?t" "unlocked lk ?t" "length (procs (ptable ?t)) = NPROC"
    using assms by (auto simp: asleep_def upd_proc_procs)
  have at: "procs (ptable ?t) = (procs (ptable s))[p := (proc_at p s)\<lparr>pchan := Some ch, pstate := SLEEPING\<rparr>]"
    using l by (simp add: asleep_def upd_proc_procs)
  have "ptable_ready (released Lk_ptable ?t)" using t by (simp add: ptable_ready_def)
  then have w: "runs (sq (release Lk_ptable) (wakeup ch')) ?t (\<lambda>_ u. unlocked Lk_ptable u \<and>
      pstate (proc_at p u) = (if ch' = ch then RUNNABLE else SLEEPING) \<and>
      (\<forall>j < NPROC. j \<noteq> p \<longrightarrow> proc_at j u = wake ch' (proc_at j s)))"
    using t p by (simp add: kern runs_Done wakeup_Done at) (simp add: wake_def)
  have "runs (sleep_resume p ie lk) ?t (\<lambda>_ u. held lk u \<and> unlocked Lk_ptable u \<and> pchan (proc_at p u) = None)"
    using t p l by (simp add: sleep_resume_def kern runs_Done sched_resume_Done upd_proc_procs at)
  with sw t at w p show ?thesis by auto
qed

text \<open>
  C29. kill(0) hits a free slot. Free slots carry pid 0, so kill(0) reports success and sets the killed
  flag of the first of them; allocproc does not clear the flag, so when that slot is the next one
  allocated the new process is born killed.
\<close>

theorem kill_zero_marks_next_process:
  assumes "ptable_ready s" "kmem_ready s" "freelist (kmem s) \<noteq> 0"
    "first_index (\<lambda>p. pid p = 0) (procs (ptable s)) = Some i"
    "first_index (\<lambda>p. pstate p = UNUSED) (procs (ptable s)) = Some i"
  shows "runs (bnd (kill 0) (\<lambda>r. bnd allocproc (\<lambda>q. ret (r, q)))) s (\<lambda>(r, q) t.
    r = 0 \<and> q = Some i \<and> pstate (proc_at i t) = EMBRYO \<and> killed (proc_at i t))"
proof -
  let ?t = "upd_proc i kill_mark (settled s)"
  have i: "i < length (procs (ptable s))" "pstate (proc_at i s) = UNUSED" "\<forall>j < i. pstate (proc_at j s) \<noteq> UNUSED"
    using assms(5) by (auto simp: first_index_Some)
  have k: "kill 0 s = Done 0 ?t" using assms by (simp add: kill_Done)
  have f: "first_index (\<lambda>p. pstate p = UNUSED) (procs (ptable ?t)) = Some i"
    using i by (auto simp: first_index_Some upd_proc_procs kill_mark_def)
  have rdy: "ptable_ready ?t" "kmem_ready ?t"
    using assms by (auto simp: ptable_ready_def kmem_ready_def upd_proc_procs)
  have "runs allocproc ?t (\<lambda>q t. q = Some i \<and> pstate (proc_at i t) = EMBRYO \<and> killed (proc_at i t))"
    using assms(3) i
    by (simp add: runs_def allocproc_claim [OF rdy(1) f rdy(2)])
       (simp add: upd_proc_def popped_page_def claimed_def kill_mark_def)
  then show ?thesis by (simp add: kern) (simp add: runs_def k)
qed

subsection \<open>A concrete machine\<close>

text \<open>One processor running process 1, process 2 asleep on the clock, one free page.\<close>

definition blank_proc :: proc where
  "blank_proc = \<lparr>sz = 0, pgdir = 0, kstack = 0, pstate = UNUSED, pid = 0, parent = None, containerID = 0,
     tf = 0, pcontext = 0, pchan = None, killed = False, ofile = replicate 16 None, cwd = None, pname = []\<rparr>"

definition demo_procs :: "proc list" where
  "demo_procs = blank_proc\<lparr>pstate := RUNNING, pid := 1\<rparr> #
     blank_proc\<lparr>pstate := SLEEPING, pid := 2, pchan := Some Chan_ticks\<rparr> # replicate 62 blank_proc"

definition blank_container :: "nat \<Rightarrow> container" where
  "blank_container i = \<lparr>con_id = int i, con_state = (if i = 0 then CWAITING else CUNUSED), nextGVA = 0,
     pgTable = \<lparr>page = replicate 100 \<lparr>GVA = 0, HVA = 0, pg_pid = 0\<rparr>, pg_next = 0\<rparr>, nextprocId = 0\<rparr>"

definition demo :: kproc where
  "demo = \<lparr>hw_if = True, hw_lapicid = 0,
     cpus = [\<lparr>apicid = 0, ncli = 0, intena = False, cpu_proc = Some 0, ts_esp0 = 0\<rparr>],
     locks = (\<lambda>_. \<lparr>locked = False, lk_name = [], lk_cpu = None\<rparr>),
     kmem = \<lparr>use_lock = True, freelist = 0x80200000\<rparr>, ram = (\<lambda>_. 0), kend = 0x80110000, kdata = 0x80108000, hw_cr3 = 0, kpgdir = 0x803FF000,
     cons = \<lparr>locking = True, panicked = False, uart = True, uart_sent = [], crt = replicate 2000 0, crtpos = 0\<rparr>,
     ptable = \<lparr>procs = demo_procs, nextpid = 3, initproc = Some 0, sym_forkret = 0x80103000, sym_trapret = 0x80105000\<rparr>,
     ctable = \<lparr>container = map blank_container [0..<20], containers = replicate 20 0, schedulerLog = 0, memoryLog = 0\<rparr>\<rparr>"

lemma demo_cpu: "cpu_ok demo" "depth demo = 0" "cur demo = Some 0" "unlocked lk demo"
proof -
  have i: "cpu_idx demo = Some 0" by (simp add: demo_def cpu_idx_def first_index_def)
  then show "cpu_ok demo" by (simp add: cpu_ok_def demo_def)
  show "depth demo = 0" "cur demo = Some 0" "unlocked lk demo"
    using i by (simp_all add: depth_def cur_def me_def unlocked_def) (simp_all add: demo_def)
qed

lemma demo_sel:
  "procs (ptable demo) = demo_procs" "nextpid (ptable demo) = 3" "length demo_procs = NPROC"
  "kmem demo = \<lparr>use_lock = True, freelist = 0x80200000\<rparr>" "ram demo = (\<lambda>_. 0)" "kend demo = 0x80110000"
  by (simp_all add: demo_def demo_procs_def NPROC_def)

lemma demo_ready: "ptable_ready demo" "kmem_ready demo" "kmem_inv demo [0x80200000]"
  using demo_cpu by (simp_all add: ptable_ready_def kmem_ready_def demo_sel kmem_inv_def load32_def page_ok_def
      page_aligned_def PGSIZE_def V2P_def KERNBASE_def PHYSTOP_def)

lemma demo_nth:
  "j < NPROC \<Longrightarrow> demo_procs ! j = (if j = 0 then blank_proc\<lparr>pstate := RUNNING, pid := 1\<rparr>
     else if j = 1 then blank_proc\<lparr>pstate := SLEEPING, pid := 2, pchan := Some Chan_ticks\<rparr> else blank_proc)"
  by (auto simp: demo_procs_def nth_Cons' NPROC_def)

lemma demo_pids: "ptab_inv (ptable demo)"
  by (auto simp: ptab_inv_def all_set_conv_all_nth demo_sel demo_nth blank_proc_def)

theorem allocproc_fresh_process_witness:
  "runs allocproc demo (\<lambda>r t. ptab_inv (ptable t) \<and> r \<noteq> None)"
proof -
  have "\<exists>p \<in> set (procs (ptable demo)). pstate p = UNUSED"
    by (simp add: demo_sel demo_procs_def blank_proc_def)
  moreover have "is_int32 (nextpid (ptable demo) + 1)" by (simp add: demo_sel is_int32_def)
  ultimately show ?thesis
    by (intro runs_weaken [OF allocproc_fresh_process [OF demo_ready demo_pids]]) (auto split: option.splits)
qed

theorem kill_marks_one_process_witness:
  "runs (kill 2) demo (\<lambda>r t. r = 0 \<and> pstate (proc_at 1 t) = RUNNABLE \<and> killed (proc_at 1 t))"
proof -
  have "2 \<in> pid ` set demo_procs" by (simp add: demo_procs_def)
  then show ?thesis
    using runs_weaken [OF kill_marks_one_process [OF demo_ready(1) demo_pids, of 2]]
    by (simp add: demo_sel) (simp add: demo_procs_def kill_mark_def)
qed

theorem sleep_wakeup_witness:
  "\<exists>t. sleep Chan_log Lk_log (acquired Lk_log demo) = Switches t \<and> pstate (proc_at 0 t) = SLEEPING \<and>
     runs (sq (release Lk_ptable) (wakeup Chan_log)) t (\<lambda>_ u. pstate (proc_at 0 u) = RUNNABLE)"
  using sleep_wakeup [of "acquired Lk_log demo" 0 Lk_log Chan_log Chan_log True] demo_cpu
  by (auto simp: demo_sel NPROC_def elim!: runs_weaken)

theorem kill_zero_marks_next_process_witness:
  "runs (bnd (kill 0) (\<lambda>r. bnd allocproc (\<lambda>q. ret (r, q)))) demo
    (\<lambda>(r, q) t. r = 0 \<and> q = Some 2 \<and> pstate (proc_at 2 t) = EMBRYO \<and> killed (proc_at 2 t))"
  by (rule kill_zero_marks_next_process [OF demo_ready(1,2)])
     (auto simp: demo_sel first_index_Some demo_nth blank_proc_def NPROC_def demo_nth [unfolded NPROC_def])

end
