(* ===== verification/Container.thy ===== *)
theory Container
  imports Proc
begin

text \<open>
  Containers: the functions at the head of \<^verbatim>\<open>src/proc.c\<close> that create and destroy containers, move
  processes between them, hand out container memory and list what is there.

  Container ids and table positions are C integers and pointers in the source. Where the source
  indexes an array with an id it did not check, an id outside the array is the outcome
  \<open>Undef\<close>. \<^verbatim>\<open>destroyContainer\<close> drops the process-table lock around each \<^verbatim>\<open>kill\<close>; what other processors
  may do in between is not part of this sequential model.
\<close>

subsection \<open>Operations\<close>

definition upd_con :: "nat \<Rightarrow> (container \<Rightarrow> container) \<Rightarrow> 'x kproc_scheme \<Rightarrow> 'x kproc_scheme" where
  "upd_con i f s = s\<lparr>ctable := (ctable s)\<lparr>container := (container (ctable s))[i := f (container (ctable s) ! i)]\<rparr>\<rparr>"

abbreviation con_at :: "nat \<Rightarrow> 'x kproc_scheme \<Rightarrow> container" where
  "con_at i s \<equiv> container (ctable s) ! i"

definition psHelper :: "int \<Rightarrow> int \<Rightarrow> ('x kproc_scheme, unit) kern" where
  "psHelper procID cid = sq (acquire Lk_ptable) (
     sq (for_each [0..<NPROC] (\<lambda>i. bnd (gets (proc_at i)) (\<lambda>p.
          whenM (containerID p = cid) (whenM (pstate p \<noteq> UNUSED)
            (cprintf (''pid:%d name:%s Container:%d'' @ [CHR 0x0A])
               [Arg (pid p), Str (Some (pname p)), Arg (containerID p)])))))
        (release Lk_ptable))"

definition containerInit :: "('x kproc_scheme, unit) kern" where
  "containerInit = sq
     (for_each [0..<NCONT] (\<lambda>i. modify (upd_con i (\<lambda>c. c\<lparr>con_id := int i, con_state := CUNUSED, nextGVA := 0,
        pgTable := (pgTable c)\<lparr>pg_next := 0\<rparr>\<rparr>))))
     (modify (upd_con 0 (\<lambda>c. c\<lparr>con_state := CWAITING\<rparr>)))"

definition upd_page :: "nat \<Rightarrow> nat \<Rightarrow> (pgElement \<Rightarrow> pgElement) \<Rightarrow> 'x kproc_scheme \<Rightarrow> 'x kproc_scheme" where
  "upd_page i n f = upd_con i (\<lambda>c. c\<lparr>pgTable := (pgTable c)\<lparr>page := (page (pgTable c))[n := f (page (pgTable c) ! n)]\<rparr>\<rparr>)"

text \<open>The body of the loop of \<^verbatim>\<open>container_malloc\<close> for the container at position \<open>i\<close>.\<close>

definition container_malloc_slot :: "int \<Rightarrow> int \<Rightarrow> nat \<Rightarrow> ('x kproc_scheme, unit) kern" where
  "container_malloc_slot numBytes pd i = bnd curproc (\<lambda>cp.
     bnd (gets (\<lambda>s. con_id (con_at i s) = containerID (proc_at cp s))) (\<lambda>same. whenM same (
       bnd (gets (\<lambda>s. nextGVA (con_at i s))) (\<lambda>gva.
       bnd (gets (\<lambda>s. pg_next (pgTable (con_at i s)))) (\<lambda>nextFree.
       sq (modify (upd_con i (\<lambda>c. c\<lparr>nextGVA := int32 (nextGVA c + numBytes)\<rparr>))) (
       sq (modify (upd_con i (\<lambda>c. c\<lparr>pgTable := (pgTable c)\<lparr>pg_next := int32 (pg_next (pgTable c) + 1)\<rparr>\<rparr>))) (
       if nextFree < 0 \<or> nextFree \<ge> int NPAGE then undef ''write past the container page table''
       else
         sq (modify (upd_page i (nat nextFree) (\<lambda>e. e\<lparr>GVA := gva\<rparr>))) (
         bnd kalloc (\<lambda>a.
         sq (modify (upd_page i (nat nextFree) (\<lambda>e. e\<lparr>HVA := a\<rparr>))) (
         sq (modify (upd_page i (nat nextFree) (\<lambda>e. e\<lparr>pg_pid := pd\<rparr>))) (
         bnd (gets (\<lambda>s. memoryLog (ctable s))) (\<lambda>ml. whenM (ml = 1) (
           sq (cprintf (''%d  %p'' @ [CHR 0x0A]) [Arg gva, Arg (uint a)])
              (cprintf (''%d'' @ [CHR 0x0A]) [Arg pd]))))))))))))))"

definition container_malloc :: "int \<Rightarrow> int \<Rightarrow> ('x kproc_scheme, unit) kern" where
  "container_malloc numBytes pd = sq (acquire Lk_ctable) (
     sq (for_each [0..<NCONT] (container_malloc_slot numBytes pd)) (release Lk_ctable))"

primrec createContainer_loop :: "nat list \<Rightarrow> ('x kproc_scheme, int) kern" where
  "createContainer_loop [] =
     sq (cprintf (''Couldn't create a new container'' @ [CHR 0x0A]) []) (
     sq (release Lk_ctable) (ret (- 1)))"
| "createContainer_loop (i # is) = bnd (gets (\<lambda>s. con_id (con_at i s))) (\<lambda>cid.
     if cid < 0 \<or> cid \<ge> int NCONT then undef ''containers index''
     else bnd (gets (\<lambda>s. containers (ctable s) ! nat cid)) (\<lambda>u.
       if u = 0 \<and> cid \<noteq> 0 then
         sq (modify (\<lambda>s. s\<lparr>ctable := (ctable s)\<lparr>containers := (containers (ctable s))[nat cid := 1]\<rparr>\<rparr>)) (
         sq (modify (upd_con i (\<lambda>c. c\<lparr>con_state := CWAITING\<rparr>))) (
         sq (release Lk_ctable) (ret cid)))
       else createContainer_loop is))"

definition createContainer :: "('x kproc_scheme, int) kern" where
  "createContainer = sq (acquire Lk_ctable) (createContainer_loop [0..<NCONT])"

definition destroyContainer :: "int \<Rightarrow> ('x kproc_scheme, unit) kern" where
  "destroyContainer cid = sq (acquire Lk_ctable) (
     if cid < 0 \<or> cid \<ge> int NCONT then undef ''container index''
     else sq (modify (upd_con (nat cid) (\<lambda>c. c\<lparr>con_state := CUNUSED\<rparr>))) (
       sq (modify (\<lambda>s. s\<lparr>ctable := (ctable s)\<lparr>containers := (containers (ctable s))[nat cid := 0]\<rparr>\<rparr>)) (
       sq (release Lk_ctable) (
       sq (acquire Lk_ptable) (
       sq (for_each [0..<NPROC] (\<lambda>i. bnd (gets (\<lambda>s. pid (proc_at i s))) (\<lambda>pd.
            bnd (gets (\<lambda>s. containerID (proc_at i s) = cid)) (\<lambda>m. whenM m (
              sq (release Lk_ptable) (sq (kill pd) (acquire Lk_ptable)))))))
          (release Lk_ptable))))))"

definition addProcessToContainer :: "int \<Rightarrow> int \<Rightarrow> ('x kproc_scheme, unit) kern" where
  "addProcessToContainer pd cid = sq (acquire Lk_ptable) (
     sq (for_each [0..<NPROC] (\<lambda>i. bnd (gets (proc_at i)) (\<lambda>p.
          whenM (pid p = pd) (modify (upd_proc i (\<lambda>p. p\<lparr>containerID := cid\<rparr>)))))) (
     sq (release Lk_ptable)
        (cprintf (''Process %d added to %d container'' @ [CHR 0x0A]) [Arg pd, Arg cid])))"

definition removeProcessFromContainer :: "int \<Rightarrow> ('x kproc_scheme, unit) kern" where
  "removeProcessFromContainer pd = sq (acquire Lk_ptable) (
     sq (for_each [0..<NPROC] (\<lambda>i. bnd (gets (proc_at i)) (\<lambda>p.
          whenM (pid p = pd) (modify (upd_proc i (\<lambda>p. p\<lparr>containerID := 0\<rparr>))))))
        (release Lk_ptable))"

definition listContainersHelper :: "('x kproc_scheme, unit) kern" where
  "listContainersHelper = sq (acquire Lk_ptable) (
     for_each [0..<NPROC] (\<lambda>i. bnd (gets (proc_at i)) (\<lambda>p.
       cprintf (''process %d is present in container %d'' @ [CHR 0x0A]) [Arg (pid p), Arg (containerID p)])))"

fun getName :: "containerState \<Rightarrow> string" where
  "getName CRUNNING = ''CRUNNING''"
| "getName CWAITING = ''CWAITING''"
| "getName CUNUSED = ''CUNUSED''"

subsection \<open>Printing inside a critical section\<close>

definition printed :: "string \<Rightarrow> 'x kcons_scheme \<Rightarrow> 'x kcons_scheme" where
  "printed str s = s\<lparr>cons := emits str (cons s)\<rparr>"

lemma printed_frame [simp]:
  "cpu_ok (printed str s) = cpu_ok s" "depth (printed str s) = depth s" "held lk (printed str s) = held lk s"
  "unlocked lk (printed str s) = unlocked lk s" "released lk (printed str s) = printed str (released lk s)"
  "me (printed str s) = me s" "cur (printed str s) = cur s" "cons (printed str s) = emits str (cons s)"
  by (simp_all add: printed_def)

lemma printed_tables [simp]: "ptable (printed str s) = ptable s" "ctable (printed str s) = ctable s"
  by (simp_all add: printed_def)

lemma cprintf_nested:
  "cons_ready s \<Longrightarrow> 0 < depth s \<Longrightarrow> fmt_text fmt as = Some str \<Longrightarrow> cprintf fmt as s = Done () (printed str s)"
  by (simp add: cprintf_Done tidy_def settled_nested cons_ready_def printed_def)

lemma cons_ready_printed [simp]: "cons_ready s \<Longrightarrow> cons_ready (printed str s)"
  by (simp add: cons_ready_def)

lemma cons_ready_acquired [simp]: "cons_ready s \<Longrightarrow> lk \<noteq> Lk_cons \<Longrightarrow> cons_ready (acquired lk s)"
  by (simp add: cons_ready_def)

lemma for_each_print:
  assumes "\<And>i t. i \<in> set is \<Longrightarrow> cons_ready t \<Longrightarrow> 0 < depth t \<Longrightarrow> ptable t = ptable s \<Longrightarrow>
      f i t = Done () (printed (txt i) t)"
    and "cons_ready s" "0 < depth s"
  shows "for_each is f s = Done () (printed (concat (map txt is)) s)"
  using assms
proof (induction "is" arbitrary: s)
  case (Cons i "is")
  have "f i s = Done () (printed (txt i) s)" using Cons.prems by simp
  moreover have "for_each is f (printed (txt i) s) =
      Done () (printed (concat (map txt is)) (printed (txt i) s))"
    using Cons.prems by (intro Cons.IH) auto
  ultimately show ?case by (simp add: kern_defs printed_def)
qed (simp add: ret_def printed_def)

text \<open>The lines the listings print.\<close>

definition dec_text :: "int \<Rightarrow> string" where
  "dec_text n = printint_chars console_digits n 10 True"

definition ps_line :: "proc \<Rightarrow> string" where
  "ps_line p = ''pid:'' @ dec_text (pid p) @ '' name:'' @ pname p @ '' Container:'' @
     dec_text (containerID p) @ [CHR 0x0A]"

definition list_line :: "proc \<Rightarrow> string" where
  "list_line p = ''process '' @ dec_text (pid p) @ '' is present in container '' @
     dec_text (containerID p) @ [CHR 0x0A]"

lemma ps_text: "fmt_text (''pid:%d name:%s Container:%d'' @ [CHR 0x0A])
    [Arg (pid p), Str (Some (pname p)), Arg (containerID p)] = Some (ps_line p)"
  by (simp add: ps_line_def dec_text_def)

lemma list_text: "fmt_text (''process %d is present in container %d'' @ [CHR 0x0A])
    [Arg (pid p), Arg (containerID p)] = Some (list_line p)"
  by (simp add: list_line_def dec_text_def)

lemma ps_print: "cons_ready t \<Longrightarrow> 0 < depth t \<Longrightarrow> cprintf (''pid:%d name:%s Container:%d'' @ [CHR 0x0A])
    [Arg (pid p), Str (Some (pname p)), Arg (containerID p)] t = Done () (printed (ps_line p) t)"
  by (rule cprintf_nested [OF _ _ ps_text])

lemma list_print: "cons_ready t \<Longrightarrow> 0 < depth t \<Longrightarrow> cprintf (''process %d is present in container %d'' @ [CHR 0x0A])
    [Arg (pid p), Arg (containerID p)] t = Done () (printed (list_line p) t)"
  by (rule cprintf_nested [OF _ _ list_text])

lemma printed_printed: "printed b (printed a s) = printed (a @ b) s"
  by (simp add: printed_def)

lemma printed_Nil [simp]: "printed [] s = s"
  by (simp add: printed_def)

lemma concat_map_if: "concat (map (\<lambda>x. if P x then f x else []) xs) = concat (map f (filter P xs))"
  by (induction xs) auto

lemma map_nth_upt: "length xs = n \<Longrightarrow> map (\<lambda>i. g (xs ! i)) [0..<n] = map g xs"
  by (auto intro!: nth_equalityI)

lemma psHelper_Done:
  assumes "ptable_ready s" "cons_ready s"
  shows "psHelper pd cid s = Done () (printed (concat (map ps_line
    (filter (\<lambda>p. containerID p = cid \<and> pstate p \<noteq> UNUSED) (procs (ptable s))))) (settled s))"
proof -
  let ?txt = "\<lambda>p. if containerID p = cid \<and> pstate p \<noteq> UNUSED then ps_line p else []"
  have "for_each [0..<NPROC] (\<lambda>i. bnd (gets (proc_at i)) (\<lambda>p.
        whenM (containerID p = cid) (whenM (pstate p \<noteq> UNUSED)
          (cprintf (''pid:%d name:%s Container:%d'' @ [CHR 0x0A])
             [Arg (pid p), Str (Some (pname p)), Arg (containerID p)])))) (acquired Lk_ptable s)
      = Done () (printed (concat (map (\<lambda>i. ?txt (proc_at i s)) [0..<NPROC])) (acquired Lk_ptable s))"
  proof (rule for_each_print)
    fix i and t :: "'a kproc_scheme"
    assume "cons_ready t" "0 < depth t" "ptable t = ptable (acquired Lk_ptable s)"
    then show "bnd (gets (proc_at i)) (\<lambda>p.
        whenM (containerID p = cid) (whenM (pstate p \<noteq> UNUSED)
          (cprintf (''pid:%d name:%s Container:%d'' @ [CHR 0x0A])
             [Arg (pid p), Str (Some (pname p)), Arg (containerID p)]))) t =
        Done () (printed (?txt (proc_at i s)) t)"
      using ps_print [of t "proc_at i s"]
      by (cases "containerID (proc_at i s) = cid"; cases "pstate (proc_at i s) = UNUSED") (simp_all add: kern_defs)
  qed (use assms in \<open>auto simp: ptable_ready_def\<close>)
  moreover have "concat (map (\<lambda>i. ?txt (proc_at i s)) [0..<NPROC]) = concat (map ps_line
    (filter (\<lambda>p. containerID p = cid \<and> pstate p \<noteq> UNUSED) (procs (ptable s))))"
    using assms(1) by (subst map_nth_upt) (simp_all add: ptable_ready_def concat_map_if)
  ultimately show ?thesis
    using assms(1) by (simp add: psHelper_def kern_defs ptable_ready_def acquire_Done release_Done released_acquired)
qed

lemma listContainersHelper_Done:
  assumes "ptable_ready s" "cons_ready s"
  shows "listContainersHelper s = Done () (printed (concat (map list_line (procs (ptable s)))) (acquired Lk_ptable s))"
proof -
  have "for_each [0..<NPROC] (\<lambda>i. bnd (gets (proc_at i)) (\<lambda>p.
       cprintf (''process %d is present in container %d'' @ [CHR 0x0A]) [Arg (pid p), Arg (containerID p)]))
       (acquired Lk_ptable s)
      = Done () (printed (concat (map (\<lambda>i. list_line (proc_at i s)) [0..<NPROC])) (acquired Lk_ptable s))"
  proof (rule for_each_print)
    fix i and t :: "'a kproc_scheme"
    assume "cons_ready t" "0 < depth t" "ptable t = ptable (acquired Lk_ptable s)"
    then show "bnd (gets (proc_at i)) (\<lambda>p.
       cprintf (''process %d is present in container %d'' @ [CHR 0x0A]) [Arg (pid p), Arg (containerID p)]) t =
       Done () (printed (list_line (proc_at i s)) t)"
      using list_print [of t "proc_at i s"] by (simp add: kern_defs)
  qed (use assms in \<open>auto simp: ptable_ready_def\<close>)
  then show ?thesis
    using assms by (simp add: listContainersHelper_def kern_defs acquire_Done ptable_ready_def map_nth_upt)
qed

subsection \<open>The container table\<close>

text \<open>Invariant: container \<open>i\<close> sits at position \<open>i\<close>, and a container other than 0 is in use exactly when
  its state is \<^verbatim>\<open>CWAITING\<close>.\<close>

definition ctab_inv :: "ctab \<Rightarrow> bool" where
  "ctab_inv ct \<longleftrightarrow> length (container ct) = NCONT \<and> length (containers ct) = NCONT \<and>
     (\<forall>i < NCONT. con_id (container ct ! i) = int i \<and> length (page (pgTable (container ct ! i))) = NPAGE \<and>
        (i \<noteq> 0 \<longrightarrow> con_state (container ct ! i) = (if containers ct ! i = 0 then CUNUSED else CWAITING)))"

definition ctable_ready :: "'x kproc_scheme \<Rightarrow> bool" where
  "ctable_ready s \<longleftrightarrow> cpu_ok s \<and> unlocked Lk_ctable s \<and> ctab_inv (ctable s)"

text \<open>The table after container \<open>i\<close> is taken (\<open>b\<close>) or given back.\<close>

definition set_used :: "nat \<Rightarrow> bool \<Rightarrow> ctab \<Rightarrow> ctab" where
  "set_used i b ct = ct\<lparr>containers := (containers ct)[i := of_bool b],
     container := (container ct)[i := (container ct ! i)\<lparr>con_state := (if b then CWAITING else CUNUSED)\<rparr>]\<rparr>"

lemma ctab_inv_set_used: "ctab_inv ct \<Longrightarrow> i < NCONT \<Longrightarrow> ctab_inv (set_used i b ct)"
  by (auto simp: ctab_inv_def set_used_def nth_list_update)

lemma createContainer_loop_Done:
  assumes "ctab_inv (ctable s)" "\<forall>i \<in> set is. i < NCONT" "cons_ready s" "held Lk_ctable s" "0 < depth s"
  shows "createContainer_loop is s = (case find (\<lambda>i. containers (ctable s) ! i = 0 \<and> i \<noteq> 0) is of
      Some i \<Rightarrow> Done (int i) (released Lk_ctable (s\<lparr>ctable := set_used i True (ctable s)\<rparr>))
    | None \<Rightarrow> Done (- 1) (released Lk_ctable (printed (''Couldn't create a new container'' @ [CHR 0x0A]) s)))"
  using assms(2)
proof (induction "is")
  case Nil
  have "cprintf (''Couldn't create a new container'' @ [CHR 0x0A]) [] s =
      Done () (printed (''Couldn't create a new container'' @ [CHR 0x0A]) s)"
    using assms by (intro cprintf_nested) simp_all
  then show ?case
    using assms by (simp add: kern_defs release_Done cons_ready_def)
next
  case (Cons i "is")
  have i: "con_id (con_at i s) = int i" "i < NCONT" using assms(1) Cons.prems by (auto simp: ctab_inv_def)
  have "s\<lparr>ctable := set_used i True (ctable s)\<rparr> = upd_con i (\<lambda>c. c\<lparr>con_state := CWAITING\<rparr>)
      (s\<lparr>ctable := (ctable s)\<lparr>containers := (containers (ctable s))[i := 1]\<rparr>\<rparr>)"
    by (simp add: upd_con_def set_used_def)
  moreover have "release Lk_ctable (s\<lparr>ctable := set_used i True (ctable s)\<rparr>) =
      Done () (released Lk_ctable (s\<lparr>ctable := set_used i True (ctable s)\<rparr>))"
    using assms by (intro release_Done) (simp_all add: cons_ready_def)
  ultimately show ?case
    using Cons i by (simp add: kern_defs)
qed

lemma createContainer_Done:
  assumes "ctable_ready s" "cons_ready s"
  shows "createContainer s = (case find (\<lambda>i. containers (ctable s) ! i = 0 \<and> i \<noteq> 0) [0..<NCONT] of
      Some i \<Rightarrow> Done (int i) ((settled s)\<lparr>ctable := set_used i True (ctable s)\<rparr>)
    | None \<Rightarrow> Done (- 1) (printed (''Couldn't create a new container'' @ [CHR 0x0A]) (settled s)))"
  using assms
  by (simp add: createContainer_def kern_defs ctable_ready_def acquire_Done createContainer_loop_Done
      released_acquired split: option.splits)

subsection \<open>Moving processes\<close>

lemma addProcess_loop:
  assumes "length (procs (ptable s)) = NPROC"
  shows "for_each [0..<NPROC] (\<lambda>i. bnd (gets (proc_at i)) (\<lambda>p.
      whenM (pid p = pd) (modify (upd_proc i (\<lambda>p. p\<lparr>containerID := cid\<rparr>))))) s =
    Done () (upd_procs (map (\<lambda>p. if pid p = pd then p\<lparr>containerID := cid\<rparr> else p)) s)"
  using assms by (intro for_each_slots) (auto simp: kern_defs upd_proc_def)

lemma removeProcess_Done:
  assumes "ptable_ready s"
  shows "removeProcessFromContainer pd s =
    Done () (upd_procs (map (\<lambda>p. if pid p = pd then p\<lparr>containerID := 0\<rparr> else p)) (settled s))"
  using assms addProcess_loop [of "acquired Lk_ptable s" pd 0]
  by (simp add: removeProcessFromContainer_def kern_defs ptable_ready_def acquire_Done release_Done released_acquired)

lemma runs_addProcess:
  assumes "ptable_ready s" "cons_ready s"
  shows "runs (addProcessToContainer pd cid) s (\<lambda>_ t. ptable_ready t \<and> cons_ready t \<and> ctable t = ctable s \<and> cur t = cur s \<and>
    ptable t = (ptable s)\<lparr>procs := map (\<lambda>p. if pid p = pd then p\<lparr>containerID := cid\<rparr> else p) (procs (ptable s))\<rparr>)"
proof -
  let ?t = "upd_procs (map (\<lambda>p. if pid p = pd then p\<lparr>containerID := cid\<rparr> else p)) (settled s)"
  have fmt: "fmt_text (''Process %d added to %d container'' @ [CHR 0x0A]) [Arg pd, Arg cid] =
      Some (''Process '' @ dec_text pd @ '' added to '' @ dec_text cid @ '' container'' @ [CHR 0x0A])"
    by (simp add: dec_text_def)
  have "cons_ready ?t" using assms(2) by (simp add: cons_ready_def)
  then show ?thesis
    using assms(1) cprintf_Done [OF _ fmt, of ?t] addProcess_loop [of "acquired Lk_ptable s" pd cid]
    by (simp add: addProcessToContainer_def runs_def kern_defs ptable_ready_def acquire_Done release_Done
        released_acquired cons_ready_def)
qed

subsection \<open>Destroying a container\<close>

text \<open>One step of the loop of \<^verbatim>\<open>destroyContainer\<close>, for a table in which no free slot claims to be in
  the container.\<close>

definition none_stale :: "int \<Rightarrow> 'x kproc_scheme \<Rightarrow> bool" where
  "none_stale cid s \<longleftrightarrow> (\<forall>p \<in> set (procs (ptable s)). containerID p = cid \<longrightarrow> pid p \<noteq> 0)"

definition evict :: "int \<Rightarrow> proc \<Rightarrow> proc" where
  "evict cid p = (if containerID p = cid then kill_mark p else p)"

lemma ptab_inv_evict:
  assumes "ptab_inv (ptable s)"
  shows "ptab_inv (ptable (upd_proc i (evict cid) s))"
proof (cases "i < NPROC")
  case True
  have len: "length (procs (ptable s)) = NPROC" using assms by (simp add: ptab_inv_def)
  let ?ps = "(procs (ptable s))[i := evict cid (proc_at i s)]"
  have e: "pid (evict cid p) = pid p" "pstate (evict cid p) = UNUSED \<longleftrightarrow> pstate p = UNUSED" for p
    by (simp_all add: evict_def kill_mark_def)
  have same: "pid (?ps ! j) = pid (proc_at j s)" "pstate (?ps ! j) = UNUSED \<longleftrightarrow> pstate (proc_at j s) = UNUSED" for j
    using e by (auto intro!: nth_update_same [of "\<lambda>p. pstate p = UNUSED"] nth_update_same [of pid])
  have "\<forall>j < NPROC. 0 \<le> pid (?ps ! j) \<and> pid (?ps ! j) < nextpid (ptable s) \<and> (pstate (?ps ! j) \<noteq> UNUSED \<longrightarrow> pid (?ps ! j) \<noteq> 0)"
    using assms len unfolding same by (simp add: ptab_inv_def all_set_conv_all_nth)
  moreover have "\<forall>x < NPROC. \<forall>y < NPROC. pid (?ps ! x) = pid (?ps ! y) \<longrightarrow> pid (?ps ! x) \<noteq> 0 \<longrightarrow> x = y"
    using assms unfolding same by (simp add: ptab_inv_def)
  moreover have "1 \<le> nextpid (ptable s)" using assms by (simp add: ptab_inv_def)
  ultimately show ?thesis
    using len by (simp add: upd_proc_def ptab_inv_def all_set_conv_all_nth)
next
  case False
  then show ?thesis using assms by (simp add: upd_proc_def ptab_inv_def list_update_beyond)
qed

lemma destroy_step:
  assumes "i < NPROC" "cpu_ok u" "unlocked Lk_ptable u" "ptab_inv (ptable u)" "none_stale cid u"
  shows "bnd (gets (\<lambda>s. pid (proc_at i s))) (\<lambda>pd. bnd (gets (\<lambda>s. containerID (proc_at i s) = cid)) (\<lambda>m. whenM m (
      sq (release Lk_ptable) (sq (kill pd) (acquire Lk_ptable))))) (acquired Lk_ptable u) =
    Done () (acquired Lk_ptable (upd_proc i (evict cid) u))"
proof (cases "containerID (proc_at i u) = cid")
  case True
  have len: "length (procs (ptable u)) = NPROC" using assms(4) by (simp add: ptab_inv_def)
  have nz: "pid (proc_at i u) \<noteq> 0" using assms(1,5) True len by (auto simp: none_stale_def)
  have "first_index (\<lambda>p. pid p = pid (proc_at i u)) (procs (ptable u)) = Some i"
    using assms(1) nz len pid_unique [OF assms(4), of _ i]
    by (auto simp: first_index_Some) (metis less_trans nat_neq_iff)
  then have "kill (pid (proc_at i u)) (settled u) = Done 0 (upd_proc i kill_mark (settled u))"
    using assms len by (subst kill_Done) (simp_all add: ptable_ready_def)
  moreover have "upd_proc i kill_mark (settled u) = settled (upd_proc i (evict cid) u)"
    using True by (simp add: upd_proc_procs) (simp add: upd_procs_def evict_def)
  ultimately show ?thesis
    using assms True
    by (simp add: kern_defs release_Done released_acquired)
       (simp add: acquire_Done upd_proc_procs)
next
  case False
  then have "upd_proc i (evict cid) u = u" by (intro upd_proc_id) (simp add: evict_def)
  with False show ?thesis by (simp add: kern_defs)
qed

lemma destroy_loop:
  assumes "ptable_ready s" "ptab_inv (ptable s)" "none_stale cid s" "cid \<noteq> 0"
  shows "for_each [0..<NPROC] (\<lambda>i. bnd (gets (\<lambda>s. pid (proc_at i s))) (\<lambda>pd.
      bnd (gets (\<lambda>s. containerID (proc_at i s) = cid)) (\<lambda>m. whenM m (
        sq (release Lk_ptable) (sq (kill pd) (acquire Lk_ptable)))))) (acquired Lk_ptable s) =
    Done () (acquired Lk_ptable (upd_procs (map (evict cid)) s))"
proof -
  let ?I = "\<lambda>t. \<exists>u. t = acquired Lk_ptable u \<and> cpu_ok u \<and> unlocked Lk_ptable u \<and> ptab_inv (ptable u) \<and> none_stale cid u"
  have keep: "none_stale cid (upd_proc i (evict cid) u)" if "none_stale cid u" for i and u :: "'a kproc_scheme"
    using that assms(4) unfolding none_stale_def upd_proc_def
    by (auto simp: evict_def kill_mark_def dest!: set_update_subset_insert [THEN subsetD])
  have "for_each [0..<NPROC] (\<lambda>i. bnd (gets (\<lambda>s. pid (proc_at i s))) (\<lambda>pd.
      bnd (gets (\<lambda>s. containerID (proc_at i s) = cid)) (\<lambda>m. whenM m (
        sq (release Lk_ptable) (sq (kill pd) (acquire Lk_ptable)))))) (acquired Lk_ptable s) =
    Done () (upd_procs (map (evict cid)) (acquired Lk_ptable s))"
  proof (rule for_each_slots_inv [where I = ?I])
    fix i and t :: "'a kproc_scheme"
    assume i: "i < NPROC" and "?I t"
    then obtain u where t: "t = acquired Lk_ptable u" and u: "cpu_ok u" "unlocked Lk_ptable u"
      "ptab_inv (ptable u)" "none_stale cid u" by blast
    have e: "upd_proc i (evict cid) (acquired Lk_ptable u) = acquired Lk_ptable (upd_proc i (evict cid) u)"
      by (simp add: upd_proc_procs)
    have "cpu_ok (upd_proc i (evict cid) u)" "unlocked Lk_ptable (upd_proc i (evict cid) u)"
      using u by (simp_all add: upd_proc_procs)
    then show "bnd (gets (\<lambda>s. pid (proc_at i s))) (\<lambda>pd. bnd (gets (\<lambda>s. containerID (proc_at i s) = cid)) (\<lambda>m. whenM m (
        sq (release Lk_ptable) (sq (kill pd) (acquire Lk_ptable))))) t = Done () (upd_proc i (evict cid) t) \<and>
        ?I (upd_proc i (evict cid) t)"
      using destroy_step [OF i u] ptab_inv_evict [OF u(3)] keep [OF u(4)] unfolding t e by blast
  qed (use assms in \<open>auto simp: ptable_ready_def\<close>)
  then show ?thesis by simp
qed

lemma destroyContainer_Done:
  assumes "ptable_ready s" "ptab_inv (ptable s)" "none_stale cid s" "0 < cid" "cid < int NCONT" "unlocked Lk_ctable s"
  shows "destroyContainer cid s = Done () (upd_procs (map (evict cid))
    ((settled s)\<lparr>ctable := set_used (nat cid) False (ctable s)\<rparr>))"
proof -
  let ?t = "(settled s)\<lparr>ctable := set_used (nat cid) False (ctable s)\<rparr>"
  have "ptable_ready ?t" using assms(1) by (simp add: ptable_ready_def)
  moreover have "none_stale cid ?t" using assms(3) by (simp add: none_stale_def)
  ultimately have "for_each [0..<NPROC] (\<lambda>i. bnd (gets (\<lambda>s. pid (proc_at i s))) (\<lambda>pd.
      bnd (gets (\<lambda>s. containerID (proc_at i s) = cid)) (\<lambda>m. whenM m (
        sq (release Lk_ptable) (sq (kill pd) (acquire Lk_ptable)))))) (acquired Lk_ptable ?t) =
    Done () (acquired Lk_ptable (upd_procs (map (evict cid)) ?t))"
    using assms by (intro destroy_loop) simp_all
  moreover have "upd_con (nat cid) (\<lambda>c. c\<lparr>con_state := CUNUSED\<rparr>) (acquired Lk_ctable s)
      \<lparr>ctable := (ctable (upd_con (nat cid) (\<lambda>c. c\<lparr>con_state := CUNUSED\<rparr>) (acquired Lk_ctable s)))
        \<lparr>containers := (containers (ctable (upd_con (nat cid) (\<lambda>c. c\<lparr>con_state := CUNUSED\<rparr>) (acquired Lk_ctable s))))[nat cid := 0]\<rparr>\<rparr>
      = (acquired Lk_ctable s)\<lparr>ctable := set_used (nat cid) False (ctable s)\<rparr>"
    by (simp add: upd_con_def set_used_def)
  ultimately show ?thesis
    using assms
    by (simp add: destroyContainer_def kern_defs ptable_ready_def acquire_Done release_Done released_acquired
        del: upd_procs_frame(7))
qed

subsection \<open>Container memory\<close>

definition popped_kmem :: "'x kmach_scheme \<Rightarrow> kmem" where
  "popped_kmem s = (if freelist (kmem s) = 0 then kmem s
     else (kmem s)\<lparr>freelist := load32 (ram s) (freelist (kmem s))\<rparr>)"

lemma popped_kmem_acquired [simp]: "popped_kmem (acquired lk s) = popped_kmem s"
  by (simp add: popped_kmem_def)

lemma popped_page_kmem: "popped_page s = s\<lparr>kmem := popped_kmem s\<rparr>"
  by (simp add: popped_page_def popped_kmem_def)

lemma runs_kalloc_nested:
  "kmem_ready s \<Longrightarrow> 0 < depth s \<Longrightarrow> runs kalloc s Q \<longleftrightarrow> Q (freelist (kmem s)) (s\<lparr>kmem := popped_kmem s\<rparr>)"
  by (simp add: runs_def kalloc_Done tidy_def settled_nested kmem_ready_def popped_page_kmem)

lemma runs_cprintf_nested:
  "cons_ready s \<Longrightarrow> 0 < depth s \<Longrightarrow> fmt_text fmt as = Some str \<Longrightarrow>
   runs (cprintf fmt as) s Q \<longleftrightarrow> Q () (printed str s)"
  by (simp add: runs_def cprintf_nested)

definition malloc_con :: "nat \<Rightarrow> int \<Rightarrow> int \<Rightarrow> uint \<Rightarrow> ctab \<Rightarrow> ctab" where
  "malloc_con c nb pd a ct = ct\<lparr>container := (container ct)[c := (let k = container ct ! c; n = nat (pg_next (pgTable k)) in
     k\<lparr>nextGVA := int32 (nextGVA k + nb),
       pgTable := (pgTable k)\<lparr>pg_next := int32 (pg_next (pgTable k) + 1),
         page := (page (pgTable k))[n := \<lparr>GVA = nextGVA k, HVA = a, pg_pid = pd\<rparr>]\<rparr>\<rparr>)]\<rparr>"

lemma ctab_inv_malloc_con: "ctab_inv ct \<Longrightarrow> c < NCONT \<Longrightarrow> ctab_inv (malloc_con c nb pd a ct)"
  by (auto simp: ctab_inv_def malloc_con_def Let_def nth_list_update)

text \<open>What a caller of \<^verbatim>\<open>container_malloc\<close> must have, with \<open>pages\<close> the free pages.\<close>

definition malloc_ready :: "nat \<Rightarrow> uint list \<Rightarrow> 'x kproc_scheme \<Rightarrow> bool" where
  "malloc_ready c pages s \<longleftrightarrow> ctable_ready s \<and> kmem_ready s \<and> kmem_inv s pages \<and> cons_ready s \<and> c < NCONT \<and>
     (\<exists>p. cur s = Some p \<and> containerID (proc_at p s) = int c)"

lemma curproc_nested: "cpu_ok s \<Longrightarrow> 0 < depth s \<Longrightarrow> cur s = Some p \<Longrightarrow> curproc s = Done p s"
  by (simp add: curproc_Done settled_nested)

text \<open>The state a matching slot leaves: the table entry, one page less, possibly some output.\<close>

lemma malloc_slot_other:
  assumes "cpu_ok t" "0 < depth t" "cur t = Some p" "con_id (con_at i t) \<noteq> containerID (proc_at p t)"
  shows "container_malloc_slot nb pd i t = Done () t"
  using assms by (simp add: container_malloc_slot_def kern_defs curproc_nested)

lemma upd_con_ctable: "upd_con i f s = s\<lparr>ctable := (ctable s)\<lparr>container := (container (ctable s))[i := f (con_at i s)]\<rparr>\<rparr>"
  by (simp add: upd_con_def)

lemma pgElement_all: "e\<lparr>GVA := g, HVA := h, pg_pid := p\<rparr> = \<lparr>GVA = g, HVA = h, pg_pid = p\<rparr>" for e :: pgElement
  by (cases e) simp

lemma malloc_slot_own:
  assumes ok: "cpu_ok u" "0 < depth u" and p: "cur u = Some p" "con_id (con_at c u) = containerID (proc_at p u)"
    and m: "kmem_ready u" "cons_ready u" and c: "c < length (container (ctable u))"
    and n: "pg_next (pgTable (con_at c u)) = int n" "n < NPAGE" "n < length (page (pgTable (con_at c u)))"
  shows "runs (container_malloc_slot nb pd c) u (\<lambda>_ t. \<exists>str.
    t = printed str (u\<lparr>kmem := popped_kmem u, ctable := malloc_con c nb pd (freelist (kmem u)) (ctable u)\<rparr>))"
proof -
  let ?a = "freelist (kmem u)"
  have f1: "fmt_text (''%d  %p'' @ [CHR 0x0A]) [Arg g, Arg (uint a)] =
      Some (dec_text g @ ''  '' @ printint_chars console_digits (uint a) 16 False @ [CHR 0x0A])" for g and a :: uint
    by (simp add: dec_text_def)
  have f2: "fmt_text (''%d'' @ [CHR 0x0A]) [Arg pd] = Some (dec_text pd @ [CHR 0x0A])"
    by (simp add: dec_text_def)
  define v where "v = u\<lparr>kmem := popped_kmem u, ctable := malloc_con c nb pd ?a (ctable u)\<rparr>"
  have v: "cons_ready v" "0 < depth v" using m ok by (simp_all add: v_def cons_ready_def)
  define w where "w = upd_page c n (\<lambda>e. e\<lparr>GVA := nextGVA (con_at c u)\<rparr>)
    (upd_con c (\<lambda>c. c\<lparr>pgTable := (pgTable c)\<lparr>pg_next := int32 (pg_next (pgTable c) + 1)\<rparr>\<rparr>)
      (upd_con c (\<lambda>c. c\<lparr>nextGVA := int32 (nextGVA c + nb)\<rparr>) u))"
  have w: "kmem_ready w" "0 < depth w" "kmem w = kmem u" "popped_kmem w = popped_kmem u"
    using m ok by (simp_all add: w_def upd_page_def upd_con_ctable kmem_ready_def popped_kmem_def)
  have e: "upd_page c n (\<lambda>e. e\<lparr>pg_pid := pd\<rparr>) (upd_page c n (\<lambda>e. e\<lparr>HVA := ?a\<rparr>) (w\<lparr>kmem := popped_kmem u\<rparr>)) = v"
    using c n by (simp add: w_def v_def upd_page_def upd_con_ctable malloc_con_def Let_def pgElement_all)
  have "runs (sq (cprintf (''%d  %p'' @ [CHR 0x0A]) [Arg g, Arg (uint ?a)])
      (cprintf (''%d'' @ [CHR 0x0A]) [Arg pd])) v (\<lambda>_ t. \<exists>str. t = printed str v)" for g
  proof -
    define v' where "v' = printed (dec_text g @ ''  '' @ printint_chars console_digits (uint ?a) 16 False @ [CHR 0x0A]) v"
    have v': "cons_ready v'" "0 < depth v'" using v by (simp_all add: v'_def)
    have "cprintf (''%d  %p'' @ [CHR 0x0A]) [Arg g, Arg (uint ?a)] v = Done () v'"
      unfolding v'_def using v f1 by (rule cprintf_nested)
    moreover have "cprintf (''%d'' @ [CHR 0x0A]) [Arg pd] v' = Done () (printed (dec_text pd @ [CHR 0x0A]) v')"
      using v' f2 by (rule cprintf_nested)
    ultimately show ?thesis
      by (simp only: runs_sq runs_Done) (auto simp only: v'_def printed_printed)
  qed
  moreover have "\<exists>str. v = printed str v" by (rule exI [of _ "[]"]) simp
  ultimately show ?thesis
    unfolding container_malloc_slot_def v_def [symmetric]
    using ok p n w e
    by (simp add: kern runs_curproc settled_nested flip: w_def) (simp add: runs_kalloc_nested)
qed

lemma runs_container_malloc:
  assumes "malloc_ready c pages s" "0 \<le> pg_next (pgTable (con_at c s))" "pg_next (pgTable (con_at c s)) < int NPAGE"
  shows "runs (container_malloc nb pd) s (\<lambda>_ t. ctable t = malloc_con c nb pd (if pages = [] then 0 else hd pages) (ctable s) \<and>
    malloc_ready c (tl pages) t \<and> ptable t = ptable s)"
proof -
  from assms(1) obtain p where rdy: "ctable_ready s" "kmem_ready s" "kmem_inv s pages" "cons_ready s" "c < NCONT"
    and p: "cur s = Some p" "containerID (proc_at p s) = int c" by (auto simp: malloc_ready_def)
  let ?u = "acquired Lk_ctable s"
  have ok: "cpu_ok s" "unlocked Lk_ctable s" "ctab_inv (ctable s)" using rdy by (auto simp: ctable_ready_def)
  have ids: "con_id (con_at i s) = int i" if "i < NCONT" for i using ok that by (auto simp: ctab_inv_def)
  have len: "c < length (container (ctable s))" "length (page (pgTable (con_at c s))) = NPAGE"
    using ok rdy by (auto simp: ctab_inv_def)
  define n where "n = nat (pg_next (pgTable (con_at c s)))"
  have n: "pg_next (pgTable (con_at c s)) = int n" "n < NPAGE"
    using assms(2,3) by (simp_all add: n_def nat_less_iff)
  have fl: "freelist (kmem s) = (if pages = [] then 0 else hd pages)"
    using rdy(3) by (cases pages) (auto simp: kmem_inv_def)
  let ?v = "\<lambda>u. u\<lparr>kmem := popped_kmem s, ctable := malloc_con c nb pd (freelist (kmem s)) (ctable s)\<rparr>"
  have loop: "runs (for_each [0..<NCONT] (container_malloc_slot nb pd)) ?u (\<lambda>_ t. \<exists>str. t = printed str (?v ?u))"
  proof (rule runs_for_each_one [where I = "\<lambda>t. cpu_ok t \<and> 0 < depth t \<and> cur t = Some p \<and>
      ptable t = ptable s \<and> (\<forall>i < NCONT. con_id (con_at i t) = int i)"])
    have "ctab_inv (malloc_con c nb pd (freelist (kmem s)) (ctable s))"
      using ok(3) rdy(5) by (rule ctab_inv_malloc_con)
    then have "\<forall>i < NCONT. con_id (container (malloc_con c nb pd (freelist (kmem s)) (ctable s)) ! i) = int i"
      by (simp add: ctab_inv_def)
    moreover have "cur (printed str (?v ?u)) = Some p" for str
      using ok p by simp
    moreover have "runs (container_malloc_slot nb pd c) ?u (\<lambda>_ t. \<exists>str. t = printed str (?v ?u))"
      using ok p rdy ids [of c] len n malloc_slot_own [of ?u p c n nb pd]
      by (simp add: kmem_ready_def)
    ultimately show "runs (container_malloc_slot nb pd c) ?u (\<lambda>_ t. (cpu_ok t \<and> 0 < depth t \<and> cur t = Some p \<and>
        ptable t = ptable s \<and> (\<forall>i < NCONT. con_id (con_at i t) = int i)) \<and> (\<exists>str. t = printed str (?v ?u)))"
      using ok by (auto elim!: runs_weaken)
  qed (use ok p rdy ids in \<open>auto intro: malloc_slot_other\<close>)
  have fin: "malloc_ready c (tl pages) (printed str (?v (settled s)))" for str
  proof -
    have "kmem_inv (popped_page s) (tl pages)"
      using rdy(3) fl kmem_inv_popped [of s "hd pages" "tl pages"] by (cases pages) (auto simp: popped_page_def)
    then have "kmem_inv (printed str (?v (settled s))) (tl pages)"
      by (simp add: popped_page_kmem kmem_inv_def printed_def)
    moreover have "kmem_ready (printed str (?v (settled s)))"
      using rdy(2) by (simp add: kmem_ready_def printed_def popped_kmem_def)
    moreover have "cur (printed str (?v (settled s))) = Some p"
      using ok p by simp
    ultimately show ?thesis
      using rdy p ok ctab_inv_malloc_con [OF ok(3) rdy(5)]
      by (simp add: malloc_ready_def ctable_ready_def cons_ready_def)
  qed
  have "runs (container_malloc nb pd) s (\<lambda>_ t. \<exists>str. t = printed str (?v (settled s)))"
    unfolding container_malloc_def using ok loop
    by (auto simp: kern released_acquired elim!: runs_weaken)
  then show ?thesis
    by (rule runs_weaken) (use fin fl in auto)
qed

lemma container_malloc_Undef:
  assumes "malloc_ready c pages s" "int NPAGE \<le> pg_next (pgTable (con_at c s))"
  shows "container_malloc nb pd s = Undef ''write past the container page table''"
proof -
  from assms(1) obtain p where rdy: "ctable_ready s" "c < NCONT"
    and p: "cur s = Some p" "containerID (proc_at p s) = int c" by (auto simp: malloc_ready_def)
  have ids: "con_id (con_at i s) = int i" if "i < NCONT" for i
    using rdy that by (auto simp: ctable_ready_def ctab_inv_def)
  let ?u = "acquired Lk_ctable s"
  have ok: "cpu_ok s" "unlocked Lk_ctable s" using rdy by (auto simp: ctable_ready_def)
  have "for_each [0..<c] (container_malloc_slot nb pd) ?u = Done () ?u"
    using ok rdy p ids by (intro for_each_skip malloc_slot_other [of _ p]) auto
  moreover have "container_malloc_slot nb pd c ?u = Undef ''write past the container page table''"
    using ok rdy p ids [of c] assms(2)
    by (simp add: container_malloc_slot_def kern_defs curproc_nested)
  moreover have "[0..<NCONT] = [0..<c] @ c # [Suc c..<NCONT]"
    using rdy(2) by (metis le_add1 less_imp_le_nat upt_add_eq_append upt_conv_Cons add_diff_inverse_nat not_less plus_nat.add_0)
  ultimately show ?thesis
    using ok by (simp add: container_malloc_def for_each_append kern_defs acquire_Done)
qed

subsection \<open>Properties\<close>

text \<open>
  C30. createContainer returns the smallest container number other than 0 that is not in use, marks it
  in use and waiting, and changes no other container; when all 19 are in use it returns -1 and changes
  nothing. The table invariant is kept and the lock is released.
\<close>

theorem createContainer_smallest_free:
  assumes "ctable_ready s" "cons_ready s"
  shows "runs createContainer s (\<lambda>r t. ctable_ready t \<and>
    (if \<exists>i < NCONT. i \<noteq> 0 \<and> containers (ctable s) ! i = 0
     then (\<exists>i < NCONT. r = int i \<and> i \<noteq> 0 \<and> containers (ctable s) ! i = 0 \<and>
       (\<forall>j < i. j \<noteq> 0 \<longrightarrow> containers (ctable s) ! j \<noteq> 0) \<and> ctable t = set_used i True (ctable s))
     else r = - 1 \<and> ctable t = ctable s))"
proof (cases "find (\<lambda>i. containers (ctable s) ! i = 0 \<and> i \<noteq> 0) [0..<NCONT]")
  case None
  then have "\<not> (\<exists>i < NCONT. i \<noteq> 0 \<and> containers (ctable s) ! i = 0)" by (auto simp: find_None_iff)
  with None show ?thesis
    using assms by (auto simp: runs_def createContainer_Done ctable_ready_def)
next
  case (Some i)
  then have i: "i < NCONT" "i \<noteq> 0" "containers (ctable s) ! i = 0" "\<forall>j < i. j \<noteq> 0 \<longrightarrow> containers (ctable s) ! j \<noteq> 0"
    by (auto simp: find_Some_iff)
  then show ?thesis
    using assms Some ctab_inv_set_used [of "ctable s" i True]
    by (auto simp: runs_def createContainer_Done ctable_ready_def)
qed



lemma gtcid_Done:
  assumes "cpu_ok s" "ptab_inv (ptable s)" "cur s = Some p" "p < NPROC" "pid (proc_at p s) \<noteq> 0"
  shows "gtcid s = Done (containerID (proc_at p s)) (settled s)"
proof -
  have "first_index (\<lambda>q. pid q = pid (proc_at p s)) (procs (ptable s)) = Some p"
    using assms pid_unique [OF assms(2), of _ p]
    by (auto simp: first_index_Some ptab_inv_def) (metis less_trans nat_neq_iff)
  then show ?thesis using assms by (simp add: gtcid_def kern_defs curproc_Done)
qed

text \<open>
  C32. Joining and leaving a container. After addProcessToContainer with the pid of the current process,
  getting the container id returns the container joined, and the process table differs only in that
  process; removeProcessFromContainer then puts it back into container 0.
\<close>

theorem join_leave_container:
  assumes "ptable_ready s" "cons_ready s" "ptab_inv (ptable s)" "cur s = Some p" "p < NPROC"
    "pid (proc_at p s) = pd" "pd \<noteq> 0"
  shows "runs (bnd (sq (addProcessToContainer pd cid) gtcid) (\<lambda>a.
      bnd (sq (removeProcessFromContainer pd) gtcid) (\<lambda>b. ret (a, b)))) s
    (\<lambda>(a, b) t. a = cid \<and> b = 0 \<and> procs (ptable t) = (procs (ptable s))[p := (proc_at p s)\<lparr>containerID := 0\<rparr>])"
proof -
  have len: "length (procs (ptable s)) = NPROC" using assms(1) by (simp add: ptable_ready_def)
  define g where "g = (\<lambda>n (p :: proc). if pid p = pd then p\<lparr>containerID := n\<rparr> else p)"
  have inv: "ptab_inv ((ptable u)\<lparr>procs := map (g n) (procs (ptable u))\<rparr>)" if "ptab_inv (ptable u)" for n and u :: "'a kproc_scheme"
    using that by (rule ptab_inv_map) (simp add: g_def)
  have "map (g 0) (map (g cid) (procs (ptable s))) = map (g 0) (procs (ptable s))" by (simp add: g_def)
  also have "\<dots> = (procs (ptable s))[p := (proc_at p s)\<lparr>containerID := 0\<rparr>]"
    using arg_cong [OF upd_slot_by_pid [OF assms(3,5,6,7), of "\<lambda>p. p\<lparr>containerID := 0\<rparr>"], of "\<lambda>s. procs (ptable s)"]
    by (simp add: upd_proc_procs g_def)
  finally have maps: "map (g 0) (map (g cid) (procs (ptable s))) = (procs (ptable s))[p := (proc_at p s)\<lparr>containerID := 0\<rparr>]" .
  have leave: "runs (sq (removeProcessFromContainer pd) gtcid) t
      (\<lambda>b u. b = 0 \<and> procs (ptable u) = (procs (ptable s))[p := (proc_at p s)\<lparr>containerID := 0\<rparr>])"
    if t: "ptable_ready t" "ptable t = (ptable s)\<lparr>procs := map (g cid) (procs (ptable s))\<rparr>" "cur t = Some p" for t :: "'a kproc_scheme"
  proof -
    let ?u = "upd_procs (map (g 0)) (settled t)"
    have "removeProcessFromContainer pd t = Done () ?u"
      using removeProcess_Done [OF t(1), of pd] by (simp add: g_def)
    moreover have pu: "ptab_inv (ptable ?u)" using inv [of t 0] inv [of s cid] assms(3) t(2) by (simp add: upd_procs_def)
    moreover have "gtcid ?u = Done (containerID (proc_at p ?u)) (settled ?u)"
      using t assms(5-7) len pu by (intro gtcid_Done) (auto simp: ptable_ready_def g_def)
    moreover have "containerID (g 0 (g cid (proc_at p s))) = 0" using assms(6) by (simp add: g_def)
    ultimately show ?thesis
      using maps t(2) assms(5) len by (simp add: runs_def kern_defs)
  qed
  have join: "runs gtcid t (\<lambda>a u. a = cid \<and> ptable_ready u \<and> ptable u = ptable t \<and> cur u = Some p)"
    if t: "ptable_ready t" "ptable t = (ptable s)\<lparr>procs := map (g cid) (procs (ptable s))\<rparr>" "cur t = Some p" for t :: "'a kproc_scheme"
  proof -
    have "gtcid t = Done (containerID (proc_at p t)) (settled t)"
      using t assms(3,5-7) len inv [of s cid] by (intro gtcid_Done) (auto simp: ptable_ready_def g_def)
    then show ?thesis using t assms(5,6) len by (simp add: runs_def ptable_ready_def g_def)
  qed
  have "runs (addProcessToContainer pd cid) s (\<lambda>_ t. ptable_ready t \<and> cur t = Some p \<and>
      ptable t = (ptable s)\<lparr>procs := map (g cid) (procs (ptable s))\<rparr>)"
    using runs_addProcess [OF assms(1,2), of pd cid] assms(4) by (auto simp: g_def elim!: runs_weaken)
  then have "runs (sq (addProcessToContainer pd cid) gtcid) s (\<lambda>a u. a = cid \<and> ptable_ready u \<and>
      ptable u = (ptable s)\<lparr>procs := map (g cid) (procs (ptable s))\<rparr> \<and> cur u = Some p)"
    unfolding runs_sq by (rule runs_weaken) (use join in \<open>auto elim!: runs_weaken\<close>)
  then show ?thesis
    unfolding runs_bnd by (rule runs_weaken) (use leave in \<open>auto simp: runs_ret elim!: runs_weaken\<close>)
qed

text \<open>
  C33. psHelper prints one line for each live process of the given container, in table order, and
  nothing else, and releases the lock it took.
\<close>

theorem ps_lists_container:
  assumes "ptable_ready s" "cons_ready s" "uart (cons s)"
  shows "runs (psHelper pd cid) s (\<lambda>_ t. uart_sent (cons t) = uart_sent (cons s) @ map of_char (concat
      (map ps_line (filter (\<lambda>p. containerID p = cid \<and> pstate p \<noteq> UNUSED) (procs (ptable s))))) \<and>
    ptable t = ptable s \<and> ptable_ready t \<and> cons_ready t)"
  using assms by (auto simp: runs_def psHelper_Done ptable_ready_def cons_ready_def)

text \<open>
  C34. listContainersHelper returns with the process-table lock still held and interrupts off, so the next
  acquire of that lock on the same processor panics: any later sleep, wakeup, fork, kill or
  timer-driven yield brings the kernel down.
\<close>

theorem listContainers_leaks_lock:
  assumes "ptable_ready s" "cons_ready s"
  shows "runs listContainersHelper s (\<lambda>_ t. held Lk_ptable t \<and> \<not> hw_if t \<and> depth t = depth s + 1 \<and>
    acquire Lk_ptable t = Panic ''acquire'' \<and> wakeup ch t = Panic ''acquire'' \<and> kill pd t = Panic ''acquire'' \<and>
    yield t = Panic ''acquire'')"
proof -
  let ?t = "printed (concat (map list_line (procs (ptable s)))) (acquired Lk_ptable s)"
  have ok: "cpu_ok ?t" "held Lk_ptable ?t" "0 < depth ?t" using assms by (auto simp: ptable_ready_def)
  then have "acquire Lk_ptable ?t = Panic ''acquire''" by (intro acquire_Panic)
  moreover have "\<not> hw_if ?t" using ok by (meson cpu_okE)
  ultimately show ?thesis
    using assms ok
    by (simp add: runs_def listContainersHelper_Done wakeup_def kill_def yield_def kern_defs ptable_ready_def)
qed

definition malloc_all :: "(int \<times> int) list \<Rightarrow> ('x kproc_scheme, unit) kern" where
  "malloc_all reqs = for_each reqs (\<lambda>(nb, pd). container_malloc nb pd)"

lemma malloc_con_sel:
  fixes a :: uint and pd :: int
  assumes "c < length (container ct)" "pg_next (pgTable (container ct ! c)) = int n"
    "n < length (page (pgTable (container ct ! c)))" "is_int32 (nextGVA (container ct ! c) + nb)" "n < NPAGE"
  defines "k \<equiv> container (malloc_con c nb pd a ct) ! c"
  shows "pg_next (pgTable k) = int (Suc n)" "nextGVA k = nextGVA (container ct ! c) + nb"
    "page (pgTable k) = (page (pgTable (container ct ! c)))[n := \<lparr>GVA = nextGVA (container ct ! c), HVA = a, pg_pid = pd\<rparr>]"
proof -
  have "is_int32 (int n + 1)" using assms(5) by (simp add: is_int32_def NPAGE_def)
  then show "pg_next (pgTable k) = int (Suc n)" "nextGVA k = nextGVA (container ct ! c) + nb"
    "page (pgTable k) = (page (pgTable (container ct ! c)))[n := \<lparr>GVA = nextGVA (container ct ! c), HVA = a, pg_pid = pd\<rparr>]"
    using assms by (simp_all add: malloc_con_def Let_def)
qed

text \<open>
  C22. A sequence of container_malloc calls hands out consecutive guest ranges: while the table has room
  and pages last, the \<open>k\<close>-th request is recorded with the guest address that follows the previous
  request, a host page of its own and the requesting pid.
\<close>

theorem container_malloc_consecutive:
  assumes "malloc_ready c pages s" "pg_next (pgTable (con_at c s)) = int n" "n + length reqs \<le> NPAGE"
    "length reqs \<le> length pages"
    "\<forall>k \<le> length reqs. is_int32 (nextGVA (con_at c s) + sum_list (map fst (take k reqs)))"
  shows "runs (malloc_all reqs) s (\<lambda>_ t. malloc_ready c (drop (length reqs) pages) t \<and>
    pg_next (pgTable (con_at c t)) = int (n + length reqs) \<and>
    (\<forall>j < n. page (pgTable (con_at c t)) ! j = page (pgTable (con_at c s)) ! j) \<and>
    (\<forall>k < length reqs. page (pgTable (con_at c t)) ! (n + k) =
       \<lparr>GVA = nextGVA (con_at c s) + sum_list (map fst (take k reqs)), HVA = pages ! k, pg_pid = snd (reqs ! k)\<rparr>))"
  using assms
proof (induction reqs arbitrary: s n pages)
  case Nil
  then show ?case by (simp add: malloc_all_def kern)
next
  case (Cons r reqs)
  obtain nb pd where r: "r = (nb, pd)" by (cases r)
  obtain pg rest where pg: "pages = pg # rest" using Cons.prems(4) by (cases pages) auto
  have c: "c < length (container (ctable s))" "length (page (pgTable (con_at c s))) = NPAGE"
    using Cons.prems(1) by (auto simp: malloc_ready_def ctable_ready_def ctab_inv_def)
  have i32: "is_int32 (nextGVA (con_at c s) + nb)" using Cons.prems(5) [rule_format, of 1] r by simp
  note sel = malloc_con_sel [of c "ctable s" n nb pd pg, OF c(1) Cons.prems(2) _ i32]
  have step: "runs (container_malloc nb pd) s (\<lambda>_ t. ctable t = malloc_con c nb pd pg (ctable s) \<and> malloc_ready c rest t)"
    using runs_container_malloc [OF Cons.prems(1), of nb pd] Cons.prems(2,3) pg
    by (auto elim!: runs_weaken)
  have "runs (container_malloc nb pd) s (\<lambda>_ t. runs (malloc_all reqs) t (\<lambda>_ u.
      malloc_ready c (drop (length (r # reqs)) pages) u \<and>
      pg_next (pgTable (con_at c u)) = int (n + length (r # reqs)) \<and>
      (\<forall>j < n. page (pgTable (con_at c u)) ! j = page (pgTable (con_at c s)) ! j) \<and>
      (\<forall>k < length (r # reqs). page (pgTable (con_at c u)) ! (n + k) =
        \<lparr>GVA = nextGVA (con_at c s) + sum_list (map fst (take k (r # reqs))), HVA = pages ! k, pg_pid = snd ((r # reqs) ! k)\<rparr>)))"
    using step
  proof (rule runs_weaken, elim conjE)
    fix t :: "'a kproc_scheme"
    assume t: "ctable t = malloc_con c nb pd pg (ctable s)" "malloc_ready c rest t"
    have st: "pg_next (pgTable (con_at c t)) = int (Suc n)" "nextGVA (con_at c t) = nextGVA (con_at c s) + nb"
      "page (pgTable (con_at c t)) = (page (pgTable (con_at c s)))[n := \<lparr>GVA = nextGVA (con_at c s), HVA = pg, pg_pid = pd\<rparr>]"
      using sel c Cons.prems(3) t(1) by auto
    have "\<forall>k \<le> length reqs. is_int32 (nextGVA (con_at c t) + sum_list (map fst (take k reqs)))"
    proof (intro allI impI)
      fix k assume "k \<le> length reqs"
      then show "is_int32 (nextGVA (con_at c t) + sum_list (map fst (take k reqs)))"
        using Cons.prems(5) [rule_format, of "Suc k"] st(2) r by (simp add: add.assoc)
    qed
    then have "runs (malloc_all reqs) t (\<lambda>_ u. malloc_ready c (drop (length reqs) rest) u \<and>
      pg_next (pgTable (con_at c u)) = int (Suc n + length reqs) \<and>
      (\<forall>j < Suc n. page (pgTable (con_at c u)) ! j = page (pgTable (con_at c t)) ! j) \<and>
      (\<forall>k < length reqs. page (pgTable (con_at c u)) ! (Suc n + k) =
        \<lparr>GVA = nextGVA (con_at c t) + sum_list (map fst (take k reqs)), HVA = rest ! k, pg_pid = snd (reqs ! k)\<rparr>))"
      using Cons.prems(3,4) pg by (intro Cons.IH [OF t(2) st(1)]) auto
    then show "runs (malloc_all reqs) t (\<lambda>_ u.
      malloc_ready c (drop (length (r # reqs)) pages) u \<and>
      pg_next (pgTable (con_at c u)) = int (n + length (r # reqs)) \<and>
      (\<forall>j < n. page (pgTable (con_at c u)) ! j = page (pgTable (con_at c s)) ! j) \<and>
      (\<forall>k < length (r # reqs). page (pgTable (con_at c u)) ! (n + k) =
        \<lparr>GVA = nextGVA (con_at c s) + sum_list (map fst (take k (r # reqs))), HVA = pages ! k, pg_pid = snd ((r # reqs) ! k)\<rparr>))"
    proof (rule runs_weaken, elim conjE, intro conjI allI impI)
      fix u :: "'a kproc_scheme" and k
      assume old: "\<forall>j < Suc n. page (pgTable (con_at c u)) ! j = page (pgTable (con_at c t)) ! j"
        and new: "\<forall>k < length reqs. page (pgTable (con_at c u)) ! (Suc n + k) =
          \<lparr>GVA = nextGVA (con_at c t) + sum_list (map fst (take k reqs)), HVA = rest ! k, pg_pid = snd (reqs ! k)\<rparr>"
      show "page (pgTable (con_at c u)) ! k = page (pgTable (con_at c s)) ! k" if "k < n"
        using old that st(3) by simp
      show "page (pgTable (con_at c u)) ! (n + k) =
          \<lparr>GVA = nextGVA (con_at c s) + sum_list (map fst (take k (r # reqs))), HVA = pages ! k, pg_pid = snd ((r # reqs) ! k)\<rparr>"
        if "k < length (r # reqs)"
        using that old new st(2,3) c(2) Cons.prems(3) r pg by (cases k) (auto simp: add.assoc)
    qed (use pg in auto)
  qed
  then show ?case by (simp add: malloc_all_def kern r)
qed


subsection \<open>Witnesses\<close>

lemma demo_ctab: "ctab_inv (ctable demo)" "containers (ctable demo) = replicate 20 0"
  "container (ctable demo) = map blank_container [0..<20]"
  by (simp_all add: ctab_inv_def demo_def blank_container_def NCONT_def NPAGE_def)

lemma demo_con_at: "c < 20 \<Longrightarrow> con_at c demo = blank_container c"
  by (simp add: demo_ctab)

lemma demo_cons: "cons_ready demo" "uart (cons demo)" "uart_sent (cons demo) = []"
  using demo_cpu by (simp_all add: cons_ready_def cons_ok_def) (simp_all add: demo_def)

lemma demo_ctable_ready: "ctable_ready demo"
  using demo_cpu demo_ctab by (simp add: ctable_ready_def)

lemma demo_malloc: "malloc_ready 0 [0x80200000] demo"
  using demo_ctable_ready demo_ready demo_cons demo_cpu
  by (simp add: malloc_ready_def NCONT_def demo_sel demo_procs_def blank_proc_def)

theorem createContainer_smallest_free_witness:
  "runs createContainer demo (\<lambda>r t. r = 1 \<and> con_state (con_at 1 t) = CWAITING)"
proof (rule runs_weaken [OF createContainer_smallest_free [OF demo_ctable_ready demo_cons(1)]], elim conjE)
  fix r :: int and t :: kproc
  assume a: "if \<exists>i < NCONT. i \<noteq> 0 \<and> containers (ctable demo) ! i = 0
     then (\<exists>i < NCONT. r = int i \<and> i \<noteq> 0 \<and> containers (ctable demo) ! i = 0 \<and>
       (\<forall>j < i. j \<noteq> 0 \<longrightarrow> containers (ctable demo) ! j \<noteq> 0) \<and> ctable t = set_used i True (ctable demo))
     else r = - 1 \<and> ctable t = ctable demo"
  have "1 < NCONT" "containers (ctable demo) ! 1 = 0" by (simp_all add: NCONT_def demo_ctab)
  with a obtain i where i: "i < NCONT" "r = int i" "i \<noteq> 0" "ctable t = set_used i True (ctable demo)"
    "\<forall>j < i. j \<noteq> 0 \<longrightarrow> containers (ctable demo) ! j \<noteq> 0" by (metis One_nat_def n_not_Suc_n)
  then have "i = 1" by (metis One_nat_def \<open>containers (ctable demo) ! 1 = 0\<close> gr0I less_one linorder_neqE_nat zero_neq_one)
  with i show "r = 1 \<and> con_state (con_at 1 t) = CWAITING"
    by (simp add: set_used_def demo_ctab)
qed

definition demo_joined :: kproc where
  "demo_joined = upd_proc 1 (\<lambda>p. p\<lparr>containerID := 3\<rparr>) demo"



theorem join_leave_container_witness:
  "runs (bnd (sq (addProcessToContainer 1 5) gtcid) (\<lambda>a.
      bnd (sq (removeProcessFromContainer 1) gtcid) (\<lambda>b. ret (a, b)))) demo (\<lambda>(a, b) t. a = 5 \<and> b = 0)"
  by (rule runs_weaken [OF join_leave_container [OF demo_ready(1) demo_cons(1) demo_pids demo_cpu(3)]])
     (auto simp: NPROC_def demo_sel, simp add: demo_procs_def)

theorem ps_lists_container_witness:
  "runs (psHelper 1 0) demo (\<lambda>_ t. uart_sent (cons t) =
     map of_char (''pid:1 name: Container:0'' @ [CHR 0x0A] @ ''pid:2 name: Container:0'' @ [CHR 0x0A]))"
proof -
  have "map ps_line (filter (\<lambda>p. containerID p = 0 \<and> pstate p \<noteq> UNUSED) (procs (ptable demo))) =
      [''pid:1 name: Container:0'' @ [CHR 0x0A], ''pid:2 name: Container:0'' @ [CHR 0x0A]]"
    by (simp add: demo_sel demo_procs_def blank_proc_def ps_line_def dec_text_def printint_chars_def
        digit_loop.simps console_digits_def)
  then show ?thesis
    by (intro runs_weaken [OF ps_lists_container [OF demo_ready(1) demo_cons(1,2)]]) (simp add: demo_cons(3))
qed

theorem listContainers_leaks_lock_witness:
  "runs listContainersHelper demo (\<lambda>_ t. held Lk_ptable t \<and> acquire Lk_ptable t = Panic ''acquire'')"
  by (rule runs_weaken [OF listContainers_leaks_lock [OF demo_ready(1) demo_cons(1), of Chan_log 1]]) simp

theorem container_malloc_consecutive_witness:
  "runs (malloc_all [(64, 1)]) demo (\<lambda>_ t. page (pgTable (con_at 0 t)) ! 0 = \<lparr>GVA = 0, HVA = 0x80200000, pg_pid = 1\<rparr>)"
proof -
  have b: "pg_next (pgTable (con_at 0 demo)) = int 0" "nextGVA (con_at 0 demo) = 0"
    by (simp_all add: demo_con_at blank_container_def)
  have i: "\<forall>k \<le> length [(64 :: int, 1 :: int)]. is_int32 (nextGVA (con_at 0 demo) + sum_list (map fst (take k [(64, 1 :: int)])))"
    by (auto simp: b is_int32_def le_Suc_eq)
  show ?thesis
    by (rule runs_weaken [OF container_malloc_consecutive [OF demo_malloc b(1) _ _ i]])
       (simp_all add: NPAGE_def b)
qed

definition demo_full :: kproc where
  "demo_full = upd_con 0 (\<lambda>c. c\<lparr>pgTable := (pgTable c)\<lparr>pg_next := 100\<rparr>\<rparr>) demo"


end
