(* ===== verification/Sched.thy ===== *)
theory Sched
  imports Container
begin

text \<open>
  The scheduler of \<^verbatim>\<open>src/proc.c\<close>: container by container, every runnable process of a waiting
  container gets the processor once per pass. \<^verbatim>\<open>switchuvm\<close> and \<^verbatim>\<open>switchkvm\<close> of \<^verbatim>\<open>src/vm.c\<close> are
  modelled by what they load into the processor: the page table base register and the kernel stack
  of the process.

  What a process does between the context switch to it and its switch back is a parameter \<open>run\<close>:
  it stands for the rest of the kernel and for user programs.
\<close>

subsection \<open>Operations\<close>

definition switchkvm :: "('x kmach_scheme, unit) kern" where
  "switchkvm = modify (\<lambda>s. s\<lparr>hw_cr3 := V2P (kpgdir s)\<rparr>)"

definition switchuvm :: "nat \<Rightarrow> ('x kproc_scheme, unit) kern" where
  "switchuvm i = bnd (gets (proc_at i)) (\<lambda>p.
     if kstack p = 0 then panic ''switchuvm: no kstack''
     else if pgdir p = 0 then panic ''switchuvm: no pgdir''
     else sq pushcli (bnd mycpu (\<lambda>c.
       sq (modify (upd_cpu c (\<lambda>k. k\<lparr>ts_esp0 := kstack p + KSTACKSIZE\<rparr>))) (
       sq (modify (\<lambda>s. s\<lparr>hw_cr3 := V2P (pgdir p)\<rparr>)) popcli))))"

definition sched_fmt :: string where
  "sched_fmt = ''Container %d : Scheduling process %d'' @ [CHR 0x0A]"

definition scheduler_slot :: "(nat \<Rightarrow> ('x kproc_scheme, unit) kern) \<Rightarrow> nat \<Rightarrow> nat \<Rightarrow> nat \<Rightarrow> ('x kproc_scheme, unit) kern" where
  "scheduler_slot run c ci i = bnd (gets (proc_at i)) (\<lambda>p. bnd (gets (con_at ci)) (\<lambda>con.
     whenM (containerID p = con_id con) (whenM (pstate p = RUNNABLE) (
       sq (modify (upd_cpu c (\<lambda>k. k\<lparr>cpu_proc := Some i\<rparr>))) (
       sq (switchuvm i) (
       sq (modify (upd_proc i (\<lambda>p. p\<lparr>pstate := RUNNING\<rparr>))) (
       sq (bnd (gets (\<lambda>s. schedulerLog (ctable s))) (\<lambda>l. whenM (l \<noteq> 0)
            (cprintf sched_fmt [Arg (con_id con), Arg (pid p)]))) (
       sq (run i) (
       sq switchkvm
          (modify (upd_cpu c (\<lambda>k. k\<lparr>cpu_proc := None\<rparr>))))))))))))"

definition scheduler_container :: "(nat \<Rightarrow> ('x kproc_scheme, unit) kern) \<Rightarrow> nat \<Rightarrow> nat \<Rightarrow> ('x kproc_scheme, unit) kern" where
  "scheduler_container run c ci = bnd (gets (con_at ci)) (\<lambda>con.
     whenM (con_state con = CWAITING) (
       sq (acquire Lk_ptable) (
       sq (for_each [0..<NPROC] (scheduler_slot run c ci))
          (release Lk_ptable))))"

text \<open>One turn of the endless loop, and \<open>n\<close> turns.\<close>

definition scheduler_pass :: "(nat \<Rightarrow> ('x kproc_scheme, unit) kern) \<Rightarrow> nat \<Rightarrow> ('x kproc_scheme, unit) kern" where
  "scheduler_pass run c = sq sti (for_each [0..<NCONT] (scheduler_container run c))"

definition scheduler :: "(nat \<Rightarrow> ('x kproc_scheme, unit) kern) \<Rightarrow> nat \<Rightarrow> ('x kproc_scheme, unit) kern" where
  "scheduler run n = bnd mycpu (\<lambda>c.
     sq (modify (upd_cpu c (\<lambda>k. k\<lparr>cpu_proc := None\<rparr>)))
        (for_each [0..<n] (\<lambda>_. scheduler_pass run c)))"

subsection \<open>One process\<close>

text \<open>What one context switch leaves as it was: processor, locks, containers and a working
  console.\<close>

definition same_but_procs :: "'x kproc_scheme \<Rightarrow> 'x kproc_scheme \<Rightarrow> bool" where
  "same_but_procs s t \<longleftrightarrow> cpu_ok t \<and> me t = me s \<and> depth t = depth s \<and>
     (\<forall>lk. held lk t = held lk s \<and> unlocked lk t = unlocked lk s) \<and>
     ctable t = ctable s \<and> cons_ready t \<and> uart (cons t)"

lemma same_but_procs_trans: "same_but_procs s t \<Longrightarrow> same_but_procs t u \<Longrightarrow> same_but_procs s u"
  by (simp add: same_but_procs_def)

lemma upd_cpu_esp0_frame [simp]:
  fixes s :: "'x kcpu_scheme"
  defines "u \<equiv> \<lambda>i b s. upd_cpu i (\<lambda>k. k\<lparr>ts_esp0 := b\<rparr>) s"
  shows "cpu_ok (u i b s) = cpu_ok s" "depth (u i b s) = depth s" "me (u i b s) = me s"
    "held lk (u i b s) = held lk s" "unlocked lk (u i b s) = unlocked lk s"
  by (simp_all add: u_def upd_cpu_frame)

lemma upd_cpu_proc_frame [simp]:
  fixes s :: "'x kcpu_scheme"
  defines "u \<equiv> \<lambda>i b s. upd_cpu i (\<lambda>k. k\<lparr>cpu_proc := b\<rparr>) s"
  shows "cpu_ok (u i b s) = cpu_ok s" "depth (u i b s) = depth s" "me (u i b s) = me s"
    "held lk (u i b s) = held lk s" "unlocked lk (u i b s) = unlocked lk s"
  by (simp_all add: u_def upd_cpu_frame)

lemma locks_popped [simp]: "held lk (popped s) = held lk s" "unlocked lk (popped s) = unlocked lk s"
  by (simp_all add: held_def unlocked_def popped_sel)

lemma locks_pushed [simp]: "held lk (pushed s) = held lk s" "unlocked lk (pushed s) = unlocked lk s"
  by (simp_all add: held_def unlocked_def pushed_sel)

lemma runs_switchuvm:
  assumes "cpu_ok s" "kstack (proc_at i s) \<noteq> 0" "pgdir (proc_at i s) \<noteq> 0"
  shows "runs (switchuvm i) s (\<lambda>_ t. cpu_ok t \<and> depth t = depth s \<and> me t = me s \<and>
    (\<forall>lk. held lk t = held lk s \<and> unlocked lk t = unlocked lk s) \<and>
    ptable t = ptable s \<and> ctable t = ctable s \<and> cons t = cons s \<and> hw_cr3 t = V2P (pgdir (proc_at i s)))"
proof -
  have m: "mycpu (pushed s) = Done (me s) (pushed s)"
    using assms by (intro mycpu_Done) (auto elim: cpu_okE simp: pushed_sel)
  let ?u = "(upd_cpu (me s) (\<lambda>k. k\<lparr>ts_esp0 := kstack (proc_at i s) + KSTACKSIZE\<rparr>) (pushed s))
    \<lparr>hw_cr3 := V2P (pgdir (proc_at i s))\<rparr>"
  have "popcli ?u = Done () (popped ?u)" using assms(1) by (intro popcli_Done) simp_all
  moreover have "ptable (popped ?u) = ptable s" "ctable (popped ?u) = ctable s" "cons (popped ?u) = cons s"
    "hw_cr3 (popped ?u) = V2P (pgdir (proc_at i s))"
    by (simp_all add: popped_def pushed_def upd_cpu_def)
  ultimately show ?thesis
    using assms m by (simp add: switchuvm_def runs_def kern_defs pushcli_Done)
qed

definition sched_line :: "int \<Rightarrow> proc \<Rightarrow> string" where
  "sched_line cid p = ''Container '' @ dec_text cid @ '' : Scheduling process '' @ dec_text (pid p) @ [CHR 0x0A]"

lemma sched_text: "fmt_text sched_fmt [Arg cid, Arg (pid p)] = Some (sched_line cid p)"
  by (simp add: sched_fmt_def sched_line_def dec_text_def)

definition picks :: "int \<Rightarrow> proc \<Rightarrow> bool" where
  "picks cid p \<longleftrightarrow> containerID p = cid \<and> pstate p = RUNNABLE"

text \<open>A process that changes nothing but its own slot while it has the processor.\<close>

definition own_slot :: "(nat \<Rightarrow> proc \<Rightarrow> proc) \<Rightarrow> nat \<Rightarrow> ('x kproc_scheme, unit) kern" where
  "own_slot f i = modify (upd_proc i (f i))"

definition after_turn :: "(nat \<Rightarrow> proc \<Rightarrow> proc) \<Rightarrow> nat \<Rightarrow> proc \<Rightarrow> proc" where
  "after_turn f i p = f i (p\<lparr>pstate := RUNNING\<rparr>)"

lemma runs_slot:
  assumes ok: "cpu_ok t" "0 < depth t" "cons_ready t" "uart (cons t)" "schedulerLog (ctable t) = 1"
    and c: "c = me t" and i: "i < length (procs (ptable t))"
    and mem: "picks (con_id (con_at ci t)) (proc_at i t) \<Longrightarrow> kstack (proc_at i t) \<noteq> 0 \<and> pgdir (proc_at i t) \<noteq> 0"
  shows "runs (scheduler_slot (own_slot f) c ci i) t (\<lambda>_ u. same_but_procs t u \<and>
    procs (ptable u) = (if picks (con_id (con_at ci t)) (proc_at i t)
      then (procs (ptable t))[i := after_turn f i (proc_at i t)] else procs (ptable t)) \<and>
    uart_sent (cons u) = uart_sent (cons t) @ (if picks (con_id (con_at ci t)) (proc_at i t)
      then map of_char (sched_line (con_id (con_at ci t)) (proc_at i t)) else []))"
proof (cases "picks (con_id (con_at ci t)) (proc_at i t)")
  case False
  then show ?thesis
    using ok by (auto simp: scheduler_slot_def kern picks_def same_but_procs_def)
next
  case True
  let ?cid = "con_id (con_at ci t)" and ?p = "proc_at i t"
  have pk: "containerID ?p = ?cid" "pstate ?p = RUNNABLE" using True by (simp_all add: picks_def)
  let ?t1 = "upd_cpu c (\<lambda>k. k\<lparr>cpu_proc := Some i\<rparr>) t"
  have "runs (switchuvm i) ?t1 (\<lambda>_ u. cpu_ok u \<and> depth u = depth t \<and> me u = me t \<and>
    (\<forall>lk. held lk u = held lk t \<and> unlocked lk u = unlocked lk t) \<and>
    ptable u = ptable t \<and> ctable u = ctable t \<and> cons u = cons t)"
    using runs_switchuvm [of ?t1 i] ok mem [OF True] by (auto elim!: runs_weaken)
  then have "runs (switchuvm i) ?t1 (\<lambda>_ u. runs (sq (modify (upd_proc i (\<lambda>p. p\<lparr>pstate := RUNNING\<rparr>))) (
       sq (bnd (gets (\<lambda>s. schedulerLog (ctable s))) (\<lambda>l. whenM (l \<noteq> 0) (cprintf sched_fmt [Arg ?cid, Arg (pid ?p)]))) (
       sq (own_slot f i) (sq switchkvm (modify (upd_cpu c (\<lambda>k. k\<lparr>cpu_proc := None\<rparr>))))))) u (\<lambda>_ u. same_but_procs t u \<and>
       procs (ptable u) = (procs (ptable t))[i := after_turn f i ?p] \<and>
       uart_sent (cons u) = uart_sent (cons t) @ map of_char (sched_line ?cid ?p)))"
  proof (rule runs_weaken, elim conjE)
    fix u :: "'a kproc_scheme"
    assume u: "cpu_ok u" "depth u = depth t" "me u = me t" "\<forall>lk. held lk u = held lk t \<and> unlocked lk u = unlocked lk t"
      "ptable u = ptable t" "ctable u = ctable t" "cons u = cons t"
    let ?v = "upd_procs (\<lambda>ps. ps[i := (ps ! i)\<lparr>pstate := RUNNING\<rparr>]) u"
    have "cons_ready ?v" using ok(3) u by (simp add: cons_ready_def)
    then have cp: "cprintf sched_fmt [Arg ?cid, Arg (pid ?p)] ?v = Done () (printed (sched_line ?cid ?p) ?v)"
      using u ok by (intro cprintf_nested sched_text) simp_all
    have "cons_ok (cons t)" using ok(3) by (simp add: cons_ready_def)
    then show "runs (sq (modify (upd_proc i (\<lambda>p. p\<lparr>pstate := RUNNING\<rparr>))) (
       sq (bnd (gets (\<lambda>s. schedulerLog (ctable s))) (\<lambda>l. whenM (l \<noteq> 0) (cprintf sched_fmt [Arg ?cid, Arg (pid ?p)]))) (
       sq (own_slot f i) (sq switchkvm (modify (upd_cpu c (\<lambda>k. k\<lparr>cpu_proc := None\<rparr>))))))) u (\<lambda>_ u. same_but_procs t u \<and>
       procs (ptable u) = (procs (ptable t))[i := after_turn f i ?p] \<and>
       uart_sent (cons u) = uart_sent (cons t) @ map of_char (sched_line ?cid ?p))"
      using cp u ok i
      by (simp add: runs_def kern_defs own_slot_def switchkvm_def upd_proc_procs same_but_procs_def cons_ready_def after_turn_def)
  qed
  then show ?thesis
    using True pk unfolding scheduler_slot_def by (simp add: kern)
qed

subsection \<open>One container\<close>

text \<open>The table after the first \<open>k\<close> slots have been visited for container \<open>cid\<close>, and the log.\<close>

definition turned :: "(nat \<Rightarrow> proc \<Rightarrow> proc) \<Rightarrow> (proc \<Rightarrow> bool) \<Rightarrow> nat \<Rightarrow> proc list \<Rightarrow> proc list" where
  "turned f P k ps = map (\<lambda>j. if j < k \<and> P (ps ! j) then after_turn f j (ps ! j) else ps ! j) [0..<length ps]"

definition sched_log :: "int \<Rightarrow> proc list \<Rightarrow> string" where
  "sched_log cid ps = concat (map (sched_line cid) (filter (picks cid) ps))"

lemma turned_nth: "j < length ps \<Longrightarrow> turned f P k ps ! j = (if j < k \<and> P (ps ! j) then after_turn f j (ps ! j) else ps ! j)"
  by (simp add: turned_def)

lemma length_turned [simp]: "length (turned f P k ps) = length ps"
  by (simp add: turned_def)

lemma turned_Suc:
  "k < length ps \<Longrightarrow> turned f P (Suc k) ps =
    (if P (ps ! k) then (turned f P k ps)[k := after_turn f k (ps ! k)] else turned f P k ps)"
  by (auto intro!: nth_equalityI simp: turned_nth nth_list_update less_Suc_eq)

lemma turned_0 [simp]: "turned f P 0 ps = ps"
  by (auto intro!: nth_equalityI simp: turned_nth)

lemma sched_log_Suc:
  "k < length ps \<Longrightarrow> sched_log cid (take (Suc k) ps) =
    sched_log cid (take k ps) @ (if picks cid (ps ! k) then sched_line cid (ps ! k) else [])"
  by (simp add: sched_log_def take_Suc_conv_app_nth)

lemma runs_slots:
  fixes s :: "'x kproc_scheme"
  assumes ok: "cpu_ok s" "0 < depth s" "cons_ready s" "uart (cons s)" "schedulerLog (ctable s) = 1"
    and c: "c = me s" and len: "length (procs (ptable s)) = NPROC"
    and cid: "con_id (con_at ci s) = cid"
    and mem: "\<And>p. p \<in> set (procs (ptable s)) \<Longrightarrow> picks cid p \<Longrightarrow> kstack p \<noteq> 0 \<and> pgdir p \<noteq> 0"
  shows "runs (for_each [0..<NPROC] (scheduler_slot (own_slot f) c ci)) s (\<lambda>_ u. same_but_procs s u \<and>
    procs (ptable u) = turned f (picks cid) NPROC (procs (ptable s)) \<and>
    uart_sent (cons u) = uart_sent (cons s) @ map of_char (sched_log cid (procs (ptable s))))"
proof -
  let ?ps = "procs (ptable s)"
  let ?I = "\<lambda>k u. same_but_procs s u \<and> procs (ptable u) = turned f (picks cid) k ?ps \<and>
    uart_sent (cons u) = uart_sent (cons s) @ map of_char (sched_log cid (take k ?ps))"
  have "runs (for_each [0..<NPROC] (scheduler_slot (own_slot f) c ci)) s (\<lambda>_. ?I (length [0..<NPROC]))"
  proof (rule runs_for_each)
    show "?I 0 s" using ok by (simp add: same_but_procs_def sched_log_def)
    fix k and u :: "'x kproc_scheme"
    assume k: "k < length [0..<NPROC]" and u: "?I k u"
    have uk: "proc_at k u = ?ps ! k" using k u len by (simp add: turned_nth)
    have su: "cpu_ok u" "me u = me s" "depth u = depth s" "ctable u = ctable s" "cons_ready u" "uart (cons u)"
      using u by (auto simp: same_but_procs_def)
    have cu: "con_id (con_at ci u) = cid" using su cid by simp
    have mk: "picks cid (?ps ! k) \<Longrightarrow> kstack (?ps ! k) \<noteq> 0 \<and> pgdir (?ps ! k) \<noteq> 0"
      using mem k len by simp
    have "runs (scheduler_slot (own_slot f) c ci k) u (\<lambda>_ v. same_but_procs u v \<and>
        procs (ptable v) = (if picks cid (?ps ! k) then (procs (ptable u))[k := after_turn f k (?ps ! k)] else procs (ptable u)) \<and>
        uart_sent (cons v) = uart_sent (cons u) @ (if picks cid (?ps ! k) then map of_char (sched_line cid (?ps ! k)) else []))"
      by (rule runs_slot [of u c k ci f, unfolded uk cu]) (use su ok c k u len mk in simp_all)
    then show "runs (scheduler_slot (own_slot f) c ci ([0..<NPROC] ! k)) u (\<lambda>_. ?I (Suc k))"
      using u k len
      by (simp add: turned_Suc sched_log_Suc) (auto elim!: runs_weaken simp: same_but_procs_trans)
  qed
  then show ?thesis using len by simp
qed

lemma runs_container:
  fixes s :: "'x kproc_scheme"
  assumes ok: "cpu_ok s" "cons_ready s" "uart (cons s)" "schedulerLog (ctable s) = 1" "unlocked Lk_ptable s"
    and c: "c = me s" and len: "length (procs (ptable s)) = NPROC"
    and cid: "con_id (con_at ci s) = cid"
    and mem: "\<And>p. p \<in> set (procs (ptable s)) \<Longrightarrow> picks cid p \<Longrightarrow> kstack p \<noteq> 0 \<and> pgdir p \<noteq> 0"
  shows "runs (scheduler_container (own_slot f) c ci) s (\<lambda>_ u. same_but_procs s u \<and>
    (if con_state (con_at ci s) = CWAITING
     then procs (ptable u) = turned f (picks cid) NPROC (procs (ptable s)) \<and>
       uart_sent (cons u) = uart_sent (cons s) @ map of_char (sched_log cid (procs (ptable s)))
     else procs (ptable u) = procs (ptable s) \<and> uart_sent (cons u) = uart_sent (cons s)))"
proof (cases "con_state (con_at ci s) = CWAITING")
  case False
  then show ?thesis using ok by (simp add: scheduler_container_def kern same_but_procs_def)
next
  case True
  let ?u = "acquired Lk_ptable s"
  have "runs (for_each [0..<NPROC] (scheduler_slot (own_slot f) c ci)) ?u (\<lambda>_ u. same_but_procs ?u u \<and>
    procs (ptable u) = turned f (picks cid) NPROC (procs (ptable s)) \<and>
    uart_sent (cons u) = uart_sent (cons s) @ map of_char (sched_log cid (procs (ptable s))))"
    using runs_slots [of ?u c ci cid f] assms by simp
  then have "runs (for_each [0..<NPROC] (scheduler_slot (own_slot f) c ci)) ?u (\<lambda>_ u.
    runs (release Lk_ptable) u (\<lambda>_ v. same_but_procs s v \<and>
      procs (ptable v) = turned f (picks cid) NPROC (procs (ptable s)) \<and>
      uart_sent (cons v) = uart_sent (cons s) @ map of_char (sched_log cid (procs (ptable s)))))"
  proof (rule runs_weaken, elim conjE)
    fix u :: "'x kproc_scheme"
    assume u: "same_but_procs ?u u" "procs (ptable u) = turned f (picks cid) NPROC (procs (ptable s))"
      "uart_sent (cons u) = uart_sent (cons s) @ map of_char (sched_log cid (procs (ptable s)))"
    have "held Lk_ptable u" "cpu_ok u" "depth u = depth s + 1"
      using u(1) ok by (auto simp: same_but_procs_def)
    moreover have "held lk s \<Longrightarrow> lk \<noteq> Lk_ptable" for lk using ok(5) held_not_unlocked by blast
    ultimately show "runs (release Lk_ptable) u (\<lambda>_ v. same_but_procs s v \<and>
      procs (ptable v) = turned f (picks cid) NPROC (procs (ptable s)) \<and>
      uart_sent (cons v) = uart_sent (cons s) @ map of_char (sched_log cid (procs (ptable s))))"
      using u ok by (auto simp: kern same_but_procs_def cons_ready_def)
  qed
  then show ?thesis
    using True ok by (simp add: scheduler_container_def kern)
qed

subsection \<open>One pass over all containers\<close>

lemma filter_same:
  assumes "list_all2 (\<lambda>x y. P x = P y \<and> (P x \<longrightarrow> x = y)) xs ys"
  shows "filter P xs = filter P ys"
  using assms
proof (induction rule: list_all2_induct)
  case (Cons x xs y ys)
  show ?case
  proof (cases "P x")
    case True
    with Cons.hyps have "x = y" by blast
    with True Cons.IH show ?thesis by simp
  next
    case False
    with Cons.hyps have "\<not> P y" by blast
    with False Cons.IH show ?thesis by simp
  qed
qed simp

text \<open>The processes whose turn comes in the first \<open>k\<close> containers.\<close>

definition due :: "ctab \<Rightarrow> nat \<Rightarrow> proc \<Rightarrow> bool" where
  "due ct k p \<longleftrightarrow> (\<exists>j < k. con_state (container ct ! j) = CWAITING \<and> picks (int j) p)"

definition pass_log :: "ctab \<Rightarrow> nat \<Rightarrow> proc list \<Rightarrow> string" where
  "pass_log ct k ps = concat (map (\<lambda>j. if con_state (container ct ! j) = CWAITING then sched_log (int j) ps else []) [0..<k])"

lemma due_not_later: "due ct k p \<Longrightarrow> \<not> picks (int k) p"
  by (auto simp: due_def picks_def)

lemma due_Suc: "due ct (Suc k) p \<longleftrightarrow> due ct k p \<or> (con_state (container ct ! k) = CWAITING \<and> picks (int k) p)"
  by (auto simp: due_def less_Suc_eq)

lemma later_picks:
  fixes n k :: nat and ct :: ctab
  assumes stay: "\<And>i p. containerID (f i p) = containerID p" and j: "j < length ps"
  defines "q \<equiv> turned f (due ct k) n ps ! j"
  shows "picks (int k) q = picks (int k) (ps ! j)" "picks (int k) (ps ! j) \<Longrightarrow> q = ps ! j"
proof -
  have "picks (int k) q = picks (int k) (ps ! j) \<and> (picks (int k) (ps ! j) \<longrightarrow> q = ps ! j)"
  proof (cases "j < n \<and> due ct k (ps ! j)")
    case True
    then obtain i where "i < k" "containerID (ps ! j) = int i" by (auto simp: due_def picks_def)
    then have "\<not> picks (int k) (after_turn f j (ps ! j))" "\<not> picks (int k) (ps ! j)"
      using stay by (simp_all add: picks_def after_turn_def)
    then show ?thesis using True j by (simp add: q_def turned_nth)
  next
    case False
    then show ?thesis using j by (auto simp: q_def turned_nth)
  qed
  then show "picks (int k) q = picks (int k) (ps ! j)" "picks (int k) (ps ! j) \<Longrightarrow> q = ps ! j" by blast+
qed

lemma sched_log_later:
  assumes "\<And>i p. containerID (f i p) = containerID p"
  shows "sched_log (int k) (turned f (due ct k) n ps) = sched_log (int k) ps"
  unfolding sched_log_def
  by (subst filter_same [where ys = ps])
     (auto simp: list_all2_conv_all_nth later_picks [OF assms])

lemma turned_later:
  assumes stay: "\<And>i p. containerID (f i p) = containerID p" and w: "con_state (container ct ! k) = CWAITING"
  shows "turned f (picks (int k)) n (turned f (due ct k) n ps) = turned f (due ct (Suc k)) n ps"
proof (rule nth_equalityI)
  fix j assume "j < length (turned f (picks (int k)) n (turned f (due ct k) n ps))"
  then have j: "j < length ps" by simp
  note lp = later_picks [where f = f and ps = ps and j = j and k = k and ct = ct and n = n, OF stay j]
  show "turned f (picks (int k)) n (turned f (due ct k) n ps) ! j = turned f (due ct (Suc k)) n ps ! j"
  proof (cases "picks (int k) (ps ! j)")
    case True
    then have "\<not> due ct k (ps ! j)" using due_not_later by blast
    then show ?thesis using True j w by (simp add: turned_nth due_Suc)
  next
    case False
    then show ?thesis using j lp(1) by (simp add: turned_nth due_Suc)
  qed
qed simp

lemma turned_skip: "con_state (container ct ! k) \<noteq> CWAITING \<Longrightarrow> turned f (due ct (Suc k)) n ps = turned f (due ct k) n ps"
  by (simp add: turned_def due_Suc)

lemma pass_log_Suc: "pass_log ct (Suc k) ps = pass_log ct k ps @
    (if con_state (container ct ! k) = CWAITING then sched_log (int k) ps else [])"
  by (simp add: pass_log_def)

subsection \<open>Properties\<close>


definition sched_demo :: kproc where
  "sched_demo = (upd_procs (\<lambda>ps. ps[1 := (ps ! 1)\<lparr>pstate := RUNNABLE, kstack := 0x80300000, pgdir := 0x80301000\<rparr>]) demo)
     \<lparr>ctable := (ctable demo)\<lparr>schedulerLog := 1\<rparr>\<rparr>"


end
