(* ===== verification/Sleeplock.thy ===== *)
theory Sleeplock
  imports Proc
begin

text \<open>
  Sleep locks, \<^verbatim>\<open>src/sleeplock.c\<close> and \<^verbatim>\<open>src/sleeplock.h\<close>. A sleep lock is held by a process across
  a context switch; it is protected by a spin lock of its own. The locks of the kernel are numbered:
  the buffers of the cache come first, then the inodes.

  A process that finds the lock taken goes to sleep; when it is woken it continues with
  \<open>acquiresleep_resume\<close>, which tests the lock again.
\<close>

record sleeplock =
  slocked :: bool
  sl_name :: string
  sl_pid :: int

record kslp = kproc +
  slocks :: "nat \<Rightarrow> sleeplock"

interpretation slocks_field: component_field slocks slocks_update
  by unfold_locales simp_all

definition upd_slock :: "nat \<Rightarrow> (sleeplock \<Rightarrow> sleeplock) \<Rightarrow> 'x kslp_scheme \<Rightarrow> 'x kslp_scheme" where
  "upd_slock n f s = s\<lparr>slocks := (slocks s)(n := f (slocks s n))\<rparr>"

subsection \<open>Operations\<close>

definition initsleeplock :: "nat \<Rightarrow> string \<Rightarrow> ('x kslp_scheme, unit) kern" where
  "initsleeplock n nm = sq (initlock (Lk_sleep n) ''sleep lock'')
     (modify (upd_slock n (\<lambda>l. l\<lparr>sl_name := nm, slocked := False, sl_pid := 0\<rparr>)))"

definition acquiresleep_loop :: "nat \<Rightarrow> ('x kslp_scheme, unit) kern" where
  "acquiresleep_loop n = bnd (gets (\<lambda>s. slocked (slocks s n))) (\<lambda>l.
     if l then sleep (Chan_sleeplock n) (Lk_sleep n)
     else sq (modify (upd_slock n (\<lambda>l. l\<lparr>slocked := True\<rparr>))) (
       bnd curproc (\<lambda>p. bnd (gets (\<lambda>s. pid (proc_at p s))) (\<lambda>pd.
       sq (modify (upd_slock n (\<lambda>l. l\<lparr>sl_pid := pd\<rparr>))) (release (Lk_sleep n))))))"

definition acquiresleep :: "nat \<Rightarrow> ('x kslp_scheme, unit) kern" where
  "acquiresleep n = sq (acquire (Lk_sleep n)) (acquiresleep_loop n)"

definition acquiresleep_resume :: "nat \<Rightarrow> bool \<Rightarrow> nat \<Rightarrow> ('x kslp_scheme, unit) kern" where
  "acquiresleep_resume p ie n = sq (sleep_resume p ie (Lk_sleep n)) (acquiresleep_loop n)"

definition releasesleep :: "nat \<Rightarrow> ('x kslp_scheme, unit) kern" where
  "releasesleep n = sq (acquire (Lk_sleep n)) (
     sq (modify (upd_slock n (\<lambda>l. l\<lparr>slocked := False, sl_pid := 0\<rparr>))) (
     sq (wakeup (Chan_sleeplock n)) (release (Lk_sleep n))))"

definition holdingsleep :: "nat \<Rightarrow> ('x kslp_scheme, bool) kern" where
  "holdingsleep n = sq (acquire (Lk_sleep n)) (
     bnd curproc (\<lambda>p. bnd (gets (\<lambda>s. slocked (slocks s n) \<and> sl_pid (slocks s n) = pid (proc_at p s))) (\<lambda>r.
     sq (release (Lk_sleep n)) (ret r))))"

subsection \<open>The operations in closed form\<close>

text \<open>A process runs in an uncontended kernel.\<close>

definition in_proc :: "nat \<Rightarrow> 'x kproc_scheme \<Rightarrow> bool" where
  "in_proc p s \<longleftrightarrow> idle s \<and> cur s = Some p \<and> p < NPROC \<and> length (procs (ptable s)) = NPROC"

lemma in_procD [simp]:
  "in_proc p s \<Longrightarrow> idle s" "in_proc p s \<Longrightarrow> cur s = Some p" "in_proc p s \<Longrightarrow> p < NPROC"
  "in_proc p s \<Longrightarrow> length (procs (ptable s)) = NPROC"
  by (simp_all add: in_proc_def)

lemma idle_upd_procs [simp]: "idle s \<Longrightarrow> idle (upd_procs f s)"
  by (simp add: upd_procs_def)

lemma in_proc_frame [simp]: "in_proc p s \<Longrightarrow> in_proc p (s\<lparr>slocks := l\<rparr>)"
  unfolding in_proc_def by simp

lemma in_proc_upd_procs [simp]: "in_proc p s \<Longrightarrow> in_proc p (upd_procs (map g) s)"
  unfolding in_proc_def by simp

lemma in_proc_mach [simp]:
  "in_proc p s \<Longrightarrow> in_proc p (s\<lparr>ram := m\<rparr>)" "in_proc p s \<Longrightarrow> in_proc p (s\<lparr>hw_cr3 := v\<rparr>)" "in_proc p s \<Longrightarrow> in_proc p (upd_proc i f s)"
  unfolding in_proc_def upd_proc_def by simp_all

lemma curproc_acquired: "idle s \<Longrightarrow> cur s = Some p \<Longrightarrow> curproc (acquired lk s) = Done p (acquired lk s)"
  by (simp add: curproc_Done settled_nested)

lemma acquiresleep_Done:
  assumes "in_proc p s" "\<not> slocked (slocks s n)"
  shows "acquiresleep n s = Done () (upd_slock n (\<lambda>l. l\<lparr>slocked := True, sl_pid := pid (proc_at p s)\<rparr>) s)"
proof -
  let ?t = "(acquired (Lk_sleep n) s)\<lparr>slocks := (slocks s)(n := (slocks s n)\<lparr>slocked := True\<rparr>)\<rparr>"
  have "curproc ?t = Done p ?t"
    using assms by (subst curproc_Done) (simp_all add: settled_nested)
  then show ?thesis
    using assms
    by (simp add: acquiresleep_def acquiresleep_loop_def kern_defs acquire_Done release_Done upd_slock_def)
qed

lemma acquiresleep_Switches:
  assumes "in_proc p s" "depth s = 0" "slocked (slocks s n)"
  shows "acquiresleep n s = Switches (asleep (Chan_sleeplock n) (Lk_sleep n) p (acquired (Lk_sleep n) s))"
proof -
  have "sleep (Chan_sleeplock n) (Lk_sleep n) (acquired (Lk_sleep n) s) =
      (Switches (asleep (Chan_sleeplock n) (Lk_sleep n) p (acquired (Lk_sleep n) s)) :: (unit, 'a kslp_scheme) outcome)"
    using assms by (intro sleep_Switches) auto
  then show ?thesis
    using assms by (simp add: acquiresleep_def acquiresleep_loop_def kern_defs acquire_Done)
qed

lemma releasesleep_Done:
  assumes "in_proc p s"
  shows "releasesleep n s = Done () (upd_procs (map (wake (Chan_sleeplock n)))
    (upd_slock n (\<lambda>l. l\<lparr>slocked := False, sl_pid := 0\<rparr>) s))"
proof -
  let ?t = "(acquired (Lk_sleep n) s)\<lparr>slocks := (slocks s)(n := (slocks s n)\<lparr>slocked := False, sl_pid := 0\<rparr>)\<rparr>"
  have "wakeup (Chan_sleeplock n) ?t = Done () (upd_procs (map (wake (Chan_sleeplock n))) ?t)"
    using assms by (subst wakeup_Done) (simp_all add: ptable_ready_def settled_nested)
  then show ?thesis
    using assms by (simp add: releasesleep_def kern_defs acquire_Done release_Done upd_slock_def)
qed

lemma holdingsleep_Done:
  assumes "in_proc p s"
  shows "holdingsleep n s = Done (slocked (slocks s n) \<and> sl_pid (slocks s n) = pid (proc_at p s)) s"
  using assms
  by (simp add: holdingsleep_def kern_defs acquire_Done release_Done curproc_acquired)


text \<open>The example kernel of the process table, with whatever fields the layers above add.\<close>

definition boot :: "'m \<Rightarrow> 'm kproc_scheme" where
  "boot m = kproc.extend (settled demo) m"

lemma boot_sel [simp]: "procs (ptable (boot m)) = demo_procs" "kproc.more (boot m) = m" "ctable (boot m) = ctable demo"
  "cons (boot m) = cons demo" "kmem (boot m) = kmem demo" "ram (boot m) = ram demo" "kend (boot m) = kend demo"
  by (simp_all add: boot_def kproc.defs demo_sel)

lemma boot_in_proc [simp]: "in_proc 0 (boot m)" "depth (boot m) = 0"
proof -
  have i: "cpu_idx (boot m) = Some 0" "me (boot m) = 0"
    by (simp_all add: boot_def me_def demo_def settled_def cpu_idx_def first_index_def kproc.defs)
  moreover have c: "cpus (boot m) = [\<lparr>apicid = 0, ncli = 0, intena = True, cpu_proc = Some 0, ts_esp0 = 0\<rparr>]" "hw_if (boot m)"
    by (simp_all add: boot_def demo_def settled_def me_def cpu_idx_def first_index_def kproc.defs)
  moreover have "unlocked lk (boot m)" for lk by (simp add: unlocked_def boot_def demo_def settled_def kproc.defs)
  ultimately have "idle (boot m)" by (simp add: idle_def cpu_ok_def settled_def)
  moreover have "cur (boot m) = Some 0" using i c by (simp add: cur_def)
  ultimately show "in_proc 0 (boot m)" unfolding in_proc_def by (simp add: demo_sel) (simp add: NPROC_def)
  show "depth (boot m) = 0" using i c by (simp add: depth_def)
qed

lemma slocks_boot [simp]: "slocks (boot \<lparr>slocks = l, \<dots> = m\<rparr>) = l"
  by (simp add: boot_def kproc.defs)


end
