(* ===== verification/Bio.thy ===== *)
theory Bio
  imports Sleeplock
begin

text \<open>
  The buffer cache, \<^verbatim>\<open>src/bio.c\<close> and \<^verbatim>\<open>src/buf.h\<close>, over the in-memory disk of \<^verbatim>\<open>src/memide.c\<close>.

  The buffers sit in a circular doubly linked list, most recently used first; the list is kept as the
  source has it, with \<^verbatim>\<open>prev\<close> and \<^verbatim>\<open>next\<close> links between buffer positions and the list head at
  position \<open>HEAD\<close>. The sleep lock of buffer \<open>i\<close> is sleep lock number \<open>i\<close>. The scans of
  \<^verbatim>\<open>bget\<close> follow the links; they are given one step more than there are buffers, which the list
  invariant shows to be enough.

  The history \<open>dwrites\<close> records the blocks written to the disk in order. No operation reads it; it
  serves to state what a crash between two writes leaves on the disk.
\<close>

subsection \<open>State\<close>

definition BSIZE :: nat where "BSIZE = 512"
definition MAXOPBLOCKS :: nat where "MAXOPBLOCKS = 10"
definition NBUF :: nat where "NBUF = MAXOPBLOCKS * 3"
definition HEAD :: nat where "HEAD = NBUF"

text \<open>\<^verbatim>\<open>struct buf\<close>; the flags \<^verbatim>\<open>B_VALID\<close> and \<^verbatim>\<open>B_DIRTY\<close> are two booleans.\<close>

record buf =
  b_valid :: bool
  b_dirty :: bool
  b_dev :: uint
  blockno :: uint
  refcnt :: uint
  b_prev :: nat
  b_next :: nat
  data :: "uchar list"

record kbio = kslp +
  bcache :: "buf list"          \<comment> \<open>buf[0..NBUF) and the list head\<close>
  memdisk :: "uchar list list"  \<comment> \<open>the disk, block by block; disksize is its length\<close>
  dwrites :: "(nat \<times> uchar list) list"

interpretation bcache_field: component_field bcache bcache_update
  by unfold_locales simp_all

interpretation memdisk_field: component_field memdisk memdisk_update
  by unfold_locales simp_all

interpretation dwrites_field: component_field dwrites dwrites_update
  by unfold_locales simp_all

abbreviation buf_at :: "nat \<Rightarrow> 'x kbio_scheme \<Rightarrow> buf" where
  "buf_at i s \<equiv> bcache s ! i"

definition upd_buf :: "nat \<Rightarrow> (buf \<Rightarrow> buf) \<Rightarrow> 'x kbio_scheme \<Rightarrow> 'x kbio_scheme" where
  "upd_buf i f s = s\<lparr>bcache := (bcache s)[i := f (bcache s ! i)]\<rparr>"

subsection \<open>The disk\<close>

definition iderw :: "nat \<Rightarrow> ('x kbio_scheme, unit) kern" where
  "iderw i = bnd (holdingsleep i) (\<lambda>h.
     if \<not> h then panic ''iderw: buf not locked''
     else bnd (gets (buf_at i)) (\<lambda>b.
       if b_valid b \<and> \<not> b_dirty b then panic ''iderw: nothing to do''
       else if b_dev b \<noteq> 1 then panic ''iderw: request not for disk 1''
       else bnd (gets (\<lambda>s. length (memdisk s))) (\<lambda>disksize.
         if unat (blockno b) \<ge> disksize then panic ''iderw: block out of range''
         else sq (if b_dirty b
             then sq (modify (upd_buf i (\<lambda>b. b\<lparr>b_dirty := False\<rparr>)))
                (modify (\<lambda>s. s\<lparr>memdisk := (memdisk s)[unat (blockno b) := data b],
                   dwrites := dwrites s @ [(unat (blockno b), data b)]\<rparr>))
             else modify (\<lambda>s. upd_buf i (\<lambda>b. b\<lparr>data := memdisk s ! unat (blockno b)\<rparr>) s))
           (modify (upd_buf i (\<lambda>b. b\<lparr>b_valid := True\<rparr>))))))"

subsection \<open>The cache\<close>

definition binit_step :: "nat \<Rightarrow> ('x kbio_scheme, unit) kern" where
  "binit_step b =
     sq (modify (\<lambda>s. upd_buf b (\<lambda>x. x\<lparr>b_next := b_next (buf_at HEAD s)\<rparr>) s)) (
     sq (modify (upd_buf b (\<lambda>x. x\<lparr>b_prev := HEAD\<rparr>))) (
     sq (initsleeplock b ''buffer'') (
     sq (modify (\<lambda>s. upd_buf (b_next (buf_at HEAD s)) (\<lambda>x. x\<lparr>b_prev := b\<rparr>) s))
        (modify (upd_buf HEAD (\<lambda>x. x\<lparr>b_next := b\<rparr>))))))"

definition binit :: "('x kbio_scheme, unit) kern" where
  "binit = sq (initlock Lk_bcache ''bcache'') (
     sq (modify (upd_buf HEAD (\<lambda>x. x\<lparr>b_prev := HEAD\<rparr>))) (
     sq (modify (upd_buf HEAD (\<lambda>x. x\<lparr>b_next := HEAD\<rparr>)))
        (for_each [0..<NBUF] binit_step)))"

primrec bget_cached :: "nat \<Rightarrow> nat \<Rightarrow> uint \<Rightarrow> uint \<Rightarrow> ('x kbio_scheme, nat option) kern" where
  "bget_cached 0 b dev bno = undef ''buffer list''"
| "bget_cached (Suc n) b dev bno = (if b = HEAD then ret None
     else bnd (gets (buf_at b)) (\<lambda>x.
       if b_dev x = dev \<and> blockno x = bno then ret (Some b)
       else bget_cached n (b_next x) dev bno))"

primrec bget_free :: "nat \<Rightarrow> nat \<Rightarrow> ('x kbio_scheme, nat option) kern" where
  "bget_free 0 b = undef ''buffer list''"
| "bget_free (Suc n) b = (if b = HEAD then ret None
     else bnd (gets (buf_at b)) (\<lambda>x.
       if refcnt x = 0 \<and> \<not> b_dirty x then ret (Some b)
       else bget_free n (b_prev x)))"

definition bget :: "uint \<Rightarrow> uint \<Rightarrow> ('x kbio_scheme, nat) kern" where
  "bget dev bno = sq (acquire Lk_bcache) (
     bnd (bnd (gets (\<lambda>s. b_next (buf_at HEAD s))) (\<lambda>b. bget_cached (Suc NBUF) b dev bno)) (\<lambda>r. case r of
       Some b \<Rightarrow>
         sq (modify (upd_buf b (\<lambda>x. x\<lparr>refcnt := refcnt x + 1\<rparr>))) (
         sq (release Lk_bcache) (sq (acquiresleep b) (ret b)))
     | None \<Rightarrow>
         bnd (bnd (gets (\<lambda>s. b_prev (buf_at HEAD s))) (\<lambda>b. bget_free (Suc NBUF) b)) (\<lambda>r. case r of
           Some b \<Rightarrow>
             sq (modify (upd_buf b (\<lambda>x. x\<lparr>b_dev := dev, blockno := bno, b_valid := False, b_dirty := False, refcnt := 1\<rparr>))) (
             sq (release Lk_bcache) (sq (acquiresleep b) (ret b)))
         | None \<Rightarrow> panic ''bget: no buffers'')))"

definition bread :: "uint \<Rightarrow> uint \<Rightarrow> ('x kbio_scheme, nat) kern" where
  "bread dev bno = bnd (bget dev bno) (\<lambda>b. bnd (gets (buf_at b)) (\<lambda>x.
     sq (whenM (\<not> b_valid x) (iderw b)) (ret b)))"

definition bwrite :: "nat \<Rightarrow> ('x kbio_scheme, unit) kern" where
  "bwrite b = bnd (holdingsleep b) (\<lambda>h.
     if \<not> h then panic ''bwrite''
     else sq (modify (upd_buf b (\<lambda>x. x\<lparr>b_dirty := True\<rparr>))) (iderw b))"

text \<open>The pointer surgery of \<^verbatim>\<open>brelse\<close>: unlink the buffer, then link it in after the head.\<close>

definition lru_unlink :: "nat \<Rightarrow> ('x kbio_scheme, unit) kern" where
  "lru_unlink b =
     sq (modify (\<lambda>s. upd_buf (b_next (buf_at b s)) (\<lambda>x. x\<lparr>b_prev := b_prev (buf_at b s)\<rparr>) s))
        (modify (\<lambda>s. upd_buf (b_prev (buf_at b s)) (\<lambda>x. x\<lparr>b_next := b_next (buf_at b s)\<rparr>) s))"

definition lru_push :: "nat \<Rightarrow> ('x kbio_scheme, unit) kern" where
  "lru_push b =
     sq (modify (\<lambda>s. upd_buf b (\<lambda>x. x\<lparr>b_next := b_next (buf_at HEAD s)\<rparr>) s)) (
     sq (modify (upd_buf b (\<lambda>x. x\<lparr>b_prev := HEAD\<rparr>))) (
     sq (modify (\<lambda>s. upd_buf (b_next (buf_at HEAD s)) (\<lambda>x. x\<lparr>b_prev := b\<rparr>) s))
        (modify (upd_buf HEAD (\<lambda>x. x\<lparr>b_next := b\<rparr>)))))"

definition brelse :: "nat \<Rightarrow> ('x kbio_scheme, unit) kern" where
  "brelse b = bnd (holdingsleep b) (\<lambda>h.
     if \<not> h then panic ''brelse''
     else sq (releasesleep b) (
       sq (acquire Lk_bcache) (
       sq (modify (upd_buf b (\<lambda>x. x\<lparr>refcnt := refcnt x - 1\<rparr>))) (
       sq (bnd (gets (\<lambda>s. refcnt (buf_at b s))) (\<lambda>r. whenM (r = 0) (sq (lru_unlink b) (lru_push b))))
          (release Lk_bcache)))))"

subsection \<open>The list of buffers\<close>

text \<open>\<open>seg bs a xs z\<close>: following \<^verbatim>\<open>next\<close> from \<open>a\<close> visits \<open>xs\<close> and then \<open>z\<close>, and the \<^verbatim>\<open>prev\<close> links run
  back the same way.\<close>

fun seg :: "buf list \<Rightarrow> nat \<Rightarrow> nat list \<Rightarrow> nat \<Rightarrow> bool" where
  "seg bs a [] z \<longleftrightarrow> b_next (bs ! a) = z \<and> b_prev (bs ! z) = a"
| "seg bs a (x # xs) z \<longleftrightarrow> b_next (bs ! a) = x \<and> b_prev (bs ! x) = a \<and> seg bs x xs z"

definition ring :: "buf list \<Rightarrow> nat list \<Rightarrow> bool" where
  "ring bs xs \<longleftrightarrow> length bs = Suc NBUF \<and> distinct xs \<and> set xs = {..<NBUF} \<and> seg bs HEAD xs HEAD"

lemma seg_append: "seg bs a (xs @ y # ys) z \<longleftrightarrow> seg bs a xs y \<and> seg bs y ys z"
  by (induction xs arbitrary: a) auto

lemma seg_cong:
  assumes "\<And>n. n \<in> set (a # xs) \<Longrightarrow> b_next (bs' ! n) = b_next (bs ! n)"
    "\<And>n. n \<in> set (xs @ [z]) \<Longrightarrow> b_prev (bs' ! n) = b_prev (bs ! n)"
  shows "seg bs' a xs z = seg bs a xs z"
  using assms by (induction xs arbitrary: a) auto

lemma seg_last: "seg bs a xs z \<Longrightarrow> b_next (bs ! last (a # xs)) = z \<and> b_prev (bs ! z) = last (a # xs)"
  by (induction xs arbitrary: a) auto

lemma seg_first: "seg bs a xs z \<Longrightarrow> b_next (bs ! a) = hd (xs @ [z])"
  by (cases xs) auto

definition set_prev :: "nat \<Rightarrow> nat \<Rightarrow> buf list \<Rightarrow> buf list" where
  "set_prev n v bs = bs[n := (bs ! n)\<lparr>b_prev := v\<rparr>]"

definition set_next :: "nat \<Rightarrow> nat \<Rightarrow> buf list \<Rightarrow> buf list" where
  "set_next n v bs = bs[n := (bs ! n)\<lparr>b_next := v\<rparr>]"

lemma length_set_links [simp]: "length (set_prev n v bs) = length bs" "length (set_next n v bs) = length bs"
  by (simp_all add: set_prev_def set_next_def)

lemma set_links_nth:
  assumes "n < length bs"
  shows "b_prev (set_prev n v bs ! j) = (if j = n then v else b_prev (bs ! j))"
    "b_next (set_prev n v bs ! j) = b_next (bs ! j)"
    "b_next (set_next n v bs ! j) = (if j = n then v else b_next (bs ! j))"
    "b_prev (set_next n v bs ! j) = b_prev (bs ! j)"
  using assms by (auto simp: set_prev_def set_next_def nth_list_update_if)

text \<open>Everything in a buffer but its links.\<close>

definition core :: "buf \<Rightarrow> buf" where
  "core b = b\<lparr>b_prev := 0, b_next := 0\<rparr>"

lemma core_set_links [simp]: "core (set_prev n v bs ! j) = core (bs ! j)" "core (set_next n v bs ! j) = core (bs ! j)"
  unfolding set_prev_def set_next_def by (rule nth_update_same, simp add: core_def)+

definition unlink_l :: "nat \<Rightarrow> buf list \<Rightarrow> buf list" where
  "unlink_l b bs = (let bs1 = set_prev (b_next (bs ! b)) (b_prev (bs ! b)) bs
     in set_next (b_prev (bs1 ! b)) (b_next (bs1 ! b)) bs1)"

definition push_l :: "nat \<Rightarrow> buf list \<Rightarrow> buf list" where
  "push_l b bs = (let bs1 = set_next b (b_next (bs ! HEAD)) bs; bs2 = set_prev b HEAD bs1;
     bs3 = set_prev (b_next (bs2 ! HEAD)) b bs2 in set_next HEAD b bs3)"

lemma lru_unlink_Done: "lru_unlink b s = Done () (s\<lparr>bcache := unlink_l b (bcache s)\<rparr>)"
  by (simp add: lru_unlink_def kern_defs upd_buf_def unlink_l_def set_prev_def set_next_def Let_def)

lemma lru_push_Done: "lru_push b s = Done () (s\<lparr>bcache := push_l b (bcache s)\<rparr>)"
  by (simp add: lru_push_def kern_defs upd_buf_def push_l_def set_prev_def set_next_def Let_def)

lemma seg_unlink:
  assumes "seg bs h (as @ b # cs) h" "distinct (h # as @ b # cs)" "\<forall>n \<in> set (h # as @ b # cs). n < length bs"
  shows "seg (unlink_l b bs) h (as @ cs) h"
proof -
  let ?a = "last (h # as)" and ?c = "hd (cs @ [h])"
  have s: "seg bs h as b" "seg bs b cs h" using assms(1) by (simp_all add: seg_append)
  have l: "b_next (bs ! b) = ?c" "b_prev (bs ! b) = ?a"
    using seg_last [OF s(1)] seg_first [OF s(2)] by simp_all
  have in_set: "?a \<in> set (h # as)" "?c \<in> set (cs @ [h])"
    by (metis last_in_set list.distinct(1), metis hd_in_set snoc_eq_iff_butlast)
  then have lt: "?a < length bs" "?c < length bs" and ne: "?c \<noteq> b" "?a \<noteq> b"
    using assms(2,3) by auto
  have u: "unlink_l b bs = set_next ?a ?c (set_prev ?c ?a bs)"
    using l lt ne by (simp add: unlink_l_def Let_def set_links_nth)
  show ?thesis
  proof (cases as rule: rev_cases)
    case Nil
    then show ?thesis
    proof (cases cs)
      case Nil
      with \<open>as = []\<close> show ?thesis using u lt by (simp add: set_links_nth)
    next
      case (Cons c cs')
      have "seg (unlink_l b bs) c cs' h = seg bs c cs' h"
        using assms(2) Cons \<open>as = []\<close> lt unfolding u
        by (intro seg_cong) (auto simp: set_links_nth)
      then show ?thesis using s(2) Cons \<open>as = []\<close> lt by (simp add: u set_links_nth)
    qed
  next
    case (snoc as' a)
    have sa: "seg bs h as' a" using s(1) snoc by (simp add: seg_append)
    have "seg (unlink_l b bs) h as' a = seg bs h as' a"
      using assms(2) snoc lt in_set unfolding u
      by (intro seg_cong) (cases cs; auto simp: set_links_nth)+
    moreover have "seg (unlink_l b bs) a cs h"
    proof (cases cs)
      case Nil
      with snoc show ?thesis using u lt by (simp add: set_links_nth)
    next
      case (Cons c cs')
      have "seg (unlink_l b bs) c cs' h = seg bs c cs' h"
        using assms(2) Cons snoc lt unfolding u
        by (intro seg_cong) (auto simp: set_links_nth)
      then show ?thesis using s(2) Cons snoc lt by (simp add: u set_links_nth)
    qed
    ultimately show ?thesis using snoc sa by (simp add: seg_append)
  qed
qed

lemma seg_push:
  assumes "seg bs HEAD xs HEAD" "distinct (HEAD # b # xs)" "\<forall>n \<in> set (HEAD # b # xs). n < length bs"
  shows "seg (push_l b bs) HEAD (b # xs) HEAD"
proof -
  let ?c = "hd (xs @ [HEAD])"
  have l: "b_next (bs ! HEAD) = ?c" using seg_first [OF assms(1)] .
  have c: "?c \<in> set (xs @ [HEAD])" by (metis hd_in_set snoc_eq_iff_butlast)
  then have lt: "?c < length bs" "b < length bs" "HEAD < length bs" and ne: "?c \<noteq> b" "b \<noteq> HEAD"
    using assms(2,3) by auto
  have p: "push_l b bs = set_next HEAD b (set_prev ?c b (set_prev b HEAD (set_next b ?c bs)))"
    using l lt ne by (simp add: push_l_def Let_def set_links_nth)
  show ?thesis
  proof (cases xs)
    case Nil
    then show ?thesis using lt ne by (simp add: p set_links_nth)
  next
    case (Cons c cs)
    have "seg (push_l b bs) c cs HEAD = seg bs c cs HEAD"
      using assms(2) Cons lt ne unfolding p by (intro seg_cong) (auto simp: set_links_nth)
    then show ?thesis using assms(1,2) Cons lt ne by (simp add: p set_links_nth)
  qed
qed

lemma core_unlink_push [simp]: "core (unlink_l b bs ! j) = core (bs ! j)" "core (push_l b bs ! j) = core (bs ! j)"
  by (simp_all add: unlink_l_def push_l_def Let_def)

lemma length_unlink_push [simp]: "length (unlink_l b bs) = length bs" "length (push_l b bs) = length bs"
  by (simp_all add: unlink_l_def push_l_def Let_def)

lemma ring_bounds:
  assumes "ring bs xs"
  shows "length bs = Suc NBUF" "HEAD \<notin> set xs" "\<forall>n \<in> set (HEAD # xs). n < length bs" "length xs = NBUF"
proof -
  have "distinct xs" "set xs = {..<NBUF}" using assms by (simp_all add: ring_def)
  then show "length xs = NBUF" using distinct_card [of xs] by simp
qed (use assms in \<open>auto simp: ring_def HEAD_def\<close>)

text \<open>Releasing the last reference moves the buffer to the front of the list.\<close>

lemma ring_to_front:
  assumes "ring bs xs" "b < NBUF"
  shows "ring (push_l b (unlink_l b bs)) (b # remove1 b xs)"
proof -
  have "b \<in> set xs" using assms by (simp add: ring_def)
  then obtain as cs where xs: "xs = as @ b # cs" "b \<notin> set as" by (meson split_list_first)
  note bd = ring_bounds [OF assms(1)]
  have d: "distinct xs" "set xs = {..<NBUF}" "seg bs HEAD xs HEAD" using assms(1) by (simp_all add: ring_def)
  have r: "remove1 b xs = as @ cs" using xs by (simp add: remove1_append)
  have "seg (unlink_l b bs) HEAD (as @ cs) HEAD"
    using d bd unfolding xs by (intro seg_unlink) (auto simp: xs)
  then have "seg (push_l b (unlink_l b bs)) HEAD (b # as @ cs) HEAD"
    using d bd by (intro seg_push) (auto simp: xs)
  moreover have "set (b # as @ cs) = {..<NBUF}" "distinct (b # as @ cs)" using d(1,2) by (auto simp: xs)
  ultimately show ?thesis using bd by (simp add: ring_def r)
qed

lemma ring_core:
  assumes "ring bs xs" "length bs' = length bs"
    "\<And>i. b_next (bs' ! i) = b_next (bs ! i)" "\<And>i. b_prev (bs' ! i) = b_prev (bs ! i)"
  shows "ring bs' xs"
  using assms seg_cong [of HEAD xs bs' bs HEAD] by (simp add: ring_def)

lemma bget_cached_find:
  "seg (bcache s) a xs HEAD \<Longrightarrow> HEAD \<notin> set xs \<Longrightarrow> length xs < n \<Longrightarrow>
   bget_cached n (b_next (buf_at a s)) dev bno s =
     Done (find (\<lambda>i. b_dev (buf_at i s) = dev \<and> blockno (buf_at i s) = bno) xs) s"
proof (induction xs arbitrary: a n)
  case Nil
  then show ?case by (cases n) (auto simp: kern_defs)
next
  case (Cons x xs)
  then obtain n' where "n = Suc n'" by (cases n) auto
  with Cons show ?case by (auto simp: kern_defs)
qed

lemma bget_free_find:
  "seg (bcache s) HEAD xs z \<Longrightarrow> HEAD \<notin> set xs \<Longrightarrow> length xs < n \<Longrightarrow>
   bget_free n (b_prev (buf_at z s)) s =
     Done (find (\<lambda>i. refcnt (buf_at i s) = 0 \<and> \<not> b_dirty (buf_at i s)) (rev xs)) s"
proof (induction xs arbitrary: z n rule: rev_induct)
  case Nil
  then show ?case by (cases n) (auto simp: kern_defs)
next
  case (snoc x xs)
  then obtain n' where "n = Suc n'" by (cases n) auto
  with snoc show ?case by (auto simp: kern_defs seg_append)
qed

subsection \<open>The cache invariant\<close>

text \<open>
  The cache as the current process \<open>p\<close> sees it when it holds the buffers \<open>H\<close> and no other process holds any:
  the buffers form a ring, at most one buffer caches a given block, the held buffers are valid and
  locked by \<open>p\<close>, the others are free, and a buffer that is neither held nor dirty agrees with the disk.
\<close>

definition buf_inv :: "bool \<Rightarrow> int \<Rightarrow> uchar list list \<Rightarrow> sleeplock \<Rightarrow> buf \<Rightarrow> bool" where
  "buf_inv h pd disk sl b \<longleftrightarrow> slocked sl = h \<and> refcnt b = (if h then 1 else 0) \<and>
     (h \<longrightarrow> sl_pid sl = pd \<and> b_valid b) \<and> (b_dirty b \<longrightarrow> b_valid b) \<and>
     (b_valid b \<longrightarrow> b_dev b = 1 \<and> unat (blockno b) < length disk \<and> length (data b) = BSIZE \<and>
        (\<not> h \<and> \<not> b_dirty b \<longrightarrow> data b = disk ! unat (blockno b)))"

definition caches :: "nat \<Rightarrow> nat \<Rightarrow> 'x kbio_scheme \<Rightarrow> bool" where
  "caches i b s \<longleftrightarrow> i < NBUF \<and> b_dev (buf_at i s) = 1 \<and> unat (blockno (buf_at i s)) = b"

definition bc :: "nat \<Rightarrow> nat set \<Rightarrow> 'x kbio_scheme \<Rightarrow> bool" where
  "bc p H s \<longleftrightarrow> in_proc p s \<and> H \<subseteq> {..<NBUF} \<and> (\<exists>xs. ring (bcache s) xs) \<and>
     (\<forall>i<NBUF. buf_inv (i \<in> H) (pid (proc_at p s)) (memdisk s) (slocks s i) (buf_at i s)) \<and>
     (\<forall>i j b. caches i b s \<longrightarrow> caches j b s \<longrightarrow> i = j) \<and> (\<forall>d \<in> set (memdisk s). length d = BSIZE)"

text \<open>The content of block \<open>b\<close> as seen through the cache.\<close>

definition blk :: "'x kbio_scheme \<Rightarrow> nat \<Rightarrow> uchar list" where
  "blk s b = (case find (\<lambda>i. caches i b s \<and> b_valid (buf_at i s)) [0..<NBUF] of
     Some i \<Rightarrow> data (buf_at i s) | None \<Rightarrow> memdisk s ! b)"

definition dirty_idx :: "'x kbio_scheme \<Rightarrow> nat set" where
  "dirty_idx s = {i. i < NBUF \<and> b_dirty (buf_at i s)}"

definition dirty_blocks :: "'x kbio_scheme \<Rightarrow> nat set" where
  "dirty_blocks s = (\<lambda>i. unat (blockno (buf_at i s))) ` dirty_idx s"

text \<open>What the cache operations leave alone.\<close>

definition bstep :: "'x kbio_scheme \<Rightarrow> 'x kbio_scheme \<Rightarrow> bool" where
  "bstep s t \<longleftrightarrow> (\<exists>ps sl bs md dw. t = s\<lparr>ptable := (ptable s)\<lparr>procs := ps\<rparr>, slocks := sl, bcache := bs, memdisk := md, dwrites := dw\<rparr> \<and>
     map (pstate_update (\<lambda>_. UNUSED)) ps = map (pstate_update (\<lambda>_. UNUSED)) (procs (ptable s)) \<and>
     (\<forall>j \<ge> NBUF. sl j = slocks s j))"

lemma find_unique: "x \<in> set xs \<Longrightarrow> P x \<Longrightarrow> (\<And>y. y \<noteq> x \<Longrightarrow> \<not> P y) \<Longrightarrow> find P xs = Some x"
  by (induction xs) auto

lemma findSomeD: "find P xs = Some x \<Longrightarrow> P x"
  by (induction xs) (auto split: if_splits)

lemma findSome_mem: "find P xs = Some x \<Longrightarrow> x \<in> set xs"
  by (induction xs) (auto split: if_splits)

lemma find_append: "find P (xs @ ys) = (case find P xs of None \<Rightarrow> find P ys | Some x \<Rightarrow> Some x)"
  by (induction xs) auto

lemma blk_hit:
  assumes "bc p H s" "caches i b s" "b_valid (buf_at i s)"
  shows "blk s b = data (buf_at i s)"
proof -
  have "i \<in> set [0..<NBUF]" using assms(2) by (simp add: caches_def)
  moreover have "j = i" if "caches j b s" for j using assms that unfolding bc_def by blast
  ultimately have "find (\<lambda>i. caches i b s \<and> b_valid (buf_at i s)) [0..<NBUF] = Some i"
    using assms(2,3) by (intro find_unique) blast+
  then show ?thesis by (simp add: blk_def)
qed

lemma blk_miss: "(\<And>i. caches i b s \<Longrightarrow> \<not> b_valid (buf_at i s)) \<Longrightarrow> blk s b = memdisk s ! b"
proof -
  assume "\<And>i. caches i b s \<Longrightarrow> \<not> b_valid (buf_at i s)"
  then have "find (\<lambda>i. caches i b s \<and> b_valid (buf_at i s)) [0..<NBUF] = None"
    by (auto simp: find_None_iff)
  then show ?thesis by (simp add: blk_def)
qed

lemma blk_cong:
  assumes "\<And>i. i < NBUF \<Longrightarrow> (core (buf_at i t))\<lparr>refcnt := 0\<rparr> = (core (buf_at i s))\<lparr>refcnt := 0\<rparr>" "memdisk t = memdisk s"
  shows "blk t b = blk s b" "dirty_blocks t = dirty_blocks s" "caches i b t = caches i b s"
proof -
  have e: "b_dirty (buf_at i t) = b_dirty (buf_at i s) \<and> b_valid (buf_at i t) = b_valid (buf_at i s) \<and> b_dev (buf_at i t) = b_dev (buf_at i s) \<and>
      blockno (buf_at i t) = blockno (buf_at i s) \<and> data (buf_at i t) = data (buf_at i s)" if "i < NBUF" for i
    using assms(1) [OF that] by (cases "buf_at i t"; cases "buf_at i s") (simp add: core_def)
  then show "caches i b t = caches i b s" "dirty_blocks t = dirty_blocks s"
    by (auto simp: caches_def dirty_blocks_def dirty_idx_def)
  from e have "find (\<lambda>i. caches i b t \<and> b_valid (buf_at i t)) [0..<NBUF] =
      find (\<lambda>i. caches i b s \<and> b_valid (buf_at i s)) [0..<NBUF]"
    by (intro find_cong) (auto simp: caches_def)
  moreover have "i < NBUF" if "find (\<lambda>i. caches i b s \<and> b_valid (buf_at i s)) [0..<NBUF] = Some i" for i
    using that by (auto simp: find_Some_iff)
  ultimately show "blk t b = blk s b" using e assms(2) by (auto simp: blk_def split: option.splits)
qed

lemma in_proc_kbio [simp]:
  "in_proc p s \<Longrightarrow> in_proc p (s\<lparr>bcache := x\<rparr>)" "in_proc p s \<Longrightarrow> in_proc p (s\<lparr>memdisk := y\<rparr>)"
  "in_proc p s \<Longrightarrow> in_proc p (s\<lparr>dwrites := z\<rparr>)"
  unfolding in_proc_def by simp_all

lemma bcD:
  assumes "bc p H s"
  shows "in_proc p s" "H \<subseteq> {..<NBUF}" "\<exists>xs. ring (bcache s) xs" "length (bcache s) = Suc NBUF"
    "\<And>i. i < NBUF \<Longrightarrow> buf_inv (i \<in> H) (pid (proc_at p s)) (memdisk s) (slocks s i) (buf_at i s)"
    "\<And>i j b. caches i b s \<Longrightarrow> caches j b s \<Longrightarrow> i = j" "\<And>b. b < length (memdisk s) \<Longrightarrow> length (memdisk s ! b) = BSIZE"
  using assms ring_bounds(1) unfolding bc_def by (blast | simp)+

text \<open>The invariant after one buffer, its lock and possibly its block on the disk changed.\<close>

lemma bc_upd:
  assumes s: "bc p H s" and i: "i < NBUF"
    and t: "in_proc p t" "pid (proc_at p t) = pid (proc_at p s)" "bcache t = (bcache s)[i := b']" "slocks t = (slocks s)(i := sl')"
    and links: "b_next b' = b_next (buf_at i s)" "b_prev b' = b_prev (buf_at i s)"
    and inv: "buf_inv (i \<in> H') (pid (proc_at p s)) (memdisk t) sl' b'" and H': "H' - {i} = H - {i}"
    and u: "b_dev b' = 1 \<Longrightarrow> (\<And>j. j \<noteq> i \<Longrightarrow> \<not> caches j (unat (blockno b')) s)"
    and md: "memdisk t = memdisk s \<or>
      b_dev b' = 1 \<and> length d = BSIZE \<and> memdisk t = (memdisk s)[unat (blockno b') := d]"
  shows "bc p H' t"
proof -
  note S = bcD [OF s]
  have c: "caches j b t \<longleftrightarrow> (if j = i then b_dev b' = 1 \<and> unat (blockno b') = b else caches j b s)" for j b
    using i S(4) by (auto simp: caches_def t(3) nth_list_update)
  have "ring (bcache t) xs" if "ring (bcache s) xs" for xs
    using links by (intro ring_core [OF that]) (auto simp: t(3) intro!: nth_update_same)
  moreover have "buf_inv (j \<in> H') (pid (proc_at p t)) (memdisk t) (slocks t j) (buf_at j t)" if j: "j < NBUF" for j
  proof (cases "j = i")
    case True
    then show ?thesis using inv i S(4) by (simp add: t)
  next
    case False
    have h: "(j \<in> H') = (j \<in> H)" using H' False by blast
    have "memdisk t ! unat (blockno (buf_at j s)) = memdisk s ! unat (blockno (buf_at j s))" if "b_dev (buf_at j s) = 1"
      using md u [OF _ False] j that by (auto simp: caches_def)
    moreover have "length (memdisk t) = length (memdisk s)" using md by auto
    ultimately show ?thesis using S(5) [OF j] False h by (simp add: t buf_inv_def)
  qed
  moreover have "j = k" if "caches j b t" "caches k b t" for j k b
    using that S(6) u unfolding c by (auto split: if_splits)
  moreover have "\<forall>d \<in> set (memdisk t). length d = BSIZE"
    using s md set_update_subset_insert unfolding bc_def by (metis insertE subsetD)
  moreover have "H' \<subseteq> {..<NBUF}" using S(2) H' i by blast
  ultimately show ?thesis using t(1) S(3) unfolding bc_def by blast
qed

lemma bc_relink:
  assumes "bc p H s" "ring bs xs" "\<And>i. core (bs ! i) = core (buf_at i s)"
  shows "bc p H (s\<lparr>bcache := bs\<rparr>)"
proof -
  have e: "b_valid (bs ! i) = b_valid (buf_at i s)" "b_dev (bs ! i) = b_dev (buf_at i s)" "b_dirty (bs ! i) = b_dirty (buf_at i s)"
      "blockno (bs ! i) = blockno (buf_at i s)" "data (bs ! i) = data (buf_at i s)" "refcnt (bs ! i) = refcnt (buf_at i s)" for i
    using assms(3) [of i] by (cases "buf_at i s"; cases "bs ! i"; simp add: core_def)+
  show ?thesis
    using assms(1,2) unfolding bc_def by (auto simp: caches_def buf_inv_def e)
qed

subsection \<open>Reading a block\<close>

lemma bget_hit:
  assumes s: "bc p H s" and i: "i < NBUF" "i \<notin> H" "b_dev (buf_at i s) = 1" "blockno (buf_at i s) = bno"
  shows "bget 1 bno s = Done i (upd_slock i (\<lambda>l. l\<lparr>slocked := True, sl_pid := pid (proc_at p s)\<rparr>)
    (s\<lparr>bcache := (bcache s)[i := (buf_at i s)\<lparr>refcnt := 1\<rparr>]\<rparr>))"
proof -
  note S = bcD [OF s]
  from S(3) obtain xs where r: "ring (bcache s) xs" by blast
  note R = ring_bounds [OF r]
  have seg: "seg (bcache s) HEAD xs HEAD" and mem: "i \<in> set xs" using r i by (simp_all add: ring_def)
  have "\<not> (b_dev (buf_at j s) = 1 \<and> blockno (buf_at j s) = bno)" if "j \<in> set xs" "j \<noteq> i" for j
  proof -
    have "j < NBUF" using that r by (auto simp: ring_def)
    then show ?thesis using S(6) [of j "unat bno" i] i that by (auto simp: caches_def)
  qed
  then have "find (\<lambda>i. b_dev (buf_at i s) = 1 \<and> blockno (buf_at i s) = bno) xs =
      find (\<lambda>j. j = i) xs"
    using i by (intro find_cong) auto
  also have "\<dots> = Some i" using mem by (intro find_unique) auto
  finally have f: "bget_cached (Suc NBUF) (b_next (buf_at HEAD s)) 1 bno (acquired Lk_bcache s) = Done (Some i) (acquired Lk_bcache s)"
    using bget_cached_find [of "acquired Lk_bcache s" HEAD xs "Suc NBUF" 1 bno] seg R by (simp del: bget_cached.simps)
  have z: "refcnt (buf_at i s) = 0" "\<not> slocked (slocks s i)" using S(5) [OF i(1)] i(2) by (simp_all add: buf_inv_def)
  show ?thesis
    using S(1) z by (simp del: bget_cached.simps add: bget_def kern_defs acquire_Done f release_Done upd_buf_def acquiresleep_Done [of p])
qed

lemma bget_victim:
  assumes s: "bc p H s" and r: "ring (bcache s) xs" and miss: "\<And>i. \<not> caches i (unat bno) s"
    and i: "find (\<lambda>i. refcnt (buf_at i s) = 0 \<and> \<not> b_dirty (buf_at i s)) (rev xs) = Some i"
  shows "i < NBUF" "i \<notin> H" "\<not> b_dirty (buf_at i s)"
    "bget 1 bno s = Done i (upd_slock i (\<lambda>l. l\<lparr>slocked := True, sl_pid := pid (proc_at p s)\<rparr>)
    (s\<lparr>bcache := (bcache s)[i := (buf_at i s)\<lparr>b_dev := 1, blockno := bno, b_valid := False, b_dirty := False, refcnt := 1\<rparr>]\<rparr>))"
proof -
  note S = bcD [OF s] and R = ring_bounds [OF r]
  have seg: "seg (bcache s) HEAD xs HEAD" and xs: "set xs = {..<NBUF}" using r by (simp_all add: ring_def)
  have "find (\<lambda>i. b_dev (buf_at i s) = 1 \<and> blockno (buf_at i s) = bno) xs = None"
    using miss xs by (auto simp: find_None_iff caches_def)
  then have f: "bget_cached (Suc NBUF) (b_next (buf_at HEAD s)) 1 bno (acquired Lk_bcache s) = Done None (acquired Lk_bcache s)"
    using bget_cached_find [of "acquired Lk_bcache s" HEAD xs "Suc NBUF" 1 bno] seg R by (simp del: bget_cached.simps)
  have z: "refcnt (buf_at i s) = 0" using findSomeD [OF i] by blast
  show i': "i < NBUF" "\<not> b_dirty (buf_at i s)" using findSomeD [OF i] findSome_mem [OF i] xs by auto
  then show ih: "i \<notin> H" using S(5) [OF i'(1)] z by (auto simp: buf_inv_def split: if_splits)
  then have sl: "\<not> slocked (slocks s i)" using S(5) [OF i'(1)] by (simp add: buf_inv_def)
  have g: "bget_free (Suc NBUF) (b_prev (buf_at HEAD s)) (acquired Lk_bcache s) = Done (Some i) (acquired Lk_bcache s)"
    using bget_free_find [of "acquired Lk_bcache s" xs HEAD "Suc NBUF"] seg R i by (simp del: bget_free.simps)
  show "bget 1 bno s = Done i (upd_slock i (\<lambda>l. l\<lparr>slocked := True, sl_pid := pid (proc_at p s)\<rparr>)
    (s\<lparr>bcache := (bcache s)[i := (buf_at i s)\<lparr>b_dev := 1, blockno := bno, b_valid := False, b_dirty := False, refcnt := 1\<rparr>]\<rparr>))"
    using S(1) sl
    by (simp del: bget_cached.simps bget_free.simps add: bget_def kern_defs acquire_Done f g release_Done upd_buf_def acquiresleep_Done [of p])
qed

lemma bget_miss:
  assumes s: "bc p H s" and miss: "\<And>i. \<not> caches i (unat bno) s" and room: "card (dirty_idx s \<union> H) < NBUF"
  obtains i where "i < NBUF" "i \<notin> H" "\<not> b_dirty (buf_at i s)"
    "bget 1 bno s = Done i (upd_slock i (\<lambda>l. l\<lparr>slocked := True, sl_pid := pid (proc_at p s)\<rparr>)
    (s\<lparr>bcache := (bcache s)[i := (buf_at i s)\<lparr>b_dev := 1, blockno := bno, b_valid := False, b_dirty := False, refcnt := 1\<rparr>]\<rparr>))"
proof -
  note S = bcD [OF s]
  from S(3) obtain xs where r: "ring (bcache s) xs" by blast
  let ?P = "\<lambda>i. refcnt (buf_at i s) = 0 \<and> \<not> b_dirty (buf_at i s)"
  have "\<not> {..<NBUF} \<subseteq> dirty_idx s \<union> H"
  proof
    assume "{..<NBUF} \<subseteq> dirty_idx s \<union> H"
    moreover have "finite (dirty_idx s \<union> H)" using S(2) by (simp add: dirty_idx_def finite_subset)
    ultimately have "card {..<NBUF} \<le> card (dirty_idx s \<union> H)" by (intro card_mono)
    then show False using room by simp
  qed
  then obtain j where "j < NBUF" "j \<notin> H" "\<not> b_dirty (buf_at j s)" by (auto simp: dirty_idx_def)
  then have "j \<in> set (rev xs)" "?P j" using S(5) r by (simp_all add: buf_inv_def ring_def)
  then have "find ?P (rev xs) \<noteq> None" by (auto simp: find_None_iff)
  then obtain i where "find ?P (rev xs) = Some i" by blast
  from bget_victim [OF s r miss this] show ?thesis by (rule that)
qed

lemma iderw_read:
  assumes "in_proc p s" "slocked (slocks s i)" "sl_pid (slocks s i) = pid (proc_at p s)" "i < length (bcache s)"
    "\<not> b_valid (buf_at i s)" "\<not> b_dirty (buf_at i s)" "b_dev (buf_at i s) = 1" "unat (blockno (buf_at i s)) < length (memdisk s)"
  shows "iderw i s = Done () (s\<lparr>bcache := (bcache s)[i := (buf_at i s)
    \<lparr>data := memdisk s ! unat (blockno (buf_at i s)), b_valid := True\<rparr>]\<rparr>)"
  using assms by (simp add: iderw_def kern_defs holdingsleep_Done [of p] upd_buf_def)

lemma iderw_write:
  assumes "in_proc p s" "slocked (slocks s i)" "sl_pid (slocks s i) = pid (proc_at p s)" "i < length (bcache s)"
    "b_dirty (buf_at i s)" "b_dev (buf_at i s) = 1" "unat (blockno (buf_at i s)) < length (memdisk s)"
  shows "iderw i s = Done () (s\<lparr>bcache := (bcache s)[i := (buf_at i s)\<lparr>b_dirty := False, b_valid := True\<rparr>],
    memdisk := (memdisk s)[unat (blockno (buf_at i s)) := data (buf_at i s)],
    dwrites := dwrites s @ [(unat (blockno (buf_at i s)), data (buf_at i s))]\<rparr>)"
  using assms by (simp add: iderw_def kern_defs holdingsleep_Done [of p] upd_buf_def)

lemma bstep_refl [simp]: "bstep s s"
  unfolding bstep_def
  by (rule exI [of _ "procs (ptable s)"], rule exI [of _ "slocks s"], rule exI [of _ "bcache s"], rule exI [of _ "memdisk s"],
      rule exI [of _ "dwrites s"]) simp

lemma bstep_trans: "bstep s t \<Longrightarrow> bstep t u \<Longrightarrow> bstep s u"
  unfolding bstep_def by force

lemma bstepI:
  assumes "t = s\<lparr>slocks := sl, bcache := bs, memdisk := md, dwrites := dw\<rparr>" "\<forall>j \<ge> NBUF. sl j = slocks s j"
  shows "bstep s t"
  unfolding bstep_def
  by (rule exI [of _ "procs (ptable s)"], rule exI [of _ sl], rule exI [of _ bs], rule exI [of _ md], rule exI [of _ dw])
     (use assms in auto)

text \<open>What \<^verbatim>\<open>bread\<close> promises: buffer \<open>i\<close>, not held before, is held now and shows the content of the block;
  what is seen of every block, the disk and all other buffers are unchanged.\<close>

definition bread_post :: "nat \<Rightarrow> nat set \<Rightarrow> 'x kbio_scheme \<Rightarrow> nat \<Rightarrow> nat \<Rightarrow> 'x kbio_scheme \<Rightarrow> bool" where
  "bread_post p H s b i t \<longleftrightarrow> i \<notin> H \<and> bc p (insert i H) t \<and> caches i b t \<and> data (buf_at i t) = blk s b \<and>
     blk t = blk s \<and> memdisk t = memdisk s \<and> dwrites t = dwrites s \<and> dirty_blocks t = dirty_blocks s \<and>
     (\<forall>j. j \<noteq> i \<longrightarrow> buf_at j t = buf_at j s) \<and> bstep s t"

lemma blk_eqI:
  assumes "bc p H t" "\<And>j. caches j b t \<Longrightarrow> b_valid (buf_at j t) \<Longrightarrow> x = data (buf_at j t)"
    "(\<And>j. caches j b t \<Longrightarrow> \<not> b_valid (buf_at j t)) \<Longrightarrow> x = memdisk t ! b"
  shows "blk t b = x"
proof (cases "\<exists>j. caches j b t \<and> b_valid (buf_at j t)")
  case True
  then obtain j where "caches j b t" "b_valid (buf_at j t)" by blast
  then show ?thesis using blk_hit [OF assms(1)] assms(2) by simp
next
  case False
  then show ?thesis using blk_miss assms(3) by blast
qed

lemma bread_postI:
  assumes s: "bc p H s" and i: "i < NBUF" "i \<notin> H" and b: "unat bno < length (memdisk s)"
    and x: "b_dev x = 1" "blockno x = bno" "refcnt x = 1" "b_valid x" "b_next x = b_next (buf_at i s)" "b_prev x = b_prev (buf_at i s)"
      "data x = blk s (unat bno)" "length (data x) = BSIZE" "b_dirty x = b_dirty (buf_at i s)" "b_dirty x \<Longrightarrow> b_dev (buf_at i s) = 1 \<and> blockno (buf_at i s) = bno"
    and u: "\<And>j. j \<noteq> i \<Longrightarrow> \<not> caches j (unat bno) s"
    and t: "t = s\<lparr>slocks := (slocks s)(i := (slocks s i)\<lparr>slocked := True, sl_pid := pid (proc_at p s)\<rparr>), bcache := (bcache s)[i := x]\<rparr>"
  shows "bread_post p H s (unat bno) i t"
proof -
  note S = bcD [OF s]
  have bt: "bc p (insert i H) t"
    using S(1,4) i b x u by (intro bc_upd [OF s i(1), of t x "(slocks s i)\<lparr>slocked := True, sl_pid := pid (proc_at p s)\<rparr>"])
      (auto simp: t buf_inv_def)
  have n: "buf_at j t = (if j = i then x else buf_at j s)" for j
    using i S(4) by (simp add: t nth_list_update)
  have c: "caches j c t \<longleftrightarrow> (if j = i then c = unat bno else caches j c s)" for j c
    using i x by (auto simp: caches_def n)
  have "blk t c = blk s c" for c
  proof (rule blk_eqI [OF bt])
    fix j assume j: "caches j c t" "b_valid (buf_at j t)"
    show "blk s c = data (buf_at j t)"
    proof (cases "j = i")
      case True
      then show ?thesis using j x by (simp add: c n)
    next
      case False
      then show ?thesis using j blk_hit [OF s, of j c] by (simp add: c n)
    qed
  next
    assume none: "\<And>j. caches j c t \<Longrightarrow> \<not> b_valid (buf_at j t)"
    have "c \<noteq> unat bno" using none [of i] x by (auto simp: c n)
    show "blk s c = memdisk t ! c"
    proof (rule blk_eqI [OF s])
      fix j assume j: "caches j c s" "b_valid (buf_at j s)"
      then have "j = i" using none [of j] by (cases "j = i") (simp_all add: c n)
      then show "memdisk t ! c = data (buf_at j s)"
        using j S(5) [OF i(1)] i x \<open>c \<noteq> unat bno\<close> by (auto simp: t buf_inv_def caches_def)
    qed (simp add: t)
  qed
  moreover have "dirty_blocks t = dirty_blocks s"
  proof -
    have "dirty_idx t = dirty_idx s" using x by (auto simp: dirty_idx_def n)
    moreover have "blockno (buf_at j t) = blockno (buf_at j s)" if "j \<in> dirty_idx s" for j
      using that x by (auto simp: dirty_idx_def n)
    ultimately show ?thesis by (auto simp: dirty_blocks_def)
  qed
  moreover have "bstep s t"
    using i by (intro bstepI [where sl = "slocks t" and bs = "bcache t" and md = "memdisk s" and dw = "dwrites s"]) (auto simp: t)
  ultimately show ?thesis
    using bt i x by (auto simp: bread_post_def n caches_def) (simp_all add: t)
qed

lemma length_blk:
  assumes "bc p H s" "b < length (memdisk s)"
  shows "length (blk s b) = BSIZE"
proof (cases "\<exists>j. caches j b s \<and> b_valid (buf_at j s)")
  case True
  then obtain j where j: "caches j b s" "b_valid (buf_at j s)" by blast
  then show ?thesis using blk_hit [OF assms(1) j] bcD(5) [OF assms(1), of j] by (simp add: caches_def buf_inv_def)
next
  case False
  then show ?thesis using blk_miss [of b s] bcD(7) [OF assms] by auto
qed

lemma bread_runs:
  assumes s: "bc p H s" and b: "unat bno < length (memdisk s)" and nh: "\<And>i. i \<in> H \<Longrightarrow> \<not> caches i (unat bno) s"
    and room: "(\<exists>i. caches i (unat bno) s) \<or> card (dirty_idx s \<union> H) < NBUF"
  shows "runs (bread 1 bno) s (bread_post p H s (unat bno))"
proof -
  note S = bcD [OF s]
  let ?sl = "\<lambda>i. (slocks s)(i := (slocks s i)\<lparr>slocked := True, sl_pid := pid (proc_at p s)\<rparr>)"
  have rd: "iderw i (s\<lparr>slocks := ?sl i, bcache := (bcache s)[i := x]\<rparr>) =
      Done () (s\<lparr>slocks := ?sl i, bcache := (bcache s)[i := x\<lparr>data := memdisk s ! unat bno, b_valid := True\<rparr>]\<rparr>)"
    if "i < NBUF" "\<not> b_valid x" "\<not> b_dirty x" "b_dev x = 1" "blockno x = bno" for i x
    using that S(1,4) b by (subst iderw_read [of p]) simp_all
  show ?thesis
  proof (cases "\<exists>i. caches i (unat bno) s")
    case True
    then obtain i where c: "caches i (unat bno) s" by blast
    then have i: "i < NBUF" "i \<notin> H" "b_dev (buf_at i s) = 1" "blockno (buf_at i s) = bno"
      using nh by (auto simp: caches_def word_unat_eq_iff [of _ bno])
    have u: "j \<noteq> i \<Longrightarrow> \<not> caches j (unat bno) s" for j using S(6) c by blast
    let ?x = "(buf_at i s)\<lparr>refcnt := 1\<rparr>"
    have g: "bget 1 bno s = Done i (s\<lparr>slocks := ?sl i, bcache := (bcache s)[i := ?x]\<rparr>)"
      using bget_hit [OF s i] by (simp add: upd_slock_def)
    have inv: "buf_inv False (pid (proc_at p s)) (memdisk s) (slocks s i) (buf_at i s)" using S(5) [OF i(1)] i(2) by simp
    show ?thesis
    proof (cases "b_valid (buf_at i s)")
      case v: True
      then have "bread 1 bno s = Done i (s\<lparr>slocks := ?sl i, bcache := (bcache s)[i := ?x]\<rparr>)"
        using i S(4) by (simp add: bread_def kern_defs g)
      moreover have "bread_post p H s (unat bno) i (s\<lparr>slocks := ?sl i, bcache := (bcache s)[i := ?x]\<rparr>)"
        using v i u inv blk_hit [OF s c v] by (intro bread_postI [OF s i(1,2) b, of ?x]) (auto simp: buf_inv_def)
      ultimately show ?thesis by (simp add: runs_Done)
    next
      case v: False
      let ?y = "?x\<lparr>data := memdisk s ! unat bno, b_valid := True\<rparr>"
      have bl: "blk s (unat bno) = memdisk s ! unat bno" using v u by (intro blk_miss) metis
      have d: "\<not> b_dirty (buf_at i s)" using v inv by (auto simp: buf_inv_def)
      have "bread 1 bno s = Done i (s\<lparr>slocks := ?sl i, bcache := (bcache s)[i := ?y]\<rparr>)"
        using i v d S(4) rd [OF i(1), of ?x] by (simp add: bread_def kern_defs g)
      moreover have "bread_post p H s (unat bno) i (s\<lparr>slocks := ?sl i, bcache := (bcache s)[i := ?y]\<rparr>)"
        using v d i u bl S(7) [OF b] by (intro bread_postI [OF s i(1,2) b, of ?y]) auto
      ultimately show ?thesis by (simp add: runs_Done)
    qed
  next
    case False
    then have miss: "\<not> caches i (unat bno) s" and room: "card (dirty_idx s \<union> H) < NBUF" for i using room by blast+
    obtain i where i: "i < NBUF" "i \<notin> H" "\<not> b_dirty (buf_at i s)"
      and g: "bget 1 bno s = Done i (upd_slock i (\<lambda>l. l\<lparr>slocked := True, sl_pid := pid (proc_at p s)\<rparr>)
        (s\<lparr>bcache := (bcache s)[i := (buf_at i s)\<lparr>b_dev := 1, blockno := bno, b_valid := False, b_dirty := False, refcnt := 1\<rparr>]\<rparr>))"
      by (rule bget_miss [OF s miss room])
    let ?x = "(buf_at i s)\<lparr>b_dev := 1, blockno := bno, b_valid := False, b_dirty := False, refcnt := 1\<rparr>"
    let ?y = "?x\<lparr>data := memdisk s ! unat bno, b_valid := True\<rparr>"
    have g': "bget 1 bno s = Done i (s\<lparr>slocks := ?sl i, bcache := (bcache s)[i := ?x]\<rparr>)"
      using g by (simp add: upd_slock_def)
    have "bread 1 bno s = Done i (s\<lparr>slocks := ?sl i, bcache := (bcache s)[i := ?y]\<rparr>)"
      using i S(4) rd [OF i(1), of ?x] by (simp add: bread_def kern_defs g')
    moreover have "bread_post p H s (unat bno) i (s\<lparr>slocks := ?sl i, bcache := (bcache s)[i := ?y]\<rparr>)"
      using i miss S(7) [OF b] blk_miss [of "unat bno" s] by (intro bread_postI [OF s i(1,2) b, of ?y]) auto
    ultimately show ?thesis by (simp add: runs_Done)
  qed
qed

subsection \<open>The cache in terms of blocks\<close>

text \<open>
  The abstract state of the cache: \<open>h\<close> maps the buffers held by the process \<open>p\<close> to their blocks, \<open>V\<close> is what
  is seen of each block through the cache, \<open>D\<close> the disk, \<open>W\<close> the writes so far, and \<open>X\<close> the blocks whose
  buffer is dirty and so cannot be recycled.
\<close>

definition cache_st :: "nat \<Rightarrow> (nat \<Rightarrow> nat option) \<Rightarrow> (nat \<Rightarrow> uchar list) \<Rightarrow> uchar list list \<Rightarrow>
    (nat \<times> uchar list) list \<Rightarrow> nat set \<Rightarrow> 'x kbio_scheme \<Rightarrow> bool" where
  "cache_st p h V D W X s \<longleftrightarrow> bc p (dom h) s \<and> (\<forall>i b. h i = Some b \<longrightarrow> caches i b s) \<and>
     blk s = V \<and> memdisk s = D \<and> dwrites s = W \<and> dirty_blocks s = X"

lemma cache_stD:
  assumes "cache_st p h V D W X s"
  shows "bc p (dom h) s" "\<And>i b. h i = Some b \<Longrightarrow> caches i b s" "blk s = V" "memdisk s = D" "dwrites s = W"
    "dirty_blocks s = X"
  using assms by (simp_all add: cache_st_def)

lemma in_use_caches:
  assumes "cache_st p h V D W X s" "i \<in> dirty_idx s \<union> dom h"
  shows "caches i (unat (blockno (buf_at i s))) s" "b_valid (buf_at i s)" "i < NBUF"
proof -
  note C = cache_stD [OF assms(1)]
  show i: "i < NBUF" using assms(2) bcD(2) [OF C(1)] by (auto simp: dirty_idx_def)
  have "buf_inv (i \<in> dom h) (pid (proc_at p s)) (memdisk s) (slocks s i) (buf_at i s)" by (rule bcD(5) [OF C(1) i])
  then show "b_valid (buf_at i s)" "caches i (unat (blockno (buf_at i s))) s"
    using assms(2) i by (auto simp: buf_inv_def dirty_idx_def caches_def)
qed

lemma in_use_card:
  assumes "cache_st p h V D W X s"
  shows "card (dirty_idx s \<union> dom h) = card (X \<union> ran h)"
proof -
  note C = cache_stD [OF assms]
  let ?f = "\<lambda>i. unat (blockno (buf_at i s))"
  have "inj_on ?f (dirty_idx s \<union> dom h)"
  proof (rule inj_onI)
    fix i j assume ij: "i \<in> dirty_idx s \<union> dom h" "j \<in> dirty_idx s \<union> dom h" "?f i = ?f j"
    show "i = j" using bcD(6) [OF C(1) in_use_caches(1) [OF assms ij(1)]] in_use_caches(1) [OF assms ij(2)] ij(3) by simp
  qed
  moreover have "?f ` dom h = ran h"
  proof -
    have "?f i = b" if "h i = Some b" for i b using C(2) [OF that] by (simp add: caches_def)
    then show ?thesis by (auto simp: ran_def image_def)
  qed
  ultimately show ?thesis using card_image [of ?f "dirty_idx s \<union> dom h"] C(6) by (simp add: dirty_blocks_def image_Un)
qed

lemma cache_bread:
  assumes s: "cache_st p h V D W X s" and b: "unat bno < length D" "unat bno \<notin> ran h"
    "unat bno \<in> X \<or> card (X \<union> ran h) < NBUF"
  shows "runs (bread 1 bno) s (\<lambda>i t. h i = None \<and> cache_st p (h(i \<mapsto> unat bno)) V D W X t \<and> bstep s t)"
proof -
  note C = cache_stD [OF s]
  have nh: "\<not> caches i (unat bno) s" if i: "i \<in> dom h" for i
  proof
    assume "caches i (unat bno) s"
    moreover obtain c where c: "h i = Some c" using i by blast
    ultimately have "c = unat bno" using C(2) [OF c] by (simp add: caches_def)
    then show False using c b(2) by (auto simp: ran_def)
  qed
  have "runs (bread 1 bno) s (bread_post p (dom h) s (unat bno))"
  proof (rule bread_runs [OF C(1) _ nh])
    show "unat bno < length (memdisk s)" using b(1) C(4) by simp
    have "\<exists>i. caches i (unat bno) s" if bx: "unat bno \<in> X"
    proof -
      obtain i where "i \<in> dirty_idx s" "unat (blockno (buf_at i s)) = unat bno"
        using bx C(6) by (auto simp: dirty_blocks_def)
      then show ?thesis using in_use_caches(1) [OF s, of i] by auto
    qed
    then show "(\<exists>i. caches i (unat bno) s) \<or> card (dirty_idx s \<union> dom h) < NBUF"
      using b(3) in_use_card [OF s] by auto
  qed
  then show ?thesis
  proof (rule runs_weaken)
    fix i t assume r: "bread_post p (dom h) s (unat bno) i t"
    then have i: "h i = None" and o: "\<And>j. j \<noteq> i \<Longrightarrow> buf_at j t = buf_at j s"
      and bt: "bc p (insert i (dom h)) t" "caches i (unat bno) t" and e: "blk t = blk s" "memdisk t = memdisk s"
        "dwrites t = dwrites s" "dirty_blocks t = dirty_blocks s" "bstep s t"
      by (auto simp: bread_post_def)
    have "caches j c t" if "j \<noteq> i" "h j = Some c" for j c using C(2) [OF that(2)] o [OF that(1)] by (simp add: caches_def)
    then show "h i = None \<and> cache_st p (h(i \<mapsto> unat bno)) V D W X t \<and> bstep s t"
      using i bt e C by (auto simp: cache_st_def)
  qed
qed

text \<open>A held buffer shows its block.\<close>

lemma cache_data:
  assumes "cache_st p h V D W X s" "h i = Some b"
  shows "data (buf_at i s) = V b" "i < NBUF" "b < length D" "length (V b) = BSIZE"
    "unat (blockno (buf_at i s)) = b" "b_valid (buf_at i s)" "b_dev (buf_at i s) = 1"
proof -
  note C = cache_stD [OF assms(1)]
  have c: "caches i b s" by (rule C(2) [OF assms(2)])
  then show i: "i < NBUF" "unat (blockno (buf_at i s)) = b" "b_dev (buf_at i s) = 1" by (simp_all add: caches_def)
  then have inv: "buf_inv True (pid (proc_at p s)) (memdisk s) (slocks s i) (buf_at i s)"
    using bcD(5) [OF C(1), of i] assms(2) by (simp add: domI)
  then show "b_valid (buf_at i s)" "b < length D" using C(4) i(2) by (auto simp: buf_inv_def)
  then show "data (buf_at i s) = V b" "length (V b) = BSIZE"
    using blk_hit [OF C(1) c] C(3) inv by (auto simp: buf_inv_def)
qed

text \<open>Effect of changing a held buffer in place, with its block on the disk or not.\<close>

lemma cache_upd:
  assumes s: "cache_st p h V D W X s" and i: "h i = Some b"
    and x: "x = (buf_at i s)\<lparr>b_dirty := dt, data := d\<rparr>" and d: "length d = BSIZE"
    and t: "t = s\<lparr>bcache := (bcache s)[i := x], memdisk := D', dwrites := W'\<rparr>"
    and D': "D' = D \<or> D' = D[b := d]"
  shows "cache_st p h (V(b := d)) D' W' (if dt then insert b X else X - {b}) t" "bstep s t"
proof -
  note C = cache_stD [OF s] and d0 = cache_data [OF s i]
  note S = bcD [OF C(1)]
  have n: "buf_at j t = (if j = i then x else buf_at j s)" for j using d0(2) S(4) by (simp add: t nth_list_update)
  have c: "caches j e t = caches j e s" for j e by (simp add: caches_def n x)
  have u: "j = i" if "caches j b s" for j using S(6) [OF that C(2) [OF i]] .
  have inv: "buf_inv True (pid (proc_at p s)) (memdisk s) (slocks s i) (buf_at i s)"
    using S(5) [OF d0(2)] i by (simp add: domI)
  have bt: "bc p (dom h) t"
  proof (rule bc_upd [OF C(1) d0(2), of t x "slocks s i"])
    show "in_proc p t" using S(1) by (simp add: t)
    show "buf_inv (i \<in> dom h) (pid (proc_at p s)) (memdisk t) (slocks s i) x"
      using inv d i D' C(4) by (auto simp: buf_inv_def x t)
    show "\<not> caches j (unat (blockno x)) s" if "b_dev x = 1" "j \<noteq> i" for j
      using u that d0(5) by (auto simp: x)
    show "memdisk t = memdisk s \<or> b_dev x = 1 \<and> length d = BSIZE \<and> memdisk t = (memdisk s)[unat (blockno x) := d]"
      using D' C(4) d0 d by (auto simp: t x)
  qed (simp_all add: t x)
  have "blk t e = (V(b := d)) e" for e
  proof (rule blk_eqI [OF bt])
    fix j assume j: "caches j e t" "b_valid (buf_at j t)"
    show "(V(b := d)) e = data (buf_at j t)"
    proof (cases "j = i")
      case True
      then show ?thesis using j d0(5) by (auto simp: n x c caches_def)
    next
      case False
      then have "e \<noteq> b" using u [of j] j by (auto simp: c)
      then show ?thesis using False j blk_hit [OF C(1), of j e] C(3) by (simp add: n c)
    qed
  next
    assume none: "\<And>j. caches j e t \<Longrightarrow> \<not> b_valid (buf_at j t)"
    have e: "e \<noteq> b"
    proof
      assume "e = b"
      then show False using none [of i] C(2) [OF i] d0(6) by (simp add: n c x)
    qed
    have "blk s e = memdisk s ! e"
    proof (rule blk_miss)
      fix j assume "caches j e s"
      then show "\<not> b_valid (buf_at j s)" using none [of j] e d0(5) by (cases "j = i") (auto simp: n c caches_def)
    qed
    then show "(V(b := d)) e = memdisk t ! e" using e D' C(3,4) by (auto simp: t)
  qed
  moreover have "dirty_blocks t = (if dt then insert b X else X - {b})"
  proof -
    have "dirty_idx t = (if dt then insert i (dirty_idx s) else dirty_idx s - {i})"
      using d0(2) by (auto simp: dirty_idx_def n x split: if_splits)
    moreover have "unat (blockno (buf_at j t)) = unat (blockno (buf_at j s))" for j by (simp add: n x)
    moreover have "j = i" if "j \<in> dirty_idx s" "unat (blockno (buf_at j s)) = b" for j
      using in_use_caches(1) [OF s, of j] that u by auto
    ultimately show ?thesis using d0(5) C(6) by (auto simp: dirty_blocks_def)
  qed
  ultimately show "cache_st p h (V(b := d)) D' W' (if dt then insert b X else X - {b}) t"
    using bt C(2) by (auto simp: cache_st_def c) (simp_all add: t)
  show "bstep s t" by (rule bstepI [where sl = "slocks s" and bs = "bcache t" and md = D' and dw = W']) (auto simp: t)
qed

lemma cache_set_data:
  assumes s: "cache_st p h V D W X s" and i: "h i = Some b" and d: "length d = BSIZE"
  shows "cache_st p h (V(b := d)) D W X (upd_buf i (\<lambda>x. x\<lparr>data := d\<rparr>) s)"
    "bstep s (upd_buf i (\<lambda>x. x\<lparr>data := d\<rparr>) s)"
proof -
  note C = cache_stD [OF s]
  have e: "(buf_at i s)\<lparr>data := d\<rparr> = (buf_at i s)\<lparr>b_dirty := b_dirty (buf_at i s), data := d\<rparr>" by simp
  have t: "upd_buf i (\<lambda>x. x\<lparr>data := d\<rparr>) s = s\<lparr>bcache := (bcache s)[i := (buf_at i s)\<lparr>data := d\<rparr>], memdisk := D, dwrites := W\<rparr>"
    using C(4,5) by (simp add: upd_buf_def)
  have "b \<in> X \<longleftrightarrow> b_dirty (buf_at i s)"
  proof
    assume "b \<in> X"
    then obtain j where j: "j \<in> dirty_idx s" "unat (blockno (buf_at j s)) = b" using C(6) by (auto simp: dirty_blocks_def)
    then have "j = i" using bcD(6) [OF C(1) _ C(2) [OF i]] in_use_caches(1) [OF s, of j] by auto
    then show "b_dirty (buf_at i s)" using j by (simp add: dirty_idx_def)
  next
    assume "b_dirty (buf_at i s)"
    then show "b \<in> X" using cache_data [OF s i] C(6) by (auto simp: dirty_blocks_def dirty_idx_def)
  qed
  then have "(if b_dirty (buf_at i s) then insert b X else X - {b}) = X" by auto
  then show "cache_st p h (V(b := d)) D W X (upd_buf i (\<lambda>x. x\<lparr>data := d\<rparr>) s)"
    "bstep s (upd_buf i (\<lambda>x. x\<lparr>data := d\<rparr>) s)"
    using cache_upd [OF s i e d t] by simp_all
qed

lemma cache_set_dirty:
  assumes s: "cache_st p h V D W X s" and i: "h i = Some b"
  shows "cache_st p h V D W (insert b X) (upd_buf i (\<lambda>x. x\<lparr>b_dirty := True\<rparr>) s)"
    "bstep s (upd_buf i (\<lambda>x. x\<lparr>b_dirty := True\<rparr>) s)"
proof -
  note C = cache_stD [OF s]
  have e: "(buf_at i s)\<lparr>b_dirty := True\<rparr> = (buf_at i s)\<lparr>b_dirty := True, data := V b\<rparr>"
    using cache_data(1) [OF s i] by simp
  have t: "upd_buf i (\<lambda>x. x\<lparr>b_dirty := True\<rparr>) s = s\<lparr>bcache := (bcache s)[i := (buf_at i s)\<lparr>b_dirty := True\<rparr>], memdisk := D, dwrites := W\<rparr>"
    using C(4,5) by (simp add: upd_buf_def)
  show "cache_st p h V D W (insert b X) (upd_buf i (\<lambda>x. x\<lparr>b_dirty := True\<rparr>) s)"
    "bstep s (upd_buf i (\<lambda>x. x\<lparr>b_dirty := True\<rparr>) s)"
    using cache_upd [OF s i e cache_data(4) [OF s i] t] by simp_all
qed

lemma cache_bwrite:
  assumes s: "cache_st p h V D W X s" and i: "h i = Some b"
  shows "runs (bwrite i) s (\<lambda>_ t. cache_st p h V (D[b := V b]) (W @ [(b, V b)]) (X - {b}) t \<and> bstep s t)"
proof -
  note C = cache_stD [OF s] and d = cache_data [OF s i]
  note S = bcD [OF C(1)]
  have lk: "slocked (slocks s i)" "sl_pid (slocks s i) = pid (proc_at p s)"
    using S(5) [OF d(2)] i by (auto simp: buf_inv_def)
  let ?u = "upd_buf i (\<lambda>x. x\<lparr>b_dirty := True\<rparr>) s"
  let ?t = "s\<lparr>bcache := (bcache s)[i := (buf_at i s)\<lparr>b_dirty := False, data := V b\<rparr>],
      memdisk := D[b := V b], dwrites := W @ [(b, V b)]\<rparr>"
  have v: "(buf_at i s)\<lparr>b_dirty := False, b_valid := True\<rparr> = (buf_at i s)\<lparr>b_dirty := False, data := V b\<rparr>"
    using d(1,6) by (intro buf.equality) simp_all
  have w: "iderw i ?u = Done () (?u\<lparr>bcache := (bcache ?u)[i := (buf_at i ?u)\<lparr>b_dirty := False, b_valid := True\<rparr>],
      memdisk := (memdisk ?u)[unat (blockno (buf_at i ?u)) := data (buf_at i ?u)],
      dwrites := dwrites ?u @ [(unat (blockno (buf_at i ?u)), data (buf_at i ?u))]\<rparr>)"
    using S(1,4) lk d(2,3,5,7) C(4) by (intro iderw_write [of p]) (simp_all add: upd_buf_def)
  have u: "buf_at i ?u = (buf_at i s)\<lparr>b_dirty := True\<rparr>" "memdisk ?u = D" "dwrites ?u = W"
    using S(4) d(2) C(4,5) by (simp_all add: upd_buf_def)
  have "iderw i ?u = Done () ?t"
    unfolding w u by (simp add: d(1,5) v) (simp add: upd_buf_def)
  then have "bwrite i s = Done () ?t"
    using S(1) lk by (simp add: bwrite_def kern_defs holdingsleep_Done [of p])
  then show ?thesis
    using cache_upd [OF s i refl d(4), where dt = False and D' = "D[b := V b]" and W' = "W @ [(b, V b)]"]
    by (simp add: runs_Done)
qed

lemma brelse_Done:
  assumes s: "bc p H s" and i: "i \<in> H"
  defines "bs \<equiv> (bcache s)[i := (buf_at i s)\<lparr>refcnt := 0\<rparr>]"
  shows "brelse i s = Done () ((upd_procs (map (wake (Chan_sleeplock i)))
      (s\<lparr>slocks := (slocks s)(i := (slocks s i)\<lparr>slocked := False, sl_pid := 0\<rparr>), bcache := push_l i (unlink_l i bs)\<rparr>)))"
proof -
  note S = bcD [OF s]
  have i': "i < NBUF" using S(2) i by blast
  have inv: "slocked (slocks s i)" "sl_pid (slocks s i) = pid (proc_at p s)" "refcnt (buf_at i s) = 1"
    using S(5) [OF i'] i by (simp_all add: buf_inv_def)
  have r: "in_proc p (upd_procs (map (wake (Chan_sleeplock i))) (upd_slock i (\<lambda>l. l\<lparr>slocked := False, sl_pid := 0\<rparr>) s))"
    using S(1) by (simp add: upd_slock_def)
  then have "idle (upd_procs (map (wake (Chan_sleeplock i))) (upd_slock i (\<lambda>l. l\<lparr>slocked := False, sl_pid := 0\<rparr>) s))"
    by (rule in_procD)
  then show ?thesis
    using S(1,4) i' inv
    by (simp add: brelse_def kern_defs holdingsleep_Done [of p] releasesleep_Done [of p] acquire_Done release_Done
        upd_buf_def lru_unlink_Done lru_push_Done upd_slock_def upd_procs_def bs_def)
qed

lemma pid_wake [simp]: "pid (wake c x) = pid x"
  by (simp add: wake_def)

lemma cache_brelse:
  assumes s: "cache_st p h V D W X s" and i: "h i = Some b" and ok: "b \<in> X \<or> V b = D ! b"
  shows "runs (brelse i) s (\<lambda>_ t. cache_st p (h(i := None)) V D W X t \<and> bstep s t)"
proof -
  note C = cache_stD [OF s] and d = cache_data [OF s i]
  note S = bcD [OF C(1)]
  let ?w = "map (wake (Chan_sleeplock i))"
  let ?sl = "(slocks s)(i := (slocks s i)\<lparr>slocked := False, sl_pid := 0\<rparr>)"
  let ?x = "(buf_at i s)\<lparr>refcnt := 0\<rparr>"
  let ?bs = "(bcache s)[i := ?x]"
  let ?u = "upd_procs ?w (s\<lparr>slocks := ?sl, bcache := ?bs\<rparr>)"
  let ?t = "upd_procs ?w (s\<lparr>slocks := ?sl, bcache := push_l i (unlink_l i ?bs)\<rparr>)"
  have run: "brelse i s = Done () ?t" using i by (intro brelse_Done [OF C(1)]) blast
  have pl: "p < length (procs (ptable s))" using S(1) by simp
  have dd: "b_dirty (buf_at i s) \<or> data (buf_at i s) = memdisk s ! b"
  proof (cases "b \<in> X")
    case True
    then obtain j where j: "j \<in> dirty_idx s" "unat (blockno (buf_at j s)) = b" using C(6) by (auto simp: dirty_blocks_def)
    then have "j = i" using S(6) [OF _ C(2) [OF i]] in_use_caches(1) [OF s, of j] by auto
    then show ?thesis using j by (simp add: dirty_idx_def)
  qed (use ok d(1) C(4) in auto)
  have u: "bc p (dom h - {i}) ?u"
  proof (rule bc_upd [OF C(1) d(2), of _ ?x "(slocks s i)\<lparr>slocked := False, sl_pid := 0\<rparr>"])
    show "in_proc p ?u" using S(1) by simp
    show "pid (proc_at p ?u) = pid (proc_at p s)" using pl by simp
    show "bcache ?u = ?bs" "slocks ?u = ?sl" by (simp_all add: upd_procs_def)
    show "memdisk ?u = memdisk s \<or> b_dev ?x = 1 \<and> length (V b) = BSIZE \<and> memdisk ?u = (memdisk s)[unat (blockno ?x) := V b]"
      by (simp add: upd_procs_def)
    show "buf_inv (i \<in> dom h - {i}) (pid (proc_at p s)) (memdisk ?u) ((slocks s i)\<lparr>slocked := False, sl_pid := 0\<rparr>) ?x"
      using S(5) [OF d(2)] dd d(5) by (auto simp: buf_inv_def upd_procs_def)
    show "\<not> caches j (unat (blockno ?x)) s" if "j \<noteq> i" for j
      using S(6) [OF _ C(2) [OF i], of j] that d(5) by auto
  qed auto
  from bcD(3) [OF u] obtain xs where "ring (bcache ?u) xs" by blast
  then have "ring ?bs xs" by (simp add: upd_procs_def)
  then have r: "ring (push_l i (unlink_l i ?bs)) (i # remove1 i xs)" by (rule ring_to_front [OF _ d(2)])
  have t: "?t = ?u\<lparr>bcache := push_l i (unlink_l i ?bs)\<rparr>" by (simp add: upd_procs_def)
  have "bc p (dom h - {i}) ?t"
    unfolding t by (rule bc_relink [OF u r]) (simp add: upd_procs_def)
  moreover have co: "(core (buf_at j ?t))\<lparr>refcnt := 0\<rparr> = (core (buf_at j s))\<lparr>refcnt := 0\<rparr>" for j
    using S(4) d(2) by (simp add: upd_procs_def nth_list_update) (simp add: core_def)
  moreover have m: "memdisk ?t = memdisk s" "dwrites ?t = dwrites s" by (simp_all add: upd_procs_def)
  moreover have "bstep s ?t"
    unfolding bstep_def
    by (rule exI [of _ "?w (procs (ptable s))"], rule exI [of _ ?sl], rule exI [of _ "bcache ?t"], rule exI [of _ "memdisk s"],
        rule exI [of _ "dwrites s"]) (use d(2) in \<open>auto simp: upd_procs_def wake_def\<close>)
  moreover note blk_cong(1) [OF co m(1)] blk_cong(2) [OF co m(1)] blk_cong(3) [OF co m(1)]
  ultimately have "cache_st p (h(i := None)) V D W X ?t \<and> bstep s ?t"
    using C by (auto simp: cache_st_def split: if_splits)
  then show ?thesis by (simp add: runs_Done run)
qed

text \<open>The state of the cache depends on its own fields only.\<close>

lemma cache_st_cong:
  assumes s: "cache_st p h V D W X s" and t: "in_proc p t" "pid (proc_at p t) = pid (proc_at p s)" "bcache t = bcache s"
    "memdisk t = memdisk s" "dwrites t = dwrites s" "\<And>i. i < NBUF \<Longrightarrow> slocks t i = slocks s i"
  shows "cache_st p h V D W X t"
proof -
  note C = cache_stD [OF s]
  have "blk t = blk s" "dirty_blocks t = dirty_blocks s" and c: "caches i b t = caches i b s" for i b
    using t(3,4) by (auto intro!: blk_cong)
  moreover have "bc p (dom h) t" using C(1) t c unfolding bc_def by auto
  ultimately show ?thesis using C t by (simp add: cache_st_def)
qed

subsection \<open>The contract of the block cache\<close>

text \<open>
  What the layers above rely on: a block is read into a handle, changed there, written to the disk, and
  released; \<open>st h V D W X\<close> is the state of the cache in terms of blocks, \<open>cap\<close> the number of buffers. The
  idioms of the clients are proved from the contract alone: look at a block and release it, overwrite a
  block, copy one block to another.
\<close>

locale block_cache =
  fixes st :: "('h \<Rightarrow> nat option) \<Rightarrow> (nat \<Rightarrow> uchar list) \<Rightarrow> uchar list list \<Rightarrow> (nat \<times> uchar list) list \<Rightarrow> nat set \<Rightarrow> 's \<Rightarrow> bool"
    and rd :: "uint \<Rightarrow> ('s, 'h) kern" and wr :: "'h \<Rightarrow> ('s, unit) kern" and rel :: "'h \<Rightarrow> ('s, unit) kern"
    and get :: "'h \<Rightarrow> 's \<Rightarrow> uchar list" and put :: "'h \<Rightarrow> uchar list \<Rightarrow> 's \<Rightarrow> 's"
    and cap :: nat and frame :: "'s \<Rightarrow> 's \<Rightarrow> bool"
  assumes rd: "st h V D W X s \<Longrightarrow> unat b < length D \<Longrightarrow> unat b \<notin> ran h \<Longrightarrow> unat b \<in> X \<or> card (X \<union> ran h) < cap \<Longrightarrow>
      runs (rd b) s (\<lambda>i t. h i = None \<and> st (h(i \<mapsto> unat b)) V D W X t \<and> frame s t)"
    and get: "st h V D W X s \<Longrightarrow> h i = Some c \<Longrightarrow> get i s = V c \<and> length (V c) = BSIZE"
    and put: "st h V D W X s \<Longrightarrow> h i = Some c \<Longrightarrow> length d = BSIZE \<Longrightarrow> st h (V(c := d)) D W X (put i d s) \<and> frame s (put i d s)"
    and wr: "st h V D W X s \<Longrightarrow> h i = Some c \<Longrightarrow>
      runs (wr i) s (\<lambda>_ t. st h V (D[c := V c]) (W @ [(c, V c)]) (X - {c}) t \<and> frame s t)"
    and rel: "st h V D W X s \<Longrightarrow> h i = Some c \<Longrightarrow> c \<in> X \<or> V c = D ! c \<Longrightarrow>
      runs (rel i) s (\<lambda>_ t. st (h(i := None)) V D W X t \<and> frame s t)"
    and frame_trans: "frame s t \<Longrightarrow> frame t u \<Longrightarrow> frame s u"
begin

lemma read_data:
  assumes s: "st h V D W X s" and b: "unat b < length D" "unat b \<notin> ran h" "unat b \<in> X \<or> card (X \<union> ran h) < cap"
  shows "runs (rd b) s (\<lambda>i t. get i t = V (unat b))"
proof (rule runs_weaken [OF rd [OF s b]], elim conjE)
  show "get i t = V (unat b)" if "st (h(i \<mapsto> unat b)) V D W X t" for i t using get [OF that, of i] by simp
qed

lemma look_at:
  assumes s: "st h V D W X s" and b: "unat b < length D" "unat b \<notin> ran h" "unat b \<in> X \<or> card (X \<union> ran h) < cap"
    and c: "unat b \<in> X \<or> V (unat b) = D ! unat b"
  shows "runs (bnd (rd b) (\<lambda>i. bnd (gets (get i)) (\<lambda>d. sq (rel i) (ret (f d))))) s
    (\<lambda>r t. r = f (V (unat b)) \<and> st h V D W X t \<and> frame s t)"
  unfolding runs_bnd
proof (rule runs_weaken [OF rd [OF s b]], elim conjE)
  fix i t assume i: "h i = None" and t: "st (h(i \<mapsto> unat b)) V D W X t" and f: "frame s t"
  have g: "get i t = V (unat b)" using get [OF t, of i] by simp
  have u: "h(i := None) = h" using i by auto
  show "runs (gets (get i)) t (\<lambda>d t. runs (sq (rel i) (ret (f d))) t (\<lambda>r t. r = f (V (unat b)) \<and> st h V D W X t \<and> frame s t))"
    unfolding kern by (rule runs_weaken [OF rel [OF t, of i]]) (use c u f in \<open>auto simp: g intro: frame_trans\<close>)
qed

text \<open>With both blocks in hand: copy \<open>b\<close> over \<open>a\<close>, write \<open>a\<close>, release both.\<close>

lemma copy_block:
  assumes u: "st (h(i \<mapsto> a, j \<mapsto> b)) V D W X u" and ij: "h i = None" "h j = None" "i \<noteq> j" and ab: "a \<noteq> b" "a < length D"
    and c: "b \<in> X \<or> V b = D ! b" and mv: "mv u = put i (get j u) u"
  shows "runs (sq (modify mv) (sq (wr i) (sq (rel j) (rel i)))) u
    (\<lambda>_ t. st h (V(a := V b)) (D[a := V b]) (W @ [(a, V b)]) (X - {a}) t \<and> frame u t)"
proof -
  define h' where "h' = h(i \<mapsto> a, j \<mapsto> b)"
  let ?v = "put i (get j u) u" and ?V = "V(a := V b)" and ?D = "D[a := V b]"
  have hi: "h' i = Some a" "h' j = Some b" "(h'(j := None)) i = Some a" "(h'(j := None))(i := None) = h"
    using ij by (auto simp: h'_def)
  note u = u [folded h'_def]
  have g: "get j u = V b" "length (V b) = BSIZE" using get [OF u hi(2)] by simp_all
  have v: "st h' ?V D W X ?v" "frame u ?v" unfolding g(1) using put [OF u hi(1) g(2)] by blast+
  have w: "runs (wr i) ?v (\<lambda>_ t. st h' ?V ?D (W @ [(a, V b)]) (X - {a}) t \<and> frame u t)"
    by (rule runs_weaken [OF wr [OF v(1) hi(1)]]) (use v(2) frame_trans in auto)
  have x: "runs (rel j) t' (\<lambda>_ t. st (h'(j := None)) ?V ?D (W @ [(a, V b)]) (X - {a}) t \<and> frame u t)"
    if "st h' ?V ?D (W @ [(a, V b)]) (X - {a}) t'" "frame u t'" for t'
    by (rule runs_weaken [OF rel [OF that(1) hi(2)]]) (use c ab that(2) frame_trans in auto)
  have y: "runs (rel i) t' (\<lambda>_ t. st h ?V ?D (W @ [(a, V b)]) (X - {a}) t \<and> frame u t)"
    if "st (h'(j := None)) ?V ?D (W @ [(a, V b)]) (X - {a}) t'" "frame u t'" for t'
    by (rule runs_weaken [OF rel [OF that(1) hi(3), unfolded hi(4)]]) (use ab that(2) frame_trans in auto)
  show ?thesis
    unfolding kern mv by (rule runs_weaken [OF w], elim conjE, rule runs_weaken [OF x], assumption+, elim conjE, rule y)
qed

text \<open>With a block in hand: write it and release it.\<close>

lemma write_block:
  assumes u: "st (h(i \<mapsto> a)) V D W X u" and i: "h i = None" and a: "a < length D"
  shows "runs (sq (wr i) (rel i)) u (\<lambda>_ t. st h V (D[a := V a]) (W @ [(a, V a)]) (X - {a}) t \<and> frame u t)"
proof -
  have h: "(h(i \<mapsto> a))(i := None) = h" using i by auto
  have y: "runs (rel i) t' (\<lambda>_ t. st h V (D[a := V a]) (W @ [(a, V a)]) (X - {a}) t \<and> frame u t)"
    if "st (h(i \<mapsto> a)) V (D[a := V a]) (W @ [(a, V a)]) (X - {a}) t'" "frame u t'" for t'
    by (rule runs_weaken [OF rel [OF that(1), of i a]]) (use a h that(2) frame_trans in auto)
  show ?thesis
    unfolding kern by (rule runs_weaken [OF wr [OF u]]) (use y in auto)
qed

end

interpretation bio: block_cache "cache_st p" "bread 1" bwrite brelse "\<lambda>i s. data (buf_at i s)"
  "\<lambda>i d. upd_buf i (\<lambda>x. x\<lparr>data := d\<rparr>)" NBUF bstep for p :: nat
proof (unfold_locales, goal_cases)
  case 1
  then show ?case by (rule cache_bread)
next
  case 2
  then show ?case by (simp add: cache_data)
next
  case 3
  then show ?case by (simp add: cache_set_data)
next
  case 4
  then show ?case by (rule cache_bwrite)
next
  case 5
  then show ?case by (rule cache_brelse)
next
  case 6
  then show ?case by (rule bstep_trans)
qed

subsection \<open>Initialisation\<close>

lemma settled_upd_lock: "settled (upd_lock lk f s) = upd_lock lk f (settled s)"
proof -
  have "me (upd_lock lk f s) = me s" by simp
  then show ?thesis by (simp add: settled_def) (simp add: upd_lock_def)
qed

lemma in_proc_initlock: "in_proc p s \<Longrightarrow> in_proc p (upd_lock lk (\<lambda>_. \<lparr>locked = False, lk_name = nm, lk_cpu = None\<rparr>) s)"
proof -
  assume s: "in_proc p s"
  have "idle (upd_lock lk (\<lambda>_. \<lparr>locked = False, lk_name = nm, lk_cpu = None\<rparr>) s)"
  proof -
    have "unlocked l s" for l using s by simp
    then have "unlocked l (upd_lock lk (\<lambda>_. \<lparr>locked = False, lk_name = nm, lk_cpu = None\<rparr>) s)" for l
      by (simp add: unlocked_def upd_lock_def)
    then show ?thesis using s unfolding idle_def settled_upd_lock by simp
  qed
  then show ?thesis using s unfolding in_proc_def by simp (simp add: upd_lock_def)
qed

lemma binit_step_Done:
  "binit_step b s = Done () (upd_lock (Lk_sleep b) (\<lambda>_. \<lparr>locked = False, lk_name = ''sleep lock'', lk_cpu = None\<rparr>)
    (s\<lparr>slocks := (slocks s)(b := (slocks s b)\<lparr>sl_name := ''buffer'', slocked := False, sl_pid := 0\<rparr>), bcache := push_l b (bcache s)\<rparr>))"
  by (simp add: binit_step_def kern_defs initsleeplock_def initlock_def upd_slock_def upd_buf_def push_l_def set_prev_def set_next_def
      Let_def upd_lock_def)

definition binit_inv :: "nat \<Rightarrow> 'x kbio_scheme \<Rightarrow> nat \<Rightarrow> 'x kbio_scheme \<Rightarrow> bool" where
  "binit_inv p s k t \<longleftrightarrow> in_proc p t \<and> length (bcache t) = Suc NBUF \<and> seg (bcache t) HEAD (rev [0..<k]) HEAD \<and>
     (\<forall>i. core (buf_at i t) = core (buf_at i s)) \<and> (\<forall>i<k. \<not> slocked (slocks t i)) \<and> memdisk t = memdisk s \<and> dwrites t = dwrites s \<and> kbio.more t = kbio.more s"

lemma binit_inv_step:
  assumes "k < NBUF" "binit_inv p s k t"
  shows "runs (binit_step k) t (\<lambda>_. binit_inv p s (Suc k))"
proof -
  have "seg (push_l k (bcache t)) HEAD (k # rev [0..<k]) HEAD"
    using assms by (intro seg_push) (auto simp: binit_inv_def HEAD_def)
  moreover have "in_proc p (t\<lparr>slocks := l, bcache := bs\<rparr>)" for l bs using assms(2) by (simp add: binit_inv_def)
  ultimately show ?thesis
    using assms by (simp add: runs_Done binit_step_Done binit_inv_def in_proc_initlock)
      (auto simp: upd_lock_def less_Suc_eq)
qed

lemma runs_binit:
  assumes "in_proc p s" "length (bcache s) = Suc NBUF"
  shows "runs binit s (\<lambda>_. binit_inv p s NBUF)"
proof -
  let ?s = "upd_buf HEAD (\<lambda>x. x\<lparr>b_next := HEAD\<rparr>) (upd_buf HEAD (\<lambda>x. x\<lparr>b_prev := HEAD\<rparr>)
      (upd_lock Lk_bcache (\<lambda>_. \<lparr>locked = False, lk_name = ''bcache'', lk_cpu = None\<rparr>) s))"
  have "core ((bcache s)[HEAD := (buf_at HEAD s)\<lparr>b_prev := HEAD, b_next := HEAD\<rparr>] ! i) = core (buf_at i s)" for i
    by (rule nth_update_same) (simp add: core_def)
  moreover have "in_proc p ?s" using in_proc_initlock [OF assms(1)] by (simp add: upd_buf_def)
  ultimately have "binit_inv p s 0 ?s"
    using assms(2) by (simp add: binit_inv_def) (simp add: upd_buf_def upd_lock_def HEAD_def)
  then have "runs (for_each [0..<NBUF] binit_step) ?s (\<lambda>_. binit_inv p s (length [0..<NBUF]))"
    by (rule runs_for_each) (simp add: binit_inv_step)
  then show ?thesis by (simp add: binit_def initlock_def kern)
qed

lemma binit_cache:
  assumes "in_proc p s" "length (bcache s) = Suc NBUF" "\<forall>d \<in> set (memdisk s). length d = BSIZE"
    "\<And>i. i < NBUF \<Longrightarrow> b_dev (buf_at i s) = 0 \<and> refcnt (buf_at i s) = 0 \<and> \<not> b_valid (buf_at i s) \<and> \<not> b_dirty (buf_at i s)"
  shows "runs binit s (\<lambda>_ t. ring (bcache t) (rev [0..<NBUF]) \<and>
    cache_st p Map.empty (\<lambda>b. memdisk s ! b) (memdisk s) (dwrites s) {} t \<and> (\<forall>i b. \<not> caches i b t) \<and> kbio.more t = kbio.more s)"
proof (rule runs_weaken [OF runs_binit [OF assms(1,2)]])
  fix t assume t: "binit_inv p s NBUF t"
  have e: "b_dev (buf_at i t) = 0" "refcnt (buf_at i t) = 0" "\<not> b_valid (buf_at i t)" "\<not> b_dirty (buf_at i t)" if "i < NBUF" for i
  proof -
    have "core (buf_at i t) = core (buf_at i s)" using t by (simp add: binit_inv_def)
    then show "b_dev (buf_at i t) = 0" "refcnt (buf_at i t) = 0" "\<not> b_valid (buf_at i t)" "\<not> b_dirty (buf_at i t)"
      using assms(4) [OF that] by (cases "buf_at i t"; cases "buf_at i s"; simp add: core_def)+
  qed
  have "set (rev [0..<NBUF]) = {..<NBUF}" by auto
  then have r: "ring (bcache t) (rev [0..<NBUF])" using t by (simp add: ring_def binit_inv_def)
  have nc: "\<not> caches i b t" for i b using e(1) [of i] by (auto simp: caches_def)
  have "bc p {} t"
    using t e r assms(3) nc by (auto simp: bc_def binit_inv_def buf_inv_def)
  moreover have "dirty_blocks t = {}" using e(4) by (auto simp: dirty_blocks_def dirty_idx_def)
  ultimately show "ring (bcache t) (rev [0..<NBUF]) \<and>
      cache_st p Map.empty (\<lambda>b. memdisk s ! b) (memdisk s) (dwrites s) {} t \<and> (\<forall>i b. \<not> caches i b t) \<and> kbio.more t = kbio.more s"
    using r t nc blk_miss [of _ t] by (auto simp: cache_st_def binit_inv_def)
qed

text \<open>\<^verbatim>\<open>binit\<close> on the zero-filled cache links all buffers into one ring, the last one first, and
  leaves a cache that holds nothing: every block reads as the disk has it.\<close>

lemma binit_fresh:
  assumes "in_proc p s" "length (bcache s) = Suc NBUF" "\<forall>d \<in> set (memdisk s). length d = BSIZE"
    "\<And>i. i < NBUF \<Longrightarrow> b_dev (buf_at i s) = 0 \<and> refcnt (buf_at i s) = 0 \<and> \<not> b_valid (buf_at i s) \<and> \<not> b_dirty (buf_at i s)"
  shows "runs binit s (\<lambda>_ t. ring (bcache t) (rev [0..<NBUF]) \<and>
    cache_st p Map.empty (\<lambda>b. memdisk s ! b) (memdisk s) (dwrites s) {} t)"
  by (rule runs_weaken [OF binit_cache [OF assms]]) simp_all

text \<open>A kernel that has just booted, with a given disk: process 0 runs, the cache is zero-filled.\<close>

definition zero_buf :: buf where
  "zero_buf = \<lparr>b_valid = False, b_dirty = False, b_dev = 0, blockno = 0, refcnt = 0, b_prev = 0, b_next = 0, data = replicate BSIZE 0\<rparr>"

definition bio_boot :: "uchar list list \<Rightarrow> 'm \<Rightarrow> 'm kbio_scheme" where
  "bio_boot d m = boot \<lparr>slocks = (\<lambda>_. \<lparr>slocked = False, sl_name = [], sl_pid = 0\<rparr>),
     bcache = replicate (Suc NBUF) zero_buf, memdisk = d, dwrites = [], \<dots> = m\<rparr>"

lemma bio_boot_sel [simp]:
  "length (bcache (bio_boot d m)) = Suc NBUF" "i < Suc NBUF \<Longrightarrow> buf_at i (bio_boot d m) = zero_buf" "memdisk (bio_boot d m) = d" "dwrites (bio_boot d m) = []"
  "procs (ptable (bio_boot d m)) = demo_procs" "kbio.more (bio_boot d m) = m"
  by (simp_all add: bio_boot_def nth_replicate del: replicate_Suc) (simp_all add: boot_def kproc.defs nth_replicate del: replicate_Suc)

lemma bio_boot_in_proc: "in_proc 0 (bio_boot d m)"
  by (simp add: bio_boot_def)

text \<open>The cache that \<^verbatim>\<open>binit\<close> leaves on this kernel.\<close>

lemma bio_boot_cache:
  assumes "\<forall>x \<in> set d. length x = BSIZE"
  obtains t where "binit (bio_boot d m) = Done () t" "ring (bcache t) (rev [0..<NBUF])"
    "cache_st 0 Map.empty (\<lambda>b. d ! b) d [] {} t" "\<And>i b. \<not> caches i b t" "kbio.more t = m"
proof -
  have "runs binit (bio_boot d m) (\<lambda>_ t. ring (bcache t) (rev [0..<NBUF]) \<and>
      cache_st 0 Map.empty (\<lambda>b. memdisk (bio_boot d m) ! b) (memdisk (bio_boot d m)) (dwrites (bio_boot d m)) {} t \<and> (\<forall>i b. \<not> caches i b t) \<and> kbio.more t = kbio.more (bio_boot d m))"
    using assms by (intro binit_cache bio_boot_in_proc) (simp_all add: zero_buf_def)
  then show thesis by (rule runsE) (use that in simp)
qed

lemma binit_fresh_example:
  "runs binit (bio_boot [replicate 512 7, replicate 512 9] ()) (\<lambda>_ t. ring (bcache t) (rev [0..<NBUF]) \<and> blk t 1 = replicate 512 9)"
proof (rule runs_weaken [OF binit_fresh [OF bio_boot_in_proc]])
  fix a t
  assume "ring (bcache t) (rev [0..<NBUF]) \<and>
    cache_st 0 Map.empty (\<lambda>b. memdisk (bio_boot [replicate 512 7, replicate 512 9] ()) ! b) (memdisk (bio_boot [replicate 512 7, replicate 512 9] ()))
      (dwrites (bio_boot [replicate 512 7, replicate 512 9] ())) {} t"
  then show "ring (bcache t) (rev [0..<NBUF]) \<and> blk t 1 = replicate 512 9" by (simp add: cache_st_def)
qed (simp_all add: zero_buf_def BSIZE_def)

text \<open>C15. A block that is read, overwritten in its buffer, written and released is on the disk, and every
  block, this one included, reads afterwards as expected, whatever other buffers the process holds.\<close>

theorem block_write_read:
  assumes s: "cache_st p h V D W X s" and b: "unat bno < length D" "unat bno \<notin> ran h" "card (X \<union> ran h) < NBUF"
    and d: "length d = BSIZE"
  shows "runs (bnd (bread 1 bno) (\<lambda>i. sq (modify (upd_buf i (\<lambda>x. x\<lparr>data := d\<rparr>))) (sq (bwrite i) (brelse i)))) s (\<lambda>_ t.
    cache_st p h (V(unat bno := d)) (D[unat bno := d]) (W @ [(unat bno, d)]) (X - {unat bno}) t \<and>
    (\<forall>c. unat c < length D \<longrightarrow> unat c \<notin> ran h \<longrightarrow> c \<noteq> bno \<longrightarrow>
      runs (bread 1 c) t (\<lambda>i u. data (buf_at i u) = V (unat c))) \<and>
    runs (bread 1 bno) t (\<lambda>i u. data (buf_at i u) = d))"
proof -
  let ?b = "unat bno" and ?V = "V(unat bno := d)" and ?D = "D[unat bno := d]" and ?W = "W @ [(unat bno, d)]"
  have fin: "card (X - {?b} \<union> ran h) < NBUF"
  proof -
    note C = cache_stD [OF s]
    have "finite X" using C(6) by (auto simp: dirty_blocks_def dirty_idx_def)
    moreover have "finite (ran h)" using bcD(2) [OF C(1)] finite_subset by (blast intro: finite_ran)
    ultimately have "card (X - {?b} \<union> ran h) \<le> card (X \<union> ran h)" by (intro card_mono) auto
    then show ?thesis using b(3) by simp
  qed
  have rd: "runs (bread 1 c) t (\<lambda>i u. data (buf_at i u) = ?V (unat c))"
    if "cache_st p h ?V ?D ?W (X - {?b}) t" "unat c < length D" "unat c \<notin> ran h" for c t
    by (rule bio.read_data [OF that(1)]) (use that fin in auto)
  have m: "runs (bnd (bread 1 bno) (\<lambda>i. sq (modify (upd_buf i (\<lambda>x. x\<lparr>data := d\<rparr>))) (sq (bwrite i) (brelse i)))) s (\<lambda>_.
    cache_st p h ?V ?D ?W (X - {?b}))"
    unfolding runs_bnd
  proof (rule runs_weaken [OF bio.rd [OF s b(1,2)]], use b in simp, elim conjE)
    fix i t assume i: "h i = None" and t: "cache_st p (h(i \<mapsto> ?b)) V D W X t"
    have v: "cache_st p (h(i \<mapsto> ?b)) ?V D W X (upd_buf i (\<lambda>x. x\<lparr>data := d\<rparr>) t)" using bio.put [OF t _ d, of i] by simp
    have w: "runs (bwrite i) (upd_buf i (\<lambda>x. x\<lparr>data := d\<rparr>) t) (\<lambda>_. cache_st p (h(i \<mapsto> ?b)) ?V ?D ?W (X - {?b}))"
      by (rule runs_weaken [OF bio.wr [OF v]]) auto
    have "(h(i \<mapsto> ?b))(i := None) = h" using i by auto
    then have r: "runs (brelse i) u (\<lambda>_. cache_st p h ?V ?D ?W (X - {?b}))"
      if "cache_st p (h(i \<mapsto> ?b)) ?V ?D ?W (X - {?b}) u" for u
      by (intro runs_weaken [OF bio.rel [OF that]]) (use b(1) in auto)
    show "runs (sq (modify (upd_buf i (\<lambda>x. x\<lparr>data := d\<rparr>))) (sq (bwrite i) (brelse i))) t (\<lambda>_. cache_st p h ?V ?D ?W (X - {?b}))"
      unfolding kern by (rule runs_weaken [OF w], rule r)
  qed
  show ?thesis
  proof (rule runs_weaken [OF m], intro conjI allI impI)
    fix t assume t: "cache_st p h ?V ?D ?W (X - {?b}) t"
    show "runs (bread 1 bno) t (\<lambda>i u. data (buf_at i u) = d)" using rd [OF t b(1,2)] by simp
    fix c assume c: "unat c < length D" "unat c \<notin> ran h" "c \<noteq> bno"
    then show "runs (bread 1 c) t (\<lambda>i u. data (buf_at i u) = V (unat c))"
      using rd [OF t c(1,2)] by (simp add: word_unat_eq_iff)
  qed
qed

theorem block_write_read_witness:
  "\<exists>t. binit (bio_boot [replicate 512 7, replicate 512 9] ()) = Done () t \<and>
    runs (bnd (bread 1 1) (\<lambda>i. sq (modify (upd_buf i (\<lambda>x. x\<lparr>data := replicate 512 5\<rparr>))) (sq (bwrite i) (brelse i)))) t
      (\<lambda>_ u. memdisk u = [replicate 512 7, replicate 512 5] \<and> runs (bread 1 1) u (\<lambda>i v. data (buf_at i v) = replicate 512 5))"
proof -
  let ?d = "[replicate 512 7, replicate 512 9] :: uchar list list"
  obtain t where t: "binit (bio_boot ?d ()) = Done () t" "cache_st 0 Map.empty (\<lambda>b. ?d ! b) ?d [] {} t"
    by (rule bio_boot_cache [of ?d "()"]) (simp_all add: BSIZE_def)
  have "runs (bnd (bread 1 1) (\<lambda>i. sq (modify (upd_buf i (\<lambda>x. x\<lparr>data := replicate 512 5\<rparr>))) (sq (bwrite i) (brelse i)))) t
      (\<lambda>_ u. memdisk u = [replicate 512 7, replicate 512 5] \<and> runs (bread 1 1) u (\<lambda>i v. data (buf_at i v) = replicate 512 5))"
    by (rule runs_weaken [OF block_write_read [OF t(2)]])
       (auto simp: cache_st_def BSIZE_def NBUF_def MAXOPBLOCKS_def)
  with t(1) show ?thesis by blast
qed

text \<open>C18. The replacement policy is least recently used. The list of buffers, read forward from the head, is
  a sequence that holds every buffer once; releasing a buffer moves it to the front, and a block that is
  not cached goes into the buffer nearest to the end that is free and clean.\<close>

theorem lru_replacement:
  assumes s: "bc p H s" and r: "ring (bcache s) xs"
  shows "(i \<in> H \<longrightarrow> runs (brelse i) s (\<lambda>_ t. ring (bcache t) (i # remove1 i xs))) \<and>
    (xs = ys @ j # zs \<and> j \<notin> H \<and> \<not> b_dirty (buf_at j s) \<and> (\<forall>k \<in> set zs. k \<in> H \<or> b_dirty (buf_at k s)) \<and>
      (\<forall>k. \<not> caches k (unat bno) s) \<longrightarrow> runs (bget 1 bno) s (\<lambda>k t. k = j \<and> ring (bcache t) xs))"
proof (intro conjI impI)
  note S = bcD [OF s]
  assume i: "i \<in> H"
  then have i': "i < NBUF" using S(2) by blast
  have "ring ((bcache s)[i := (buf_at i s)\<lparr>refcnt := 0\<rparr>]) xs"
    by (rule ring_core [OF r]) (auto intro!: nth_update_same)
  from ring_to_front [OF this i'] show "runs (brelse i) s (\<lambda>_ t. ring (bcache t) (i # remove1 i xs))"
    by (simp add: runs_Done brelse_Done [OF s i]) (simp add: upd_procs_def)
next
  note S = bcD [OF s]
  assume a: "xs = ys @ j # zs \<and> j \<notin> H \<and> \<not> b_dirty (buf_at j s) \<and> (\<forall>k \<in> set zs. k \<in> H \<or> b_dirty (buf_at k s)) \<and>
      (\<forall>k. \<not> caches k (unat bno) s)"
  have lt: "k < NBUF" if "k \<in> set xs" for k using that r by (auto simp: ring_def)
  let ?P = "\<lambda>i. refcnt (buf_at i s) = 0 \<and> \<not> b_dirty (buf_at i s)"
  have "?P j" using S(5) [OF lt, of j] a by (simp add: buf_inv_def)
  moreover have "find ?P (rev zs) = None" using S(5) [OF lt] a by (auto simp: find_None_iff buf_inv_def)
  ultimately have "find ?P (rev xs) = Some j" using a by (simp add: find_append)
  from bget_victim(4) [OF s r _ this, of bno] a
  have g: "bget 1 bno s = Done j (upd_slock j (\<lambda>l. l\<lparr>slocked := True, sl_pid := pid (proc_at p s)\<rparr>)
    (s\<lparr>bcache := (bcache s)[j := (buf_at j s)\<lparr>b_dev := 1, blockno := bno, b_valid := False, b_dirty := False, refcnt := 1\<rparr>]\<rparr>))"
    by blast
  have "ring ((bcache s)[j := (buf_at j s)\<lparr>b_dev := 1, blockno := bno, b_valid := False, b_dirty := False, refcnt := 1\<rparr>]) xs"
    by (rule ring_core [OF r]) (auto intro!: nth_update_same)
  then show "runs (bget 1 bno) s (\<lambda>k t. k = j \<and> ring (bcache t) xs)"
    by (simp add: runs_Done g upd_slock_def)
qed

theorem lru_replacement_witness:
  "\<exists>t. binit (bio_boot [replicate 512 7] ()) = Done () t \<and> runs (bget 1 0) t (\<lambda>k u. k = 0 \<and> ring (bcache u) (rev [0..<NBUF]))"
proof -
  let ?d = "[replicate 512 7] :: uchar list list"
  obtain t where t: "binit (bio_boot ?d ()) = Done () t" "ring (bcache t) (rev [0..<NBUF])" "cache_st 0 Map.empty (\<lambda>b. ?d ! b) ?d [] {} t"
      "\<And>i b. \<not> caches i b t"
    by (rule bio_boot_cache [of ?d "()"]) (simp_all add: BSIZE_def)
  have xs: "rev [0..<NBUF] = rev [Suc 0..<NBUF] @ 0 # []" by (simp add: NBUF_def MAXOPBLOCKS_def upt_conv_Cons)
  have b: "bc 0 {} t" using t(3) by (simp add: cache_st_def)
  have "dirty_blocks t = {}" using t(3) by (simp add: cache_st_def)
  then have "\<not> b_dirty (buf_at 0 t)" by (auto simp: dirty_blocks_def dirty_idx_def NBUF_def MAXOPBLOCKS_def)
  with xs t(4) have "runs (bget 1 0) t (\<lambda>k u. k = 0 \<and> ring (bcache u) (rev [0..<NBUF]))"
    using lru_replacement [OF b t(2), THEN conjunct2, of "rev [Suc 0..<NBUF]" 0 "[]"] by simp
  then show ?thesis using t(1) by blast
qed

end
