(* ===== verification/Bytes.thy ===== *)
theory Bytes
  imports Prelude
begin

text \<open>
  The contents of disk blocks: byte arrays in which C structs are overlaid. Reading and writing a
  range of bytes, and the little-endian encoding of 16-bit and 32-bit fields, with the round trips and
  the independence of disjoint ranges. \<^verbatim>\<open>memmove\<close> and \<^verbatim>\<open>memset\<close> between block buffers are these
  operations.
\<close>

definition get_bytes :: "nat \<Rightarrow> nat \<Rightarrow> 'a list \<Rightarrow> 'a list" where
  "get_bytes off n d = take n (drop off d)"

definition put_bytes :: "nat \<Rightarrow> 'a list \<Rightarrow> 'a list \<Rightarrow> 'a list" where
  "put_bytes off bs d = take off d @ bs @ drop (off + length bs) d"

definition enc32 :: "uint \<Rightarrow> uchar list" where
  "enc32 v = [ucast v, ucast (drop_bit 8 v), ucast (drop_bit 16 v), ucast (drop_bit 24 v)]"

definition dec32 :: "uchar list \<Rightarrow> uint" where
  "dec32 b = ucast (b ! 0) OR push_bit 8 (ucast (b ! 1)) OR push_bit 16 (ucast (b ! 2)) OR push_bit 24 (ucast (b ! 3))"

definition enc16 :: "ushort \<Rightarrow> uchar list" where
  "enc16 v = [ucast v, ucast (drop_bit 8 v)]"

definition dec16 :: "uchar list \<Rightarrow> ushort" where
  "dec16 b = ucast (b ! 0) OR push_bit 8 (ucast (b ! 1))"

definition get32 :: "uchar list \<Rightarrow> nat \<Rightarrow> uint" where
  "get32 d off = dec32 (get_bytes off 4 d)"

definition put32 :: "nat \<Rightarrow> uint \<Rightarrow> uchar list \<Rightarrow> uchar list" where
  "put32 off v d = put_bytes off (enc32 v) d"

definition get16 :: "uchar list \<Rightarrow> nat \<Rightarrow> ushort" where
  "get16 d off = dec16 (get_bytes off 2 d)"

definition put16 :: "nat \<Rightarrow> ushort \<Rightarrow> uchar list \<Rightarrow> uchar list" where
  "put16 off v d = put_bytes off (enc16 v) d"

subsection \<open>Byte ranges\<close>

lemma length_get_bytes [simp]: "off + n \<le> length d \<Longrightarrow> length (get_bytes off n d) = n"
  by (simp add: get_bytes_def)

lemma length_put_bytes [simp]: "off + length bs \<le> length d \<Longrightarrow> length (put_bytes off bs d) = length d"
  by (simp add: put_bytes_def)

lemma nth_put_bytes:
  assumes "off + length bs \<le> length d"
  shows "put_bytes off bs d ! i = (if off \<le> i \<and> i < off + length bs then bs ! (i - off) else d ! i)"
proof -
  have l: "length (take off d) = off" using assms by simp
  consider "i < off" | "off \<le> i" "i < off + length bs" | "off + length bs \<le> i" by linarith
  then show ?thesis using assms by cases (auto simp: put_bytes_def nth_append)
qed

lemma nth_get_bytes: "i < n \<Longrightarrow> off + n \<le> length d \<Longrightarrow> get_bytes off n d ! i = d ! (off + i)"
  by (simp add: get_bytes_def)

lemma get_put_bytes: "off + length bs \<le> length d \<Longrightarrow> get_bytes off (length bs) (put_bytes off bs d) = bs"
  by (simp add: get_bytes_def put_bytes_def)

lemma get_put_bytes_other:
  assumes "off + length bs \<le> length d" "off' + n \<le> length d" "off' + n \<le> off \<or> off + length bs \<le> off'"
  shows "get_bytes off' n (put_bytes off bs d) = get_bytes off' n d"
  by (rule nth_equalityI) (use assms in \<open>auto simp: nth_get_bytes nth_put_bytes\<close>)

lemma put_get_bytes: "off + n \<le> length d \<Longrightarrow> put_bytes off (get_bytes off n d) d = d"
  by (rule nth_equalityI) (auto simp: nth_put_bytes nth_get_bytes)

subsection \<open>Fields\<close>

lemma length_enc [simp]: "length (enc32 v) = 4" "length (enc16 h) = 2"
  by (simp_all add: enc32_def enc16_def)

lemma dec_enc32 [simp]: "dec32 (enc32 v) = v"
proof (rule bit_word_eqI)
  fix n assume "n < LENGTH(32)"
  then show "bit (dec32 (enc32 v)) n = bit v n"
    by (cases "n < 16"; cases "n < 24") (auto simp: dec32_def enc32_def bit_simps)
qed

lemma dec_enc16 [simp]: "dec16 (enc16 v) = v"
proof (rule bit_word_eqI)
  fix n assume "n < LENGTH(16)"
  then show "bit (dec16 (enc16 v)) n = bit v n"
    by (auto simp: dec16_def enc16_def bit_simps)
qed

lemma length_put [simp]:
  "off + 4 \<le> length d \<Longrightarrow> length (put32 off v d) = length d" "off + 2 \<le> length d \<Longrightarrow> length (put16 off h d) = length d"
  by (simp_all add: put32_def put16_def)

lemma get_put32 [simp]: "off + 4 \<le> length d \<Longrightarrow> get32 (put32 off v d) off = v"
  using get_put_bytes [of off "enc32 v" d] by (simp add: get32_def put32_def)

lemma get_put16 [simp]: "off + 2 \<le> length d \<Longrightarrow> get16 (put16 off v d) off = v"
  using get_put_bytes [of off "enc16 v" d] by (simp add: get16_def put16_def)

lemma get_put32_other:
  "off + 4 \<le> length d \<Longrightarrow> off' + 4 \<le> length d \<Longrightarrow> off' + 4 \<le> off \<or> off + 4 \<le> off' \<Longrightarrow> get32 (put32 off v d) off' = get32 d off'"
  using get_put_bytes_other [of off "enc32 v" d off' 4] by (simp add: get32_def put32_def)

lemma get_put16_other:
  "off + 2 \<le> length d \<Longrightarrow> off' + 2 \<le> length d \<Longrightarrow> off' + 2 \<le> off \<or> off + 2 \<le> off' \<Longrightarrow> get16 (put16 off v d) off' = get16 d off'"
  using get_put_bytes_other [of off "enc16 v" d off' 2] by (simp add: get16_def put16_def)

end
