(* ===== verification/Log.thy ===== *)
theory Log
  imports Bio Bytes
begin

text \<open>
  The write-ahead log, \<^verbatim>\<open>src/log.c\<close>, and \<^verbatim>\<open>readsb\<close> of \<^verbatim>\<open>src/fs.c\<close>. The on-disk header is the struct
  \<^verbatim>\<open>logheader\<close> overlaid on the first log block: the count, then the block numbers, four bytes each.

  A process that must wait in \<^verbatim>\<open>begin_op\<close> goes to sleep on the log; it continues with \<open>begin_op_resume\<close>,
  which tests again.
\<close>

subsection \<open>State\<close>

definition LOGSIZE :: nat where "LOGSIZE = MAXOPBLOCKS * 3"

text \<open>\<^verbatim>\<open>struct logheader\<close>. The entries of \<^verbatim>\<open>block\<close> are block numbers, kept unsigned.\<close>

record logheader =
  lh_n :: int
  lh_block :: "uint list"   \<comment> \<open>LOGSIZE entries\<close>

record log =
  log_start :: int
  log_size :: int
  outstanding :: int
  committing :: bool
  log_dev :: int
  lh :: logheader

record klog = kbio +
  the_log :: log

interpretation the_log_field: component_field the_log the_log_update
  by unfold_locales simp_all

abbreviation upd_log :: "(log \<Rightarrow> log) \<Rightarrow> 'x klog_scheme \<Rightarrow> 'x klog_scheme" where
  "upd_log f \<equiv> the_log_update f"

abbreviation upd_lh :: "(logheader \<Rightarrow> logheader) \<Rightarrow> 'x klog_scheme \<Rightarrow> 'x klog_scheme" where
  "upd_lh f \<equiv> the_log_update (lh_update f)"

definition sizeof_logheader :: nat where "sizeof_logheader = 4 + 4 * LOGSIZE"

record superblock =
  sb_size :: uint
  sb_nblocks :: uint
  sb_ninodes :: uint
  sb_nlog :: uint
  sb_logstart :: uint
  sb_inodestart :: uint
  sb_bmapstart :: uint

definition dec_superblock :: "uchar list \<Rightarrow> superblock" where
  "dec_superblock d = \<lparr>sb_size = get32 d 0, sb_nblocks = get32 d 4, sb_ninodes = get32 d 8, sb_nlog = get32 d 12,
     sb_logstart = get32 d 16, sb_inodestart = get32 d 20, sb_bmapstart = get32 d 24\<rparr>"

subsection \<open>Operations\<close>

definition readsb :: "int \<Rightarrow> ('x kbio_scheme, superblock) kern" where
  "readsb dev = bnd (bread (word_of_int dev) 1) (\<lambda>bp.
     bnd (gets (\<lambda>s. data (buf_at bp s))) (\<lambda>d. sq (brelse bp) (ret (dec_superblock d))))"

text \<open>The blocks of \<^verbatim>\<open>log.lh.block\<close> are an array of \<open>LOGSIZE\<close> entries.\<close>

definition lh_entry :: "nat \<Rightarrow> ('x klog_scheme, uint) kern" where
  "lh_entry i = bnd (gets (\<lambda>s. lh_block (lh (the_log s)))) (\<lambda>bl.
     if i < length bl then ret (bl ! i) else undef ''log.lh.block'')"

definition install_trans :: "('x klog_scheme, unit) kern" where
  "install_trans = bnd (gets (\<lambda>s. nat (lh_n (lh (the_log s))))) (\<lambda>n.
     for_each [0..<n] (\<lambda>tail.
       bnd (gets the_log) (\<lambda>lg.
       bnd (bread (word_of_int (log_dev lg)) (word_of_int (log_start lg + int tail + 1))) (\<lambda>lbuf.
       bnd (lh_entry tail) (\<lambda>dst.
       bnd (bread (word_of_int (log_dev lg)) dst) (\<lambda>dbuf.
       sq (modify (\<lambda>s. upd_buf dbuf (\<lambda>x. x\<lparr>data := data (buf_at lbuf s)\<rparr>) s)) (
       sq (bwrite dbuf) (
       sq (brelse lbuf) (brelse dbuf)))))))))"

definition set_entry :: "nat \<Rightarrow> uint \<Rightarrow> ('x klog_scheme, unit) kern" where
  "set_entry i b = bnd (gets (\<lambda>s. length (lh_block (lh (the_log s))))) (\<lambda>l.
     if i < l then modify (upd_lh (lh_block_update (\<lambda>bl. bl[i := b]))) else undef ''log.lh.block'')"

definition read_head :: "('x klog_scheme, unit) kern" where
  "read_head = bnd (gets the_log) (\<lambda>lg.
     bnd (bread (word_of_int (log_dev lg)) (word_of_int (log_start lg))) (\<lambda>buf.
     bnd (gets (\<lambda>s. data (buf_at buf s))) (\<lambda>d.
     sq (modify (upd_lh (\<lambda>h. h\<lparr>lh_n := sint (get32 d 0)\<rparr>))) (
     sq (for_each [0..<nat (sint (get32 d 0))] (\<lambda>i. set_entry i (get32 d (4 + 4 * i)))) (
     brelse buf)))))"

definition write_head :: "('x klog_scheme, unit) kern" where
  "write_head = bnd (gets the_log) (\<lambda>lg.
     bnd (bread (word_of_int (log_dev lg)) (word_of_int (log_start lg))) (\<lambda>buf.
     sq (modify (upd_buf buf (\<lambda>x. x\<lparr>data := put32 0 (word_of_int (lh_n (lh lg))) (data x)\<rparr>))) (
     sq (for_each [0..<nat (lh_n (lh lg))] (\<lambda>i. bnd (lh_entry i) (\<lambda>b.
          modify (upd_buf buf (\<lambda>x. x\<lparr>data := put32 (4 + 4 * i) b (data x)\<rparr>))))) (
     sq (bwrite buf) (brelse buf)))))"

definition recover_from_log :: "('x klog_scheme, unit) kern" where
  "recover_from_log = sq read_head (
     sq install_trans (
     sq (modify (upd_lh (\<lambda>h. h\<lparr>lh_n := 0\<rparr>))) write_head))"

definition initlog :: "int \<Rightarrow> ('x klog_scheme, unit) kern" where
  "initlog dev = (if sizeof_logheader \<ge> BSIZE then panic ''initlog: too big logheader''
     else sq (initlock Lk_log ''log'') (
       bnd (readsb dev) (\<lambda>sb.
       sq (modify (upd_log (\<lambda>l. l\<lparr>log_start := sint (sb_logstart sb)\<rparr>))) (
       sq (modify (upd_log (\<lambda>l. l\<lparr>log_size := sint (sb_nlog sb)\<rparr>))) (
       sq (modify (upd_log (\<lambda>l. l\<lparr>log_dev := dev\<rparr>)))
          recover_from_log)))))"

definition begin_op_loop :: "('x klog_scheme, unit) kern" where
  "begin_op_loop = bnd (gets the_log) (\<lambda>lg.
     if committing lg then sleep Chan_log Lk_log
     else if lh_n (lh lg) + (outstanding lg + 1) * int MAXOPBLOCKS > int LOGSIZE then sleep Chan_log Lk_log
     else sq (modify (upd_log (\<lambda>l. l\<lparr>outstanding := outstanding l + 1\<rparr>))) (release Lk_log))"

definition begin_op :: "('x klog_scheme, unit) kern" where
  "begin_op = sq (acquire Lk_log) begin_op_loop"

definition begin_op_resume :: "nat \<Rightarrow> bool \<Rightarrow> ('x klog_scheme, unit) kern" where
  "begin_op_resume p ie = sq (sleep_resume p ie Lk_log) begin_op_loop"

definition write_log :: "('x klog_scheme, unit) kern" where
  "write_log = bnd (gets (\<lambda>s. nat (lh_n (lh (the_log s))))) (\<lambda>n.
     for_each [0..<n] (\<lambda>tail.
       bnd (gets the_log) (\<lambda>lg.
       bnd (bread (word_of_int (log_dev lg)) (word_of_int (log_start lg + int tail + 1))) (\<lambda>to.
       bnd (lh_entry tail) (\<lambda>src.
       bnd (bread (word_of_int (log_dev lg)) src) (\<lambda>frm.
       sq (modify (\<lambda>s. upd_buf to (\<lambda>x. x\<lparr>data := data (buf_at frm s)\<rparr>) s)) (
       sq (bwrite to) (
       sq (brelse frm) (brelse to)))))))))"

definition commit :: "('x klog_scheme, unit) kern" where
  "commit = bnd (gets (\<lambda>s. lh_n (lh (the_log s)))) (\<lambda>n.
     whenM (n > 0) (
       sq write_log (
       sq write_head (
       sq install_trans (
       sq (modify (upd_lh (\<lambda>h. h\<lparr>lh_n := 0\<rparr>)))
          write_head)))))"

definition end_op :: "('x klog_scheme, unit) kern" where
  "end_op = sq (acquire Lk_log) (
     sq (modify (upd_log (\<lambda>l. l\<lparr>outstanding := outstanding l - 1\<rparr>))) (
     bnd (gets (\<lambda>s. committing (the_log s))) (\<lambda>c.
       if c then panic ''log.committing''
       else bnd (gets (\<lambda>s. outstanding (the_log s) = 0)) (\<lambda>do_commit.
         sq (if do_commit then modify (upd_log (\<lambda>l. l\<lparr>committing := True\<rparr>)) else wakeup Chan_log) (
         sq (release Lk_log) (
         whenM do_commit (
           sq commit (
           sq (acquire Lk_log) (
           sq (modify (upd_log (\<lambda>l. l\<lparr>committing := False\<rparr>))) (
           sq (wakeup Chan_log)
              (release Lk_log)))))))))))"

definition log_write :: "nat \<Rightarrow> ('x klog_scheme, unit) kern" where
  "log_write b = bnd (gets the_log) (\<lambda>lg.
     if lh_n (lh lg) \<ge> int LOGSIZE \<or> lh_n (lh lg) \<ge> log_size lg - 1 then panic ''too big a transaction''
     else if outstanding lg < 1 then panic ''log_write outside of trans''
     else sq (acquire Lk_log) (
       bnd (gets (\<lambda>s. (nat (lh_n (lh (the_log s))), lh_block (lh (the_log s)), blockno (buf_at b s)))) (\<lambda>(n, bl, bno).
       let i = (case first_index (\<lambda>x. x = bno) (take n bl) of Some i \<Rightarrow> i | None \<Rightarrow> n) in
       sq (set_entry i bno) (
       sq (whenM (i = n) (modify (upd_lh (\<lambda>h. h\<lparr>lh_n := lh_n h + 1\<rparr>)))) (
       sq (modify (upd_buf b (\<lambda>x. x\<lparr>b_dirty := True\<rparr>)))
          (release Lk_log))))))"

subsection \<open>Disks and sequences of writes\<close>

definition disk_after :: "(nat \<times> 'd) list \<Rightarrow> 'd list \<Rightarrow> 'd list" where
  "disk_after ws D = fold (\<lambda>(b, d) D. D[b := d]) ws D"

definition view_after :: "(nat \<times> 'd) list \<Rightarrow> (nat \<Rightarrow> 'd) \<Rightarrow> nat \<Rightarrow> 'd" where
  "view_after ws V = fold (\<lambda>(b, d) V. V(b := d)) ws V"

lemma after_Nil [simp]: "disk_after [] D = D" "view_after [] V = V"
  by (simp_all add: disk_after_def view_after_def)

lemma after_snoc [simp]:
  "disk_after (ws @ [(b, d)]) D = (disk_after ws D)[b := d]" "view_after (ws @ [(b, d)]) V = (view_after ws V)(b := d)"
  by (simp_all add: disk_after_def view_after_def)

lemma disk_after_append: "disk_after (ws @ vs) D = disk_after vs (disk_after ws D)"
  by (simp add: disk_after_def)

lemma length_disk_after [simp]: "length (disk_after ws D) = length D"
  by (induction ws rule: rev_induct) auto

lemma disk_after_other: "b \<notin> fst ` set ws \<Longrightarrow> disk_after ws D ! b = D ! b"
  by (induction ws rule: rev_induct) auto

lemma view_after_other: "b \<notin> fst ` set ws \<Longrightarrow> view_after ws V b = V b"
  by (induction ws rule: rev_induct) auto

lemma view_after_map:
  "distinct bs \<Longrightarrow> i < length bs \<Longrightarrow> view_after (map (\<lambda>b. (b, f b)) bs) V (bs ! i) = f (bs ! i)"
  by (induction bs rule: rev_induct) (auto simp: nth_append view_after_other less_Suc_eq)

text \<open>A block takes the value of the last write to it.\<close>

lemma disk_after_writes:
  "b < length D \<Longrightarrow> b \<in> fst ` set ws \<Longrightarrow> (\<And>d. (b, d) \<in> set ws \<Longrightarrow> d = v) \<Longrightarrow> disk_after ws D ! b = v"
proof (induction ws rule: rev_induct)
  case (snoc w ws)
  obtain c e where w: "w = (c, e)" by (cases w)
  show ?case
  proof (cases "b = c")
    case True
    then show ?thesis using snoc.prems by (simp add: w)
  next
    case False
    then show ?thesis using snoc by (auto simp: w)
  qed
qed simp

subsection \<open>The log over the block cache\<close>

lemma bstep_log: "bstep s t \<Longrightarrow> the_log t = the_log s"
  by (auto simp: bstep_def)

definition log_st :: "nat \<Rightarrow> log \<Rightarrow> (nat \<Rightarrow> nat option) \<Rightarrow> (nat \<Rightarrow> uchar list) \<Rightarrow> uchar list list \<Rightarrow>
    (nat \<times> uchar list) list \<Rightarrow> nat set \<Rightarrow> 'x klog_scheme \<Rightarrow> bool" where
  "log_st p L h V D W X s \<longleftrightarrow> cache_st p h V D W X s \<and> the_log s = L"

text \<open>The block cache keeps its contract beside the log.\<close>

interpretation lg: block_cache "log_st p L" "bread 1" bwrite brelse "\<lambda>i s. data (buf_at i s)"
  "\<lambda>i d. upd_buf i (\<lambda>x. x\<lparr>data := d\<rparr>)" NBUF bstep for p :: nat and L :: log
proof (unfold_locales, goal_cases)
  case (1 h V D W X s b)
  then have "cache_st p h V D W X s" "the_log s = L" by (simp_all add: log_st_def)
  note a = this
  show ?case by (rule runs_weaken [OF bio.rd [OF a(1) 1(2-4)]]) (use a(2) in \<open>auto simp: log_st_def dest: bstep_log\<close>)
next
  case (2 h V D W X s i c)
  then show ?case using bio.get [of p h V D W X s] by (simp add: log_st_def)
next
  case (3 h V D W X s i c d)
  then show ?case using bio.put [of p h V D W X s i c d] by (simp add: log_st_def upd_buf_def)
next
  case (4 h V D W X s i c)
  then have "cache_st p h V D W X s" "the_log s = L" by (simp_all add: log_st_def)
  note a = this
  show ?case by (rule runs_weaken [OF bio.wr [OF a(1) 4(2)]]) (use a(2) in \<open>auto simp: log_st_def dest: bstep_log\<close>)
next
  case (5 h V D W X s i c)
  then have "cache_st p h V D W X s" "the_log s = L" by (simp_all add: log_st_def)
  note a = this
  show ?case by (rule runs_weaken [OF bio.rel [OF a(1) 5(2,3)]]) (use a(2) in \<open>auto simp: log_st_def dest: bstep_log\<close>)
next
  case 6
  then show ?case by (rule bstep_trans)
qed

lemma unat_word_of_int: "0 \<le> x \<Longrightarrow> x < 2 ^ 32 \<Longrightarrow> unat (word_of_int x :: uint) = nat x"
  by (simp add: unat_eq_nat_uint uint_word_of_int_eq take_bit_int_eq_self)

text \<open>The layout the log code relies on: the log lies inside the disk, past the superblock; the
  transaction fits it and touches blocks outside it only.\<close>

definition log_fits :: "log \<Rightarrow> uint list \<Rightarrow> nat \<Rightarrow> bool" where
  "log_fits L bl n \<longleftrightarrow> log_dev L = 1 \<and> 1 < log_start L \<and> log_start L + log_size L \<le> int n \<and> int n \<le> 2 ^ 31 \<and>
     int (length bl) < log_size L \<and> log_size L \<le> int LOGSIZE \<and> distinct bl \<and>
     length (lh_block (lh L)) = LOGSIZE \<and> take (length bl) (lh_block (lh L)) = bl \<and> lh_n (lh L) = int (length bl) \<and>
     (\<forall>b \<in> set bl. unat b < n \<and> (int (unat b) < log_start L \<or> log_start L + log_size L \<le> int (unat b)))"

definition log_block :: "log \<Rightarrow> nat \<Rightarrow> nat" where
  "log_block L i = nat (log_start L) + i + 1"

lemma log_fitsD:
  assumes "log_fits L bl n"
  shows "log_dev L = 1" "lh_n (lh L) = int (length bl)" "unat (word_of_int (log_start L) :: uint) = nat (log_start L)"
    "nat (log_start L) < n" "length bl < NBUF" "length bl \<le> LOGSIZE" "distinct bl"
    "\<And>i. i < length bl \<Longrightarrow> unat (word_of_int (log_start L + int i + 1) :: uint) = log_block L i"
    "\<And>i. i < length bl \<Longrightarrow> log_block L i < n"
    "\<And>i. i < length bl \<Longrightarrow> i < length (lh_block (lh L)) \<and> lh_block (lh L) ! i = bl ! i"
    "\<And>i. i < length bl \<Longrightarrow> unat (bl ! i) < n \<and> unat (bl ! i) \<noteq> nat (log_start L)"
    "\<And>i j. i < length bl \<Longrightarrow> j < length bl \<Longrightarrow> unat (bl ! i) \<noteq> log_block L j"
proof -
  have a: "1 < log_start L" "log_start L + log_size L \<le> int n" "int n \<le> 2 ^ 31" "int (length bl) < log_size L"
    "log_size L \<le> int LOGSIZE"
    using assms by (simp_all add: log_fits_def)
  show "log_dev L = 1" "lh_n (lh L) = int (length bl)" "distinct bl" using assms by (simp_all add: log_fits_def)
  show "unat (word_of_int (log_start L) :: uint) = nat (log_start L)" using a by (intro unat_word_of_int) auto
  show "nat (log_start L) < n" using a by linarith
  show "length bl < NBUF" "length bl \<le> LOGSIZE" using a by (simp_all add: NBUF_def LOGSIZE_def)
  fix i assume i: "i < length bl"
  show "log_block L i < n" using a i by (simp add: log_block_def nat_less_iff)
  show "unat (word_of_int (log_start L + int i + 1) :: uint) = log_block L i"
    using a i unat_word_of_int [of "log_start L + int i + 1"] by (auto simp: log_block_def)
  have "length (lh_block (lh L)) = LOGSIZE" "take (length bl) (lh_block (lh L)) = bl" using assms by (simp_all add: log_fits_def)
  then show "i < length (lh_block (lh L)) \<and> lh_block (lh L) ! i = bl ! i"
    using i a by (metis nth_take length_take min_less_iff_conj)
  have b: "unat (bl ! i) < n" "int (unat (bl ! i)) < log_start L \<or> log_start L + log_size L \<le> int (unat (bl ! i))"
    using assms i by (auto simp: log_fits_def)
  then show "unat (bl ! i) < n \<and> unat (bl ! i) \<noteq> nat (log_start L)" using a by linarith
  show "unat (bl ! i) \<noteq> log_block L j" if "j < length bl" for j
    using b a that unfolding log_block_def by linarith
qed

lemma lh_entry_Done: "i < length (lh_block (lh (the_log s))) \<Longrightarrow> lh_entry i s = Done (lh_block (lh (the_log s)) ! i) s"
  by (simp add: lh_entry_def kern_defs)

lemma finite_dirty: "log_st p L h V D W X s \<Longrightarrow> finite X"
  by (auto simp: log_st_def cache_st_def dirty_blocks_def dirty_idx_def)

text \<open>One round of \<^verbatim>\<open>write_log\<close>: the cached block goes into its log block.\<close>

lemma write_log_round:
  assumes s: "log_st p L Map.empty V D W X s" and L: "log_fits L bl (length D)" and i: "i < length bl"
    and X: "unat (bl ! i) \<in> X" "card X < NBUF"
  shows "runs (bnd (gets the_log) (\<lambda>lg.
       bnd (bread (word_of_int (log_dev lg)) (word_of_int (log_start lg + int i + 1))) (\<lambda>to.
       bnd (lh_entry i) (\<lambda>src.
       bnd (bread (word_of_int (log_dev lg)) src) (\<lambda>frm.
       sq (modify (\<lambda>s. upd_buf to (\<lambda>x. x\<lparr>data := data (buf_at frm s)\<rparr>) s)) (
       sq (bwrite to) (
       sq (brelse frm) (brelse to)))))))) s (\<lambda>_.
     log_st p L Map.empty (V(log_block L i := V (unat (bl ! i)))) (D[log_block L i := V (unat (bl ! i))])
       (W @ [(log_block L i, V (unat (bl ! i)))]) (X - {log_block L i}))"
proof -
  note F = log_fitsD [OF L]
  let ?a = "word_of_int (log_start L + int i + 1) :: uint" and ?b = "bl ! i"
  have lg: "the_log s = L" using s by (simp add: log_st_def)
  have a: "unat ?a = log_block L i" by (rule F(8) [OF i])
  have r1: "runs (bread 1 ?a) s (\<lambda>x t. (Map.empty :: nat \<Rightarrow> nat option) x = None \<and> log_st p L [x \<mapsto> unat ?a] V D W X t \<and> bstep s t)"
    by (rule lg.rd [OF s]) (use F(9) [OF i] X a in auto)
  have r2: "runs (bread 1 ?b) t (\<lambda>y u. [x \<mapsto> unat ?a] y = None \<and> log_st p L [x \<mapsto> unat ?a, y \<mapsto> unat ?b] V D W X u \<and> bstep t u)"
    if "log_st p L [x \<mapsto> unat ?a] V D W X t" for x t
    by (rule lg.rd [OF that]) (use F(11) [OF i] F(12) [OF i i] X a in auto)
  show ?thesis
    unfolding runs_bnd runs_gets lg F(1) of_int_1
  proof (rule runs_weaken [OF r1], elim conjE)
    fix x t assume t: "log_st p L [x \<mapsto> unat ?a] V D W X t"
    then have "the_log t = L" by (simp add: log_st_def)
    then have e: "lh_entry i t = Done ?b t" using F(10) [OF i] by (simp add: lh_entry_Done)
    show "runs (lh_entry i) t (\<lambda>src t. runs (bread 1 src) t (\<lambda>frm t. runs (sq (modify (\<lambda>s. upd_buf x (\<lambda>x. x\<lparr>data := data (buf_at frm s)\<rparr>) s)) (
       sq (bwrite x) (sq (brelse frm) (brelse x)))) t (\<lambda>_. log_st p L Map.empty (V(log_block L i := V (unat (bl ! i)))) (D[log_block L i := V (unat (bl ! i))])
       (W @ [(log_block L i, V (unat (bl ! i)))]) (X - {log_block L i}))))"
      unfolding runs_Done [of "lh_entry i" t, OF e]
    proof (rule runs_weaken [OF r2 [OF t]], elim conjE)
      fix y u assume y: "[x \<mapsto> unat ?a] y = None" and u: "log_st p L [x \<mapsto> unat ?a, y \<mapsto> unat ?b] V D W X u"
      have xy: "x \<noteq> y" using y by (auto split: if_splits)
      show "runs (sq (modify (\<lambda>s. upd_buf x (\<lambda>x. x\<lparr>data := data (buf_at y s)\<rparr>) s)) (
         sq (bwrite x) (sq (brelse y) (brelse x)))) u (\<lambda>_. log_st p L Map.empty (V(log_block L i := V (unat (bl ! i)))) (D[log_block L i := V (unat (bl ! i))])
         (W @ [(log_block L i, V (unat (bl ! i)))]) (X - {log_block L i}))"
        by (rule runs_weaken [OF lg.copy_block [OF u]]) (use xy a F(9) [OF i] F(12) [OF i i] X in auto)
    qed
  qed
qed

text \<open>One round of \<^verbatim>\<open>install_trans\<close>: the log block goes to its home.\<close>

lemma install_round:
  assumes s: "log_st p L Map.empty V D W X s" and L: "log_fits L bl (length D)" and i: "i < length bl"
    and X: "unat (bl ! i) \<in> X \<or> X = {}" "card X < NBUF" and c: "V (log_block L i) = D ! log_block L i"
  shows "runs (bnd (gets the_log) (\<lambda>lg.
       bnd (bread (word_of_int (log_dev lg)) (word_of_int (log_start lg + int i + 1))) (\<lambda>lbuf.
       bnd (lh_entry i) (\<lambda>dst.
       bnd (bread (word_of_int (log_dev lg)) dst) (\<lambda>dbuf.
       sq (modify (\<lambda>s. upd_buf dbuf (\<lambda>x. x\<lparr>data := data (buf_at lbuf s)\<rparr>) s)) (
       sq (bwrite dbuf) (
       sq (brelse lbuf) (brelse dbuf)))))))) s (\<lambda>_.
     log_st p L Map.empty (V(unat (bl ! i) := V (log_block L i))) (D[unat (bl ! i) := V (log_block L i)])
       (W @ [(unat (bl ! i), V (log_block L i))]) (X - {unat (bl ! i)}))"
proof -
  note F = log_fitsD [OF L]
  let ?a = "word_of_int (log_start L + int i + 1) :: uint" and ?b = "bl ! i"
  have lg: "the_log s = L" using s by (simp add: log_st_def)
  have a: "unat ?a = log_block L i" by (rule F(8) [OF i])
  have r1: "runs (bread 1 ?a) s (\<lambda>x t. (Map.empty :: nat \<Rightarrow> nat option) x = None \<and> log_st p L [x \<mapsto> unat ?a] V D W X t \<and> bstep s t)"
    by (rule lg.rd [OF s]) (use F(9) [OF i] X a in auto)
  have r2: "runs (bread 1 ?b) t (\<lambda>y u. [x \<mapsto> unat ?a] y = None \<and> log_st p L [x \<mapsto> unat ?a, y \<mapsto> unat ?b] V D W X u \<and> bstep t u)"
    if "log_st p L [x \<mapsto> unat ?a] V D W X t" for x t
    by (rule lg.rd [OF that]) (use F(11) [OF i] F(12) [OF i i] X a in \<open>auto simp: NBUF_def MAXOPBLOCKS_def\<close>)
  show ?thesis
    unfolding runs_bnd runs_gets lg F(1) of_int_1
  proof (rule runs_weaken [OF r1], elim conjE)
    fix x t assume t: "log_st p L [x \<mapsto> unat ?a] V D W X t"
    then have "the_log t = L" by (simp add: log_st_def)
    then have e: "lh_entry i t = Done ?b t" using F(10) [OF i] by (simp add: lh_entry_Done)
    show "runs (lh_entry i) t (\<lambda>dst t. runs (bread 1 dst) t (\<lambda>dbuf t. runs (sq (modify (\<lambda>s. upd_buf dbuf (\<lambda>b. b\<lparr>data := data (buf_at x s)\<rparr>) s)) (
       sq (bwrite dbuf) (sq (brelse x) (brelse dbuf)))) t (\<lambda>_. log_st p L Map.empty (V(unat (bl ! i) := V (log_block L i)))
       (D[unat (bl ! i) := V (log_block L i)]) (W @ [(unat (bl ! i), V (log_block L i))]) (X - {unat (bl ! i)}))))"
      unfolding runs_Done [of "lh_entry i" t, OF e]
    proof (rule runs_weaken [OF r2 [OF t]], elim conjE)
      fix y u assume y: "[x \<mapsto> unat ?a] y = None" and u: "log_st p L [x \<mapsto> unat ?a, y \<mapsto> unat ?b] V D W X u"
      have xy: "x \<noteq> y" using y by (auto split: if_splits)
      then have u': "log_st p L [y \<mapsto> unat ?b, x \<mapsto> unat ?a] V D W X u" using u by (simp add: fun_upd_twist)
      show "runs (sq (modify (\<lambda>s. upd_buf y (\<lambda>b. b\<lparr>data := data (buf_at x s)\<rparr>) s)) (
         sq (bwrite y) (sq (brelse x) (brelse y)))) u (\<lambda>_. log_st p L Map.empty (V(unat (bl ! i) := V (log_block L i)))
         (D[unat (bl ! i) := V (log_block L i)]) (W @ [(unat (bl ! i), V (log_block L i))]) (X - {unat (bl ! i)}))"
        by (rule runs_weaken [OF lg.copy_block [OF u']]) (use xy a F(11) [OF i] F(12) [OF i i] X c in auto)
    qed
  qed
qed

definition log_writes :: "log \<Rightarrow> uint list \<Rightarrow> (nat \<Rightarrow> uchar list) \<Rightarrow> (nat \<times> uchar list) list" where
  "log_writes L bl V = map (\<lambda>i. (log_block L i, V (unat (bl ! i)))) [0..<length bl]"

definition home_writes :: "log \<Rightarrow> uint list \<Rightarrow> (nat \<Rightarrow> uchar list) \<Rightarrow> (nat \<times> uchar list) list" where
  "home_writes L bl V = map (\<lambda>i. (unat (bl ! i), V (log_block L i))) [0..<length bl]"

lemma write_log_runs:
  assumes s: "log_st p L Map.empty V D W X s" and L: "log_fits L bl (length D)" and X: "X = unat ` set bl"
  shows "runs write_log s (\<lambda>_. log_st p L Map.empty (view_after (log_writes L bl V) V) (disk_after (log_writes L bl V) D)
    (W @ log_writes L bl V) X)"
proof -
  note F = log_fitsD [OF L]
  let ?ws = "\<lambda>k. map (\<lambda>i. (log_block L i, V (unat (bl ! i)))) [0..<k]"
  let ?I = "\<lambda>k. log_st p L Map.empty (view_after (?ws k) V) (disk_after (?ws k) D) (W @ ?ws k) X"
  have cX: "card X < NBUF" using card_image_le [of "set bl" unat] card_length [of bl] F(5) X by simp
  have n: "nat (lh_n (lh (the_log s))) = length bl" using s F(2) by (simp add: log_st_def)
  show ?thesis
    unfolding write_log_def runs_bnd runs_gets n
  proof (rule runs_weaken [OF runs_for_each [of ?I]])
    show "?I 0 s" using s by simp
    fix k t assume k: "k < length [0..<length bl]" and t: "?I k t"
    have k': "k < length bl" using k by simp
    have "unat (bl ! k) \<noteq> log_block L j" if "j < k" for j using F(12) [OF k', of j] that k' by simp
    then have "unat (bl ! k) \<notin> fst ` set (?ws k)" by force
    then have v: "view_after (?ws k) V (unat (bl ! k)) = V (unat (bl ! k))" by (rule view_after_other)
    have nX: "log_block L k \<notin> X" using F(12) [OF _ k'] X by (force simp: in_set_conv_nth)
    have e: "view_after (?ws (Suc k)) V = (view_after (?ws k) V)(log_block L k := V (unat (bl ! k)))"
      "disk_after (?ws (Suc k)) D = (disk_after (?ws k) D)[log_block L k := V (unat (bl ! k))]"
      "?ws (Suc k) = ?ws k @ [(log_block L k, V (unat (bl ! k)))]" by simp_all
    show "runs (bnd (gets the_log) (\<lambda>lg. bnd (bread (word_of_int (log_dev lg)) (word_of_int (log_start lg + int ([0..<length bl] ! k) + 1))) (\<lambda>to.
       bnd (lh_entry ([0..<length bl] ! k)) (\<lambda>src. bnd (bread (word_of_int (log_dev lg)) src) (\<lambda>frm.
       sq (modify (\<lambda>s. upd_buf to (\<lambda>x. x\<lparr>data := data (buf_at frm s)\<rparr>) s)) (
       sq (bwrite to) (sq (brelse frm) (brelse to)))))))) t (\<lambda>_. ?I (Suc k))"
      unfolding e using write_log_round [OF t, of bl k] L k' X cX v nX by simp
  qed (simp add: log_writes_def)
qed

lemma install_trans_runs:
  assumes s: "log_st p L Map.empty V D W X s" and L: "log_fits L bl (length D)" and X: "X = unat ` set bl \<or> X = {}"
    and c: "\<And>i. i < length bl \<Longrightarrow> V (log_block L i) = D ! log_block L i"
  shows "runs install_trans s (\<lambda>_. log_st p L Map.empty (view_after (home_writes L bl V) V) (disk_after (home_writes L bl V) D)
    (W @ home_writes L bl V) {})"
proof -
  note F = log_fitsD [OF L]
  let ?ws = "\<lambda>k. map (\<lambda>i. (unat (bl ! i), V (log_block L i))) [0..<k]"
  let ?X = "\<lambda>k. X - unat ` set (take k bl)"
  let ?I = "\<lambda>k. log_st p L Map.empty (view_after (?ws k) V) (disk_after (?ws k) D) (W @ ?ws k) (?X k)"
  have cX: "card (?X k) < NBUF" for k
  proof -
    have "card (?X k) \<le> card X" using finite_dirty [OF s] by (intro card_mono) auto
    also have "\<dots> \<le> length bl" using card_image_le [of "set bl" unat] card_length [of bl] X by auto
    finally show ?thesis using F(5) by simp
  qed
  have n: "nat (lh_n (lh (the_log s))) = length bl" using s F(2) by (simp add: log_st_def)
  show ?thesis
    unfolding install_trans_def runs_bnd runs_gets n
  proof (rule runs_weaken [OF runs_for_each [of ?I]])
    show "?I 0 s" using s by simp
    fix k t assume k: "k < length [0..<length bl]" and t: "?I k t"
    have k': "k < length bl" using k by simp
    have nl: "log_block L j \<noteq> unat (bl ! i)" if "j < length bl" "i < length bl" for i j using F(12) [OF that(2,1)] by simp
    then have "log_block L k \<notin> fst ` set (?ws k)" using k' by force
    then have v: "view_after (?ws k) V (log_block L k) = V (log_block L k)" "disk_after (?ws k) D ! log_block L k = D ! log_block L k"
      by (rule view_after_other, intro disk_after_other)
    have tk: "unat ` set (take (Suc k) bl) = insert (unat (bl ! k)) (unat ` set (take k bl))"
      using k' by (simp add: take_Suc_conv_app_nth)
    have mem: "unat (bl ! k) \<in> ?X k \<or> ?X k = {}"
    proof (cases "X = {}")
      case False
      have "unat (bl ! k) \<notin> unat ` set (take k bl)"
        using F(7) k' by (auto simp: in_set_conv_nth nth_eq_iff_index_eq simp flip: word_unat_eq_iff)
      then show ?thesis using X False k' by auto
    qed simp
    have e: "view_after (?ws (Suc k)) V = (view_after (?ws k) V)(unat (bl ! k) := V (log_block L k))"
      "disk_after (?ws (Suc k)) D = (disk_after (?ws k) D)[unat (bl ! k) := V (log_block L k)]"
      "?ws (Suc k) = ?ws k @ [(unat (bl ! k), V (log_block L k))]" "?X (Suc k) = ?X k - {unat (bl ! k)}"
      using tk by auto
    show "runs (bnd (gets the_log) (\<lambda>lg. bnd (bread (word_of_int (log_dev lg)) (word_of_int (log_start lg + int ([0..<length bl] ! k) + 1))) (\<lambda>lbuf.
       bnd (lh_entry ([0..<length bl] ! k)) (\<lambda>dst. bnd (bread (word_of_int (log_dev lg)) dst) (\<lambda>dbuf.
       sq (modify (\<lambda>s. upd_buf dbuf (\<lambda>x. x\<lparr>data := data (buf_at lbuf s)\<rparr>) s)) (
       sq (bwrite dbuf) (sq (brelse lbuf) (brelse dbuf)))))))) t (\<lambda>_. ?I (Suc k))"
      unfolding e using install_round [OF t, of bl k] L k' mem cX [of k] v c [OF k'] by simp
  next
    fix a t assume "?I (length [0..<length bl]) t"
    moreover have "X - unat ` set bl = {}" using X by auto
    ultimately show "log_st p L Map.empty (view_after (home_writes L bl V) V) (disk_after (home_writes L bl V) D)
        (W @ home_writes L bl V) {} t" by (simp add: home_writes_def del: Diff_eq_empty_iff)
  qed
qed

subsection \<open>The header block\<close>

definition enc_head :: "uint list \<Rightarrow> uchar list \<Rightarrow> uchar list" where
  "enc_head bl d = fold (\<lambda>i d. put32 (4 + 4 * i) (bl ! i) d) [0..<length bl] (put32 0 (of_nat (length bl)) d)"

lemma enc_head_fold:
  fixes bl :: "uint list" and v :: uint
  assumes "k \<le> LOGSIZE" "length d = BSIZE"
  defines "f \<equiv> \<lambda>k. fold (\<lambda>i d. put32 (4 + 4 * i) (bl ! i) d) [0..<k] (put32 0 v d)"
  shows "length (f k) = BSIZE \<and> get32 (f k) 0 = v \<and> (\<forall>j<k. get32 (f k) (4 + 4 * j) = bl ! j)"
  using assms(1)
proof (induction k)
  case 0
  then show ?case using assms(2) by (simp add: f_def BSIZE_def)
next
  case (Suc k)
  then have IH: "length (f k) = BSIZE" "get32 (f k) 0 = v" "\<And>j. j < k \<Longrightarrow> get32 (f k) (4 + 4 * j) = bl ! j" by auto
  have b: "4 + 4 * k + 4 \<le> BSIZE" using Suc.prems by (simp add: BSIZE_def LOGSIZE_def MAXOPBLOCKS_def)
  have f: "f (Suc k) = put32 (4 + 4 * k) (bl ! k) (f k)" by (simp add: f_def)
  have "get32 (f (Suc k)) (4 + 4 * j) = bl ! j" if "j < Suc k" for j
    using that IH b unfolding f by (cases "j = k") (simp_all add: get_put32_other)
  then show ?case using IH b by (simp add: f get_put32_other)
qed

lemma enc_head:
  assumes "length bl \<le> LOGSIZE" "length d = BSIZE"
  shows "length (enc_head bl d) = BSIZE" "sint (get32 (enc_head bl d) 0) = int (length bl)"
    "\<And>j. j < length bl \<Longrightarrow> get32 (enc_head bl d) (4 + 4 * j) = bl ! j"
proof -
  note E = enc_head_fold [OF assms, of bl "of_nat (length bl)"]
  show "length (enc_head bl d) = BSIZE" "\<And>j. j < length bl \<Longrightarrow> get32 (enc_head bl d) (4 + 4 * j) = bl ! j"
    using E by (simp_all add: enc_head_def)
  have "sint (word_of_int (int (length bl)) :: uint) = int (length bl)"
    using assms(1) int32_id [of "int (length bl)"] by (simp add: int32_def is_int32_def LOGSIZE_def MAXOPBLOCKS_def)
  then show "sint (get32 (enc_head bl d) 0) = int (length bl)" using E by (simp add: enc_head_def)
qed

text \<open>\<^verbatim>\<open>write_head\<close> writes one block: the header with the entries of the transaction.\<close>

lemma write_head_runs:
  assumes s: "log_st p L Map.empty V D W X s" and L: "log_fits L bl (length D)"
    and X: "nat (log_start L) \<notin> X" "card X < NBUF"
  defines "b \<equiv> nat (log_start L)" and "H \<equiv> enc_head bl (V (nat (log_start L)))"
  shows "runs write_head s (\<lambda>_. log_st p L Map.empty (V(b := H)) (D[b := H]) (W @ [(b, H)]) X)"
proof -
  note F = log_fitsD [OF L]
  have lg: "the_log s = L" using s by (simp add: log_st_def)
  have ub: "unat (word_of_int (log_start L) :: uint) = b" using F(3) by (simp add: b_def)
  have r1: "runs (bread 1 (word_of_int (log_start L))) s (\<lambda>x t. (Map.empty :: nat \<Rightarrow> nat option) x = None \<and>
      log_st p L [x \<mapsto> unat (word_of_int (log_start L) :: uint)] V D W X t \<and> bstep s t)"
    by (rule lg.rd [OF s]) (use F(4) X ub in \<open>auto simp: b_def\<close>)
  show ?thesis
    unfolding write_head_def runs_bnd runs_gets lg F(1,2) of_int_1
  proof (rule runs_weaken [OF r1], elim conjE)
    fix x t assume "log_st p L [x \<mapsto> unat (word_of_int (log_start L) :: uint)] V D W X t"
    then have t: "log_st p L [x \<mapsto> b] V D W X t" by (simp only: ub)
    have lv: "length (V b) = BSIZE" "data (buf_at x t) = V b" using lg.get [OF t, of x b] by simp_all
    let ?f = "\<lambda>k. fold (\<lambda>i d. put32 (4 + 4 * i) (bl ! i) d) [0..<k] (put32 0 (of_nat (length bl)) (V b))"
    let ?I = "\<lambda>k. log_st p L [x \<mapsto> b] (V(b := ?f k)) D W X"
    have upd: "upd_buf x (\<lambda>y. y\<lparr>data := g (data y)\<rparr>) u = upd_buf x (\<lambda>y. y\<lparr>data := g (data (buf_at x u))\<rparr>) u" for g u
      by (simp add: upd_buf_def)
    have i0: "?I 0 (upd_buf x (\<lambda>y. y\<lparr>data := put32 0 (word_of_int (int (length bl))) (data y)\<rparr>) t)"
      unfolding upd using lg.put [OF t, of x b] lv by (simp add: BSIZE_def)
    have loop: "runs (for_each [0..<length bl] (\<lambda>i. bnd (lh_entry i) (\<lambda>b. modify (upd_buf x (\<lambda>y. y\<lparr>data := put32 (4 + 4 * i) b (data y)\<rparr>)))))
        (upd_buf x (\<lambda>y. y\<lparr>data := put32 0 (word_of_int (int (length bl))) (data y)\<rparr>) t) (\<lambda>_. ?I (length [0..<length bl]))"
    proof (rule runs_for_each [of ?I, OF i0])
      fix k u assume "k < length [0..<length bl]" and u: "?I k u"
      then have k: "k < length bl" by simp
      have "the_log u = L" using u by (simp add: log_st_def)
      then have e: "lh_entry k u = Done (bl ! k) u" using F(10) [OF k] by (simp add: lh_entry_Done)
      have ls: "length (?f (Suc k)) = BSIZE" using k F(6) lv enc_head_fold [of "Suc k" "V b"] by simp
      have d: "data (buf_at x u) = ?f k" using lg.get [OF u, of x b] by simp
      have "?I (Suc k) (upd_buf x (\<lambda>y. y\<lparr>data := put32 (4 + 4 * k) (bl ! k) (data y)\<rparr>) u)"
        unfolding upd d using lg.put [OF u, of x b "?f (Suc k)"] ls by simp
      then show "runs (bnd (lh_entry ([0..<length bl] ! k)) (\<lambda>b. modify (upd_buf x (\<lambda>y. y\<lparr>data := put32 (4 + 4 * ([0..<length bl] ! k)) b (data y)\<rparr>)))) u
          (\<lambda>_. ?I (Suc k))"
        using k by (simp add: runs_bnd runs_Done [of "lh_entry k" u, OF e] runs_modify)
    qed
    have H: "?f (length bl) = H" by (simp add: H_def enc_head_def b_def)
    show "runs (sq (modify (upd_buf x (\<lambda>y. y\<lparr>data := put32 0 (word_of_int (int (length bl))) (data y)\<rparr>))) (
       sq (for_each [0..<nat (int (length bl))] (\<lambda>i. bnd (lh_entry i) (\<lambda>b. modify (upd_buf x (\<lambda>y. y\<lparr>data := put32 (4 + 4 * i) b (data y)\<rparr>))))) (
       sq (bwrite x) (brelse x)))) t (\<lambda>_. log_st p L Map.empty (V(b := H)) (D[b := H]) (W @ [(b, H)]) X)"
      unfolding runs_sq runs_modify nat_int
    proof (rule runs_weaken [OF loop])
      fix a u assume "?I (length [0..<length bl]) u"
      then have u: "log_st p L [x \<mapsto> b] (V(b := H)) D W X u" using H by simp
      have "runs (sq (bwrite x) (brelse x)) u (\<lambda>_ t. log_st p L Map.empty (V(b := H)) (D[b := (V(b := H)) b]) (W @ [(b, (V(b := H)) b)]) (X - {b}) t \<and> bstep u t)"
        by (rule lg.write_block [OF u]) (use F(4) in \<open>auto simp: b_def\<close>)
      then show "runs (bwrite x) u (\<lambda>_ t. runs (brelse x) t (\<lambda>_. log_st p L Map.empty (V(b := H)) (D[b := H]) (W @ [(b, H)]) X))"
        unfolding runs_sq [symmetric] by (rule runs_weaken) (use X in \<open>simp add: b_def\<close>)
    qed
  qed
qed

subsection \<open>Commit\<close>

text \<open>A block that is not dirty reads as the disk has it.\<close>

lemma clean_block:
  assumes "log_st p L Map.empty V D W X s" "b \<notin> X"
  shows "V b = D ! b"
proof -
  have s: "cache_st p Map.empty V D W X s" using assms(1) by (simp add: log_st_def)
  note C = cache_stD [OF s]
  have "blk s b = memdisk s ! b"
  proof (rule blk_eqI [OF C(1)])
    fix j assume j: "caches j b s" "b_valid (buf_at j s)"
    then have "j < NBUF" by (simp add: caches_def)
    moreover have "\<not> b_dirty (buf_at j s)"
      using assms(2) j C(6) by (auto simp: dirty_blocks_def dirty_idx_def caches_def)
    ultimately show "memdisk s ! b = data (buf_at j s)"
      using bcD(5) [OF C(1), of j] j by (auto simp: buf_inv_def caches_def)
  qed simp
  then show ?thesis using C(3,4) by simp
qed

definition lh_cleared :: "log \<Rightarrow> log" where
  "lh_cleared L = lh_update (\<lambda>h. h\<lparr>lh_n := 0\<rparr>) L"

lemma log_fits_cleared: "log_fits L bl n \<Longrightarrow> log_fits (lh_cleared L) [] n"
  by (auto simp: log_fits_def lh_cleared_def)

lemma in_proc_upd_log [simp]: "in_proc p s \<Longrightarrow> in_proc p (the_log_update f s)"
  unfolding in_proc_def by simp

lemma cache_st_upd_log: "cache_st p h V D W X s \<Longrightarrow> cache_st p h V D W X (the_log_update f s)"
  using bcD(1) [OF cache_stD(1), of p h V D W X s] by (auto intro: cache_st_cong)

lemma log_st_upd_log: "log_st p L h V D W X s \<Longrightarrow> log_st p (f L) h V D W X (the_log_update f s)"
  by (simp add: log_st_def cache_st_upd_log)

text \<open>The disk writes of a commit, in order: the blocks into the log, the header, the blocks to their
  homes, the empty header.\<close>

definition commit_writes :: "log \<Rightarrow> uint list \<Rightarrow> (nat \<Rightarrow> uchar list) \<Rightarrow> (nat \<times> uchar list) list" where
  "commit_writes L bl V = (let st = nat (log_start L); H = enc_head bl (V st) in
     log_writes L bl V @ [(st, H)] @ map (\<lambda>i. (unat (bl ! i), V (unat (bl ! i)))) [0..<length bl] @ [(st, enc_head [] H)])"

lemma commit_runs:
  assumes s: "log_st p L Map.empty V D W (unat ` set bl) s" and L: "log_fits L bl (length D)" and ne: "bl \<noteq> []"
  shows "runs commit s (\<lambda>_. log_st p (lh_cleared L) Map.empty (view_after (commit_writes L bl V) V)
    (disk_after (commit_writes L bl V) D) (W @ commit_writes L bl V) {})"
proof -
  note F = log_fitsD [OF L]
  let ?X = "unat ` set bl" and ?st = "nat (log_start L)"
  let ?w1 = "log_writes L bl V" and ?H = "enc_head bl (V ?st)"
  let ?w2 = "?w1 @ [(?st, ?H)]" and ?w3 = "map (\<lambda>i. (unat (bl ! i), V (unat (bl ! i)))) [0..<length bl]"
  have cX: "card ?X < NBUF" using card_image_le [of "set bl" unat] card_length [of bl] F(5) by simp
  have stX: "?st \<notin> ?X" using F(11) by (force simp: in_set_conv_nth)
  have v1: "view_after ?w1 V ?st = V ?st" by (rule view_after_other) (auto simp: log_writes_def log_block_def)
  have v2: "view_after ?w2 V (log_block L i) = V (unat (bl ! i))" if "i < length bl" for i
  proof -
    have "view_after (map (\<lambda>b. (b, V (unat (bl ! (b - ?st - 1))))) (map (log_block L) [0..<length bl])) V (map (log_block L) [0..<length bl] ! i) =
        V (unat (bl ! (map (log_block L) [0..<length bl] ! i - ?st - 1)))"
      using that by (intro view_after_map) (auto simp: distinct_map inj_on_def log_block_def)
    then show ?thesis using that by (simp add: log_writes_def comp_def log_block_def)
  qed
  have hw: "home_writes L bl (view_after ?w2 V) = ?w3" using v2 by (simp add: home_writes_def)
  have A: "runs write_log s (\<lambda>_. log_st p L Map.empty (view_after ?w1 V) (disk_after ?w1 D) (W @ ?w1) ?X)"
    by (rule write_log_runs [OF s L refl])
  have B: "runs write_head t (\<lambda>_. log_st p L Map.empty (view_after ?w2 V) (disk_after ?w2 D) (W @ ?w2) ?X)"
    if "log_st p L Map.empty (view_after ?w1 V) (disk_after ?w1 D) (W @ ?w1) ?X t" for t
    using write_head_runs [OF that, of bl] L stX cX v1 by simp
  have C: "runs install_trans t (\<lambda>_. log_st p L Map.empty (view_after (?w2 @ ?w3) V) (disk_after (?w2 @ ?w3) D) (W @ ?w2 @ ?w3) {})"
    if t: "log_st p L Map.empty (view_after ?w2 V) (disk_after ?w2 D) (W @ ?w2) ?X t" for t
  proof -
    have nX: "log_block L i \<notin> ?X" if "i < length bl" for i using F(12) [OF _ that] by (force simp: in_set_conv_nth)
    have "runs install_trans t (\<lambda>_. log_st p L Map.empty (view_after (home_writes L bl (view_after ?w2 V)) (view_after ?w2 V))
        (disk_after (home_writes L bl (view_after ?w2 V)) (disk_after ?w2 D)) ((W @ ?w2) @ home_writes L bl (view_after ?w2 V)) {})"
      by (rule install_trans_runs [OF t, of bl]) (use L clean_block [OF t nX] in simp_all)
    then show ?thesis unfolding hw by (simp add: disk_after_def view_after_def)
  qed
  have E: "runs write_head (the_log_update (lh_update (\<lambda>h. h\<lparr>lh_n := 0\<rparr>)) t) (\<lambda>_. log_st p (lh_cleared L) Map.empty
      (view_after (commit_writes L bl V) V) (disk_after (commit_writes L bl V) D) (W @ commit_writes L bl V) {})"
    if t: "log_st p L Map.empty (view_after (?w2 @ ?w3) V) (disk_after (?w2 @ ?w3) D) (W @ ?w2 @ ?w3) {} t" for t
  proof -
    have u: "log_st p (lh_cleared L) Map.empty (view_after (?w2 @ ?w3) V) (disk_after (?w2 @ ?w3) D) (W @ ?w2 @ ?w3) {}
        (the_log_update (lh_update (\<lambda>h. h\<lparr>lh_n := 0\<rparr>)) t)"
      using log_st_upd_log [OF t, of "lh_update (\<lambda>h. h\<lparr>lh_n := 0\<rparr>)"] by (simp add: lh_cleared_def)
    have st: "log_start (lh_cleared L) = log_start L" by (simp add: lh_cleared_def)
    have "?st \<notin> fst ` set ?w3" using stX by auto
    then have v: "view_after (?w2 @ ?w3) V ?st = ?H" using view_after_other [of ?st ?w3] by (simp add: view_after_def)
    have cw: "commit_writes L bl V = (?w2 @ ?w3) @ [(?st, enc_head [] ?H)]" by (simp add: commit_writes_def Let_def)
    show ?thesis
      unfolding cw after_snoc using write_head_runs [OF u, of "[]"] log_fits_cleared [OF L] v by (simp add: st NBUF_def MAXOPBLOCKS_def)
  qed
  have n: "lh_n (lh (the_log s)) = int (length bl)" using s F(2) by (simp add: log_st_def)
  show ?thesis
    unfolding commit_def runs_bnd runs_gets n runs_when runs_sq runs_modify
    using ne by simp (rule runs_weaken [OF A], rule runs_weaken [OF B], assumption, rule runs_weaken [OF C], assumption, rule E)
qed

subsection \<open>Recovery\<close>

definition head_blocks :: "uchar list \<Rightarrow> uint list" where
  "head_blocks d = map (\<lambda>i. get32 d (4 + 4 * i)) [0..<nat (sint (get32 d 0))]"

definition with_head :: "log \<Rightarrow> uchar list \<Rightarrow> log" where
  "with_head L d = L\<lparr>lh := \<lparr>lh_n = sint (get32 d 0), lh_block = head_blocks d @ drop (length (head_blocks d)) (lh_block (lh L))\<rparr>\<rparr>"

lemma head_blocks_enc:
  "length bl \<le> LOGSIZE \<Longrightarrow> length d = BSIZE \<Longrightarrow> head_blocks (enc_head bl d) = bl"
  by (auto simp: head_blocks_def enc_head intro: nth_equalityI)

lemma read_head_runs:
  assumes s: "log_st p L Map.empty V D W X s" and L: "log_dev L = 1" "0 \<le> log_start L" "nat (log_start L) < length D" "length D \<le> 2 ^ 31"
    "length (lh_block (lh L)) = LOGSIZE" and X: "nat (log_start L) \<notin> X" "card X < NBUF"
  defines "d \<equiv> V (nat (log_start L))"
  assumes n: "nat (sint (get32 d 0)) \<le> LOGSIZE"
  shows "runs read_head s (\<lambda>_. log_st p (with_head L d) Map.empty V D W X)"
proof -
  have lg: "the_log s = L" using s by (simp add: log_st_def)
  let ?b = "nat (log_start L)"
  have ub: "unat (word_of_int (log_start L) :: uint) = ?b" using L by (intro unat_word_of_int) auto
  have r1: "runs (bread 1 (word_of_int (log_start L))) s (\<lambda>x t. (Map.empty :: nat \<Rightarrow> nat option) x = None \<and>
      log_st p L [x \<mapsto> unat (word_of_int (log_start L) :: uint)] V D W X t \<and> bstep s t)"
    by (rule lg.rd [OF s]) (use L X ub in auto)
  let ?n = "nat (sint (get32 d 0))"
  let ?L = "\<lambda>k. L\<lparr>lh := \<lparr>lh_n = sint (get32 d 0), lh_block = map (\<lambda>i. get32 d (4 + 4 * i)) [0..<k] @ drop k (lh_block (lh L))\<rparr>\<rparr>"
  show ?thesis
    unfolding read_head_def runs_bnd runs_gets lg L(1) of_int_1
  proof (rule runs_weaken [OF r1], elim conjE)
    fix x t assume "log_st p L [x \<mapsto> unat (word_of_int (log_start L) :: uint)] V D W X t"
    then have t: "log_st p L [x \<mapsto> ?b] V D W X t" by (simp only: ub)
    have dt: "data (buf_at x t) = d" using lg.get [OF t, of x ?b] by (simp add: d_def)
    let ?I = "\<lambda>k. log_st p (?L k) [x \<mapsto> ?b] V D W X"
    have l0: "?L 0 = (lh_update (\<lambda>h. h\<lparr>lh_n := sint (get32 d 0)\<rparr>)) L" by (cases L; cases "lh L") simp
    have i0: "?I 0 (upd_lh (\<lambda>h. h\<lparr>lh_n := sint (get32 d 0)\<rparr>) t)"
      unfolding l0 by (rule log_st_upd_log [OF t])
    have loop: "runs (for_each [0..<?n] (\<lambda>i. set_entry i (get32 d (4 + 4 * i))))
        (upd_lh (\<lambda>h. h\<lparr>lh_n := sint (get32 d 0)\<rparr>) t) (\<lambda>_. ?I (length [0..<?n]))"
    proof (rule runs_for_each [of ?I, OF i0])
      fix k u assume "k < length [0..<?n]" and u: "?I k u"
      then have k: "k < ?n" "k < LOGSIZE" using n by simp_all
      have "drop k (lh_block (lh L)) = lh_block (lh L) ! k # drop (Suc k) (lh_block (lh L))"
        using k L(5) by (simp add: Cons_nth_drop_Suc)
      then have e: "lh_update (lh_block_update (\<lambda>bl. bl[k := get32 d (4 + 4 * k)])) (?L k) = ?L (Suc k)"
        by (simp add: list_update_append)
      have "the_log u = ?L k" using u by (simp add: log_st_def)
      then have "set_entry k (get32 d (4 + 4 * k)) u = Done () (upd_lh (lh_block_update (\<lambda>bl. bl[k := get32 d (4 + 4 * k)])) u)"
        using k L(5) by (simp add: set_entry_def kern_defs)
      then show "runs (set_entry ([0..<?n] ! k) (get32 d (4 + 4 * ([0..<?n] ! k)))) u (\<lambda>_. ?I (Suc k))"
        using k log_st_upd_log [OF u, of "lh_update (lh_block_update (\<lambda>bl. bl[k := get32 d (4 + 4 * k)]))", unfolded e]
        by (simp add: runs_Done)
    qed
    show "runs (sq (modify (upd_lh (\<lambda>h. h\<lparr>lh_n := sint (get32 (data (buf_at x t)) 0)\<rparr>)))
       (sq (for_each [0..<nat (sint (get32 (data (buf_at x t)) 0))] (\<lambda>i. set_entry i (get32 (data (buf_at x t)) (4 + 4 * i)))) (brelse x))) t
       (\<lambda>_. log_st p (with_head L d) Map.empty V D W X)"
      unfolding dt runs_sq runs_modify
    proof (rule runs_weaken [OF loop])
      fix a u assume "?I (length [0..<?n]) u"
      then have u: "log_st p (with_head L d) [x \<mapsto> ?b] V D W X u" by (simp add: with_head_def head_blocks_def)
      have cl: "V ?b = D ! ?b" using clean_block [OF s X(1)] .
      show "runs (brelse x) u (\<lambda>_. log_st p (with_head L d) Map.empty V D W X)"
        by (rule runs_weaken [OF lg.rel [OF u]]) (use cl in auto)
    qed
  qed
qed

definition recovery_writes :: "log \<Rightarrow> uchar list list \<Rightarrow> (nat \<times> uchar list) list" where
  "recovery_writes L D = (let st = nat (log_start L) in
     home_writes L (head_blocks (D ! st)) (\<lambda>b. D ! b) @ [(st, enc_head [] (D ! st))])"

lemma recover_runs:
  assumes s: "log_st p L Map.empty V D W {} s" and L: "log_fits (with_head L (D ! nat (log_start L))) (head_blocks (D ! nat (log_start L))) (length D)"
    and n: "length (lh_block (lh L)) = LOGSIZE"
  shows "runs recover_from_log s (\<lambda>_ t. memdisk t = disk_after (recovery_writes L D) D \<and> (\<exists>V' W'.
    log_st p (lh_cleared (with_head L (D ! nat (log_start L)))) Map.empty V' (memdisk t) W' {} t))"
proof -
  let ?st = "nat (log_start L)" and ?bl = "head_blocks (D ! nat (log_start L))" and ?L = "with_head L (D ! nat (log_start L))"
  note F = log_fitsD [OF L]
  have V: "V b = D ! b" for b using clean_block [OF s] by simp
  have sel: "log_start ?L = log_start L" "log_block ?L = log_block L" by (auto simp: with_head_def log_block_def fun_eq_iff)
  have g: "log_dev L = 1" "0 \<le> log_start L" "?st < length D" "length D \<le> 2 ^ 31" "nat (sint (get32 (D ! ?st) 0)) \<le> LOGSIZE"
    using L F(4,6) by (auto simp: log_fits_def with_head_def head_blocks_def)
  have A: "runs read_head s (\<lambda>_. log_st p ?L Map.empty V D W {})"
    using read_head_runs [OF s g(1-4) n] g(5) V by (simp add: NBUF_def MAXOPBLOCKS_def)
  let ?w = "home_writes L ?bl (\<lambda>b. D ! b)"
  have hw: "home_writes ?L ?bl V = ?w" by (simp add: home_writes_def sel V)
  have B: "runs install_trans t (\<lambda>_. log_st p ?L Map.empty (view_after ?w V) (disk_after ?w D) (W @ ?w) {})"
    if t: "log_st p ?L Map.empty V D W {} t" for t
    using install_trans_runs [OF t L] V unfolding hw by simp
  have C: "runs write_head (the_log_update (lh_update (\<lambda>h. h\<lparr>lh_n := 0\<rparr>)) t) (\<lambda>_ u. log_st p (lh_cleared ?L) Map.empty
      ((view_after ?w V)(?st := enc_head [] (D ! ?st))) (disk_after (recovery_writes L D) D) ((W @ ?w) @ [(?st, enc_head [] (D ! ?st))]) {} u)"
    if t: "log_st p ?L Map.empty (view_after ?w V) (disk_after ?w D) (W @ ?w) {} t" for t
  proof -
    have u: "log_st p (lh_cleared ?L) Map.empty (view_after ?w V) (disk_after ?w D) (W @ ?w) {}
        (the_log_update (lh_update (\<lambda>h. h\<lparr>lh_n := 0\<rparr>)) t)"
      using log_st_upd_log [OF t, of "lh_update (\<lambda>h. h\<lparr>lh_n := 0\<rparr>)"] by (simp add: lh_cleared_def)
    have st: "log_start (lh_cleared ?L) = log_start L" by (simp add: lh_cleared_def sel)
    have "?st \<notin> fst ` set ?w" using F(11) by (force simp: home_writes_def sel)
    then have v: "view_after ?w V ?st = D ! ?st" using V by (simp add: view_after_other)
    have rw: "recovery_writes L D = ?w @ [(?st, enc_head [] (D ! ?st))]" by (simp add: recovery_writes_def Let_def)
    show ?thesis
      unfolding rw after_snoc using write_head_runs [OF u, of "[]"] log_fits_cleared [OF L] v by (simp add: st NBUF_def MAXOPBLOCKS_def)
  qed
  show ?thesis
    unfolding recover_from_log_def runs_sq runs_modify
  proof (rule runs_weaken [OF A], rule runs_weaken [OF B], assumption, rule runs_weaken [OF C], assumption)
    fix u assume "log_st p (lh_cleared ?L) Map.empty ((view_after ?w V)(?st := enc_head [] (D ! ?st)))
        (disk_after (recovery_writes L D) D) ((W @ ?w) @ [(?st, enc_head [] (D ! ?st))]) {} u"
    moreover from this have "memdisk u = disk_after (recovery_writes L D) D" by (simp add: log_st_def cache_st_def)
    ultimately show "memdisk u = disk_after (recovery_writes L D) D \<and> (\<exists>V' W'. log_st p (lh_cleared ?L) Map.empty V' (memdisk u) W' {} u)"
      by auto
  qed
qed

subsection \<open>Crashes\<close>

definition in_log :: "log \<Rightarrow> nat \<Rightarrow> bool" where
  "in_log L b \<longleftrightarrow> log_start L \<le> int b \<and> int b < log_start L + log_size L"

lemma in_log_facts:
  assumes "log_fits L bl n"
  shows "in_log L (nat (log_start L))" "\<And>i. i < length bl \<Longrightarrow> in_log L (log_block L i)"
    "\<And>b. b \<in> set bl \<Longrightarrow> \<not> in_log L (unat b)"
proof -
  have a: "1 < log_start L" "int (length bl) < log_size L"
    "\<forall>b \<in> set bl. int (unat b) < log_start L \<or> log_start L + log_size L \<le> int (unat b)"
    using assms by (auto simp: log_fits_def)
  show "in_log L (nat (log_start L))" using a(1,2) by (simp add: in_log_def)
  show "in_log L (log_block L i)" if "i < length bl" for i using a(1,2) that by (simp add: in_log_def log_block_def)
  show "\<not> in_log L (unat b)" if "b \<in> set bl" for b using a(3) that unfolding in_log_def by fastforce
qed

text \<open>What a crash after \<open>k\<close> of the writes of a commit leaves in the log: an empty header before the header
  is written and after it is erased, and the whole transaction in between.\<close>

lemma crash_disk:
  assumes L: "log_fits L bl (length D)" and D: "sint (get32 (D ! nat (log_start L)) 0) = 0"
    and V0: "\<forall>b. b \<notin> unat ` set bl \<longrightarrow> V b = D ! b" and len: "length (V (nat (log_start L))) = BSIZE" and k: "k \<le> length (commit_writes L bl V)"
  defines "D' \<equiv> disk_after (take k (commit_writes L bl V)) D" and "st \<equiv> nat (log_start L)"
  shows "k \<le> length bl \<Longrightarrow> sint (get32 (D' ! st) 0) = 0 \<and> (\<forall>b. \<not> in_log L b \<longrightarrow> D' ! b = D ! b)"
    and "length bl < k \<Longrightarrow> k < length (commit_writes L bl V) \<Longrightarrow> sint (get32 (D' ! st) 0) = int (length bl) \<and> head_blocks (D' ! st) = bl \<and>
      (\<forall>i < length bl. D' ! log_block L i = V (unat (bl ! i))) \<and> (\<forall>b. \<not> in_log L b \<longrightarrow> b \<notin> unat ` set bl \<longrightarrow> D' ! b = V b)"
    and "k = length (commit_writes L bl V) \<Longrightarrow> sint (get32 (D' ! st) 0) = 0 \<and> (\<forall>b. \<not> in_log L b \<longrightarrow> D' ! b = V b)"
proof -
  note F = log_fitsD [OF L] and I = in_log_facts [OF L] and V = V0 [rule_format]
  let ?n = "length bl" and ?w1 = "log_writes L bl V" and ?H = "enc_head bl (V st)"
  let ?w3 = "map (\<lambda>i. (unat (bl ! i), V (unat (bl ! i)))) [0..<length bl]"
  have ws: "commit_writes L bl V = ?w1 @ [(st, ?H)] @ ?w3 @ [(st, enc_head [] ?H)]" by (simp add: commit_writes_def Let_def st_def)
  have l1: "length ?w1 = ?n" by (simp add: log_writes_def)
  have H: "length ?H = BSIZE" "sint (get32 ?H 0) = int ?n" "head_blocks ?H = bl"
    using enc_head [OF F(6) len] head_blocks_enc [OF F(6) len] by (simp_all add: st_def)
  have stD: "st < length D" using F(4) by (simp add: st_def)
  have w1: "fst ` set (take j ?w1) \<subseteq> log_block L ` {..<?n}" for j
    using set_take_subset [of j ?w1] by (auto simp: log_writes_def)
  have w3e: "?w3 = map (\<lambda>b. (unat b, V (unat b))) bl" by (rule nth_equalityI) simp_all
  have w3: "fst ` set (take j ?w3) \<subseteq> unat ` set bl" "fst ` set ?w3 = unat ` set bl" for j
    unfolding w3e using set_take_subset [of j bl] by (auto simp: take_map image_image)
  have st1: "st \<notin> log_block L ` {..<?n}" by (auto simp: log_block_def st_def)
  have nl: "b \<notin> log_block L ` {..<?n}" if "\<not> in_log L b" for b using that I(2) by auto
  have st3: "st \<notin> unat ` set bl" using I(1,3) by (auto simp: st_def)
  {
    assume "k \<le> ?n"
    then have tk: "take k (commit_writes L bl V) = take k ?w1" using l1 by (simp add: ws)
    have "D' ! b = D ! b" if "b \<notin> log_block L ` {..<?n}" for b
      unfolding D'_def tk using that w1 by (intro disk_after_other) auto
    then show "sint (get32 (D' ! st) 0) = 0 \<and> (\<forall>b. \<not> in_log L b \<longrightarrow> D' ! b = D ! b)"
      using D st1 nl by (simp add: st_def)
  }
  {
    assume kn: "?n < k" "k < length (commit_writes L bl V)"
    have tk: "take k (commit_writes L bl V) = ?w1 @ [(st, ?H)] @ take (k - Suc ?n) ?w3"
      using kn l1 by (simp add: ws take_Cons')
    let ?D1 = "disk_after ?w1 D"
    have D': "D' = disk_after (take (k - Suc ?n) ?w3) (?D1[st := ?H])"
      unfolding D'_def tk by (simp add: disk_after_append del: append_Cons append_Nil) (simp add: disk_after_def)
    have o: "D' ! b = ?D1[st := ?H] ! b" if "b \<notin> unat ` set bl" for b
      unfolding D' using that w3(1) by (intro disk_after_other) blast
    have "D' ! st = ?H" using o [OF st3] stD by simp
    moreover have "D' ! log_block L i = V (unat (bl ! i))" if i: "i < ?n" for i
    proof -
      have "log_block L i \<notin> unat ` set bl" "log_block L i \<noteq> st" using I(2) [OF i] I(3) by (auto simp: log_block_def st_def)
      then have "D' ! log_block L i = ?D1 ! log_block L i" using o by simp
      also have "\<dots> = V (unat (bl ! i))"
        using F(9) [OF i] i by (intro disk_after_writes) (auto simp: log_writes_def log_block_def image_iff)
      finally show ?thesis .
    qed
    moreover have "D' ! b = V b" if "\<not> in_log L b" "b \<notin> unat ` set bl" for b
    proof -
      have "b \<noteq> st" "b \<notin> log_block L ` {..<?n}" using that I(1,2) by (auto simp: st_def)
      moreover have "?D1 ! b = D ! b" using \<open>b \<notin> log_block L ` {..<?n}\<close> w1 [of ?n] l1 by (intro disk_after_other) auto
      ultimately show ?thesis using o [OF that(2)] V [OF that(2)] by simp
    qed
    ultimately show "sint (get32 (D' ! st) 0) = int (length bl) \<and> head_blocks (D' ! st) = bl \<and>
      (\<forall>i < length bl. D' ! log_block L i = V (unat (bl ! i))) \<and> (\<forall>b. \<not> in_log L b \<longrightarrow> b \<notin> unat ` set bl \<longrightarrow> D' ! b = V b)"
      using H by simp
  }
  {
    assume "k = length (commit_writes L bl V)"
    then have tk: "take k (commit_writes L bl V) = (?w1 @ [(st, ?H)] @ ?w3) @ [(st, enc_head [] ?H)]" by (simp add: ws)
    have "D' ! st = enc_head [] ?H" unfolding D'_def tk using stD by (simp del: append_assoc append_Cons)
    then have "sint (get32 (D' ! st) 0) = 0" using enc_head(2) [of "[]" ?H] H by simp
    moreover have "D' ! b = V b" if b: "\<not> in_log L b" for b
    proof -
      have nb: "b \<noteq> st" "b \<notin> log_block L ` {..<?n}" using b I(1,2) by (auto simp: st_def)
      have e: "D' ! b = disk_after ?w3 ((disk_after ?w1 D)[st := ?H]) ! b"
        unfolding D'_def tk using nb(1) by (simp add: disk_after_append del: append_assoc append_Cons append_Nil) (simp add: disk_after_def)
      show ?thesis
      proof (cases "b \<in> unat ` set bl")
        case True
        then have "b < length D" using F(11) by (auto simp: in_set_conv_nth)
        then show ?thesis unfolding e using True w3(2) by (intro disk_after_writes) auto
      next
        case False
        then have "D' ! b = (disk_after ?w1 D)[st := ?H] ! b" unfolding e using w3(2) by (intro disk_after_other) auto
        also have "\<dots> = disk_after ?w1 D ! b" using nb by simp
        also have "\<dots> = D ! b" using nb(2) w1 [of ?n] l1 by (intro disk_after_other) auto
        finally show ?thesis using V [OF False] by simp
      qed
    qed
    ultimately show "sint (get32 (D' ! st) 0) = 0 \<and> (\<forall>b. \<not> in_log L b \<longrightarrow> D' ! b = V b)" by blast
  }
qed

text \<open>The kernel after a reboot: a fresh cache over the disk as it was left.\<close>

definition rebooted :: "nat \<Rightarrow> uchar list list \<Rightarrow> 'x klog_scheme \<Rightarrow> bool" where
  "rebooted p D s \<longleftrightarrow> length (lh_block (lh (the_log s))) = LOGSIZE \<and> (\<exists>W. cache_st p Map.empty (\<lambda>b. D ! b) D W {} s)"

lemma cache_st_initlock:
  "cache_st p h V D W X s \<Longrightarrow> cache_st p h V D W X (upd_lock lk (\<lambda>_. \<lparr>locked = False, lk_name = nm, lk_cpu = None\<rparr>) s)"
  using in_proc_initlock [OF bcD(1) [OF cache_stD(1)], of p h V D W X s lk nm] by (auto intro: cache_st_cong simp: upd_lock_def)

lemma initlog_runs:
  assumes r: "rebooted p D s" and D: "1 < length D"
    and sb: "sint (sb_logstart (dec_superblock (D ! 1))) = st" "sint (sb_nlog (dec_superblock (D ! 1))) = n"
    and L: "L = (the_log s)\<lparr>log_start := st, log_size := n, log_dev := 1\<rparr>"
    and fit: "log_fits (with_head L (D ! nat st)) (head_blocks (D ! nat st)) (length D)"
  shows "runs (initlog 1) s (\<lambda>_ t. memdisk t = disk_after (recovery_writes L D) D \<and> (\<exists>V' W'.
    log_st p (lh_cleared (with_head L (D ! nat st))) Map.empty V' (memdisk t) W' {} t))"
proof -
  from r obtain W where s: "cache_st p Map.empty (\<lambda>b. D ! b) D W {} s" and nl: "length (lh_block (lh (the_log s))) = LOGSIZE"
    by (auto simp: rebooted_def)
  let ?s1 = "upd_lock Lk_log (\<lambda>_. \<lparr>locked = False, lk_name = ''log'', lk_cpu = None\<rparr>) s"
  have l1: "the_log ?s1 = the_log s" by (simp add: upd_lock_def)
  have s1: "log_st p (the_log s) Map.empty (\<lambda>b. D ! b) D W {} ?s1" using cache_st_initlock [OF s] l1 by (simp add: log_st_def)
  have A: "runs (readsb 1) ?s1 (\<lambda>r t. r = dec_superblock (D ! 1) \<and> log_st p (the_log s) Map.empty (\<lambda>b. D ! b) D W {} t)"
    unfolding readsb_def of_int_1
    by (rule runs_weaken [OF lg.look_at [OF s1]]) (use D in \<open>auto simp: NBUF_def MAXOPBLOCKS_def\<close>)
  have sz: "\<not> BSIZE \<le> sizeof_logheader" by (simp add: BSIZE_def sizeof_logheader_def LOGSIZE_def MAXOPBLOCKS_def)
  show ?thesis
    unfolding initlog_def initlock_def using sz
  proof (simp only: if_False runs_sq runs_bnd runs_modify, intro runs_weaken [OF A], elim conjE)
    fix r t assume r: "r = dec_superblock (D ! 1)" and t: "log_st p (the_log s) Map.empty (\<lambda>b. D ! b) D W {} t"
    let ?u = "upd_log (\<lambda>l. l\<lparr>log_dev := 1\<rparr>) (upd_log (\<lambda>l. l\<lparr>log_size := sint (sb_nlog r)\<rparr>) (upd_log (\<lambda>l. l\<lparr>log_start := sint (sb_logstart r)\<rparr>) t))"
    have u: "log_st p L Map.empty (\<lambda>b. D ! b) D W {} ?u"
      using log_st_upd_log [OF log_st_upd_log [OF log_st_upd_log [OF t, of "\<lambda>l. l\<lparr>log_start := sint (sb_logstart r)\<rparr>"],
        of "\<lambda>l. l\<lparr>log_size := sint (sb_nlog r)\<rparr>"], of "\<lambda>l. l\<lparr>log_dev := 1\<rparr>"] sb r by (simp add: L)
    have st: "log_start L = st" "length (lh_block (lh L)) = LOGSIZE" using nl by (simp_all add: L)
    show "runs recover_from_log ?u (\<lambda>_ t. memdisk t = disk_after (recovery_writes L D) D \<and> (\<exists>V' W'.
        log_st p (lh_cleared (with_head L (D ! nat st))) Map.empty V' (memdisk t) W' {} t))"
      using recover_runs [OF u] fit st by simp
  qed
qed

lemma fits_with_head:
  assumes "log_fits L bl n" "log_start L' = log_start L" "log_size L' = log_size L" "log_dev L' = 1" "length (lh_block (lh L')) = LOGSIZE"
    "head_blocks d = bl'" "sint (get32 d 0) = int (length bl')" "bl' = bl \<or> bl' = []"
  shows "log_fits (with_head L' d) bl' n"
  using assms by (auto simp: log_fits_def with_head_def)

text \<open>Recovery from a crash inside a commit: nothing of the transaction before the header is written, all of
  it afterwards.\<close>

lemma crash_recovery:
  assumes L: "log_fits L bl (length D)" and D: "sint (get32 (D ! nat (log_start L)) 0) = 0"
    and V: "\<And>b. b \<notin> unat ` set bl \<Longrightarrow> V b = D ! b" and len: "length (V (nat (log_start L))) = BSIZE"
    and sb: "sint (sb_logstart (dec_superblock (D ! 1))) = log_start L" "sint (sb_nlog (dec_superblock (D ! 1))) = log_size L" "1 \<notin> set bl"
    and k: "k \<le> length (commit_writes L bl V)" and r: "rebooted q (disk_after (take k (commit_writes L bl V)) D) r"
  shows "runs (initlog 1) r (\<lambda>_ u. \<forall>b. \<not> in_log L b \<longrightarrow> memdisk u ! b = (if k \<le> length bl then D ! b else V b))"
proof -
  note F = log_fitsD [OF L] and I = in_log_facts [OF L]
  let ?D = "disk_after (take k (commit_writes L bl V)) D" and ?st = "nat (log_start L)"
  have V0: "\<forall>b. b \<notin> unat ` set bl \<longrightarrow> V b = D ! b" using V by blast
  note C = crash_disk [OF L D V0 len k]
  let ?L = "(the_log r)\<lparr>log_start := log_start L, log_size := log_size L, log_dev := 1\<rparr>"
  have a: "1 < log_start L" using L by (simp add: log_fits_def)
  then have n1: "\<not> in_log L 1" "1 < length D" using F(4) by (auto simp: in_log_def)
  have "b = 1" if "unat b = 1" for b :: uint using that by (simp add: word_unat_eq_iff)
  then have u1: "(1::nat) \<notin> unat ` set bl" using sb(3) by force
  have d1: "?D ! 1 = D ! 1"
  proof -
    consider "k \<le> length bl" | "length bl < k" "k < length (commit_writes L bl V)" | "k = length (commit_writes L bl V)"
      using k by linarith
    then show ?thesis using C n1(1) u1 V [OF u1] by cases auto
  qed
  have lr: "length (lh_block (lh ?L)) = LOGSIZE" using r by (simp add: rebooted_def)
  have lb: "log_block ?L = log_block L" by (simp add: log_block_def fun_eq_iff)
  have run: "runs (initlog 1) r (\<lambda>_ t. memdisk t = disk_after (recovery_writes ?L ?D) ?D)"
    if "log_fits (with_head ?L (?D ! ?st)) (head_blocks (?D ! ?st)) (length D)"
    by (rule runs_weaken [OF initlog_runs [OF r]]) (use that d1 sb n1(2) in auto)
  have empty: ?thesis if e: "sint (get32 (?D ! ?st) 0) = 0" and o: "\<And>b. \<not> in_log L b \<Longrightarrow> ?D ! b = (if k \<le> length bl then D ! b else V b)"
  proof -
    have h: "head_blocks (?D ! ?st) = []" using e by (simp add: head_blocks_def)
    have "log_fits (with_head ?L (?D ! ?st)) [] (length D)" using h e lr by (intro fits_with_head [OF L]) auto
    moreover have "recovery_writes ?L ?D = [(?st, enc_head [] (?D ! ?st))]" using h by (simp add: recovery_writes_def home_writes_def Let_def)
    ultimately show ?thesis
    proof (intro runs_weaken [OF run], use h in simp, intro allI impI)
      fix t b assume t: "memdisk t = disk_after (recovery_writes ?L ?D) ?D" and w: "recovery_writes ?L ?D = [(?st, enc_head [] (?D ! ?st))]"
        and nb: "\<not> in_log L b"
      have "b \<noteq> ?st" using I(1) nb by auto
      then have "memdisk t ! b = ?D ! b" unfolding t w by (intro disk_after_other) simp
      then show "memdisk t ! b = (if k \<le> length bl then D ! b else V b)" using o [OF nb] by simp
    qed
  qed
  consider "k \<le> length bl" | "length bl < k" "k < length (commit_writes L bl V)" | "k = length (commit_writes L bl V)" "length bl < k"
    using k by (auto simp: commit_writes_def Let_def log_writes_def) linarith
  then show ?thesis
  proof cases
    case 1
    then show ?thesis using C(1) by (intro empty) auto
  next
    case 2
    note C = C(2) [OF 2]
    have b: "?D ! log_block L i = V (unat (bl ! i))" if "i < length bl" for i using C that by auto
    have h: "head_blocks (?D ! ?st) = bl" using C by blast
    have "log_fits (with_head ?L (?D ! ?st)) bl (length D)" using C lr by (intro fits_with_head [OF L]) auto
    moreover have rw: "recovery_writes ?L ?D = map (\<lambda>i. (unat (bl ! i), V (unat (bl ! i)))) [0..<length bl] @ [(?st, enc_head [] (?D ! ?st))]"
      using h b by (simp add: recovery_writes_def home_writes_def Let_def lb)
    ultimately show ?thesis
    proof (intro runs_weaken [OF run], use h in simp, intro allI impI)
      fix t b assume t: "memdisk t = disk_after (recovery_writes ?L ?D) ?D" and nb: "\<not> in_log L b"
      let ?w = "map (\<lambda>i. (unat (bl ! i), V (unat (bl ! i)))) [0..<length bl]"
      have w: "?w = map (\<lambda>b. (unat b, V (unat b))) bl" by (rule nth_equalityI) simp_all
      have "b \<noteq> ?st" using I(1) nb by auto
      then have m: "memdisk t ! b = disk_after ?w ?D ! b" by (simp add: t rw)
      show "memdisk t ! b = (if k \<le> length bl then D ! b else V b)"
      proof (cases "b \<in> unat ` set bl")
        case True
        then have "b < length D" using F(11) by (auto simp: in_set_conv_nth)
        then have "disk_after ?w ?D ! b = V b" using True unfolding w by (intro disk_after_writes) (auto simp: image_image)
        then show ?thesis using m 2 by simp
      next
        case False
        then have "disk_after ?w ?D ! b = ?D ! b" unfolding w by (intro disk_after_other) (auto simp: image_image)
        then show ?thesis using m 2 C nb False by auto
      qed
    qed
  next
    case 3
    then show ?thesis using C(3) [OF 3(1)] by (intro empty) auto
  qed
qed

subsection \<open>Transactions\<close>

text \<open>Recording a block: the entry is new unless the block is already in the transaction.\<close>

definition absorb :: "uint \<Rightarrow> uint list \<Rightarrow> uint list" where
  "absorb b bl = (if b \<in> set bl then bl else bl @ [b])"

definition lh_of :: "uint list \<Rightarrow> log \<Rightarrow> log" where
  "lh_of bl L = lh_update (\<lambda>h. h\<lparr>lh_block := bl @ drop (length bl) (lh_block h), lh_n := int (length bl)\<rparr>) L"

lemma lh_of_same:
  assumes "log_fits L bl n"
  shows "lh_of bl L = L"
proof -
  have "bl @ drop (length bl) (lh_block (lh L)) = lh_block (lh L)" "lh_n (lh L) = int (length bl)"
    using assms append_take_drop_id [of "length bl" "lh_block (lh L)"] by (simp_all add: log_fits_def)
  then show ?thesis by (cases L; cases "lh L") (simp add: lh_of_def)
qed

lemma upd_log_cong: "f (the_log s) = g (the_log s) \<Longrightarrow> the_log_update f s = the_log_update g s"
  by (cases s) simp

lemma upd_log_id: "f (the_log s) = the_log s \<Longrightarrow> the_log_update f s = s"
  by (cases s) simp

lemma log_write_Done:
  assumes s: "in_proc p s" and L: "log_fits (the_log s) bl n" "int (length bl) < log_size (the_log s) - 1" "1 \<le> outstanding (the_log s)"
  shows "log_write i s = Done () (upd_buf i (\<lambda>x. x\<lparr>b_dirty := True\<rparr>) (upd_log (lh_of (absorb (blockno (buf_at i s)) bl)) s))"
proof -
  let ?L = "the_log s" and ?b = "blockno (buf_at i s)" and ?B = "lh_block (lh (the_log s))"
  have f: "lh_n (lh ?L) = int (length bl)" "length ?B = LOGSIZE" "take (length bl) ?B = bl" "log_size ?L \<le> int LOGSIZE"
    using L by (simp_all add: log_fits_def)
  then have lt: "length bl < LOGSIZE" using L(2) by linarith
  show ?thesis
  proof (cases "first_index (\<lambda>x. x = ?b) bl")
    case (Some j)
    then have j: "j < length bl" "bl ! j = ?b" by (simp_all add: first_index_Some)
    then have "?B ! j = ?b" using f(3) by (metis nth_take)
    then have e: "?B[j := ?b] = ?B" by (metis list_update_id)
    have "?b \<in> set bl" using j by (metis nth_mem)
    then have a: "absorb ?b bl = bl" by (simp add: absorb_def)
    have lh1: "lh_block_update (\<lambda>B. B[j := ?b]) (lh ?L) = lh ?L" using e by (cases "lh ?L") simp
    have u: "upd_lh (lh_block_update (\<lambda>B. B[j := ?b])) (acquired Lk_log s) = acquired Lk_log s"
      using lh1 by simp
    have v: "upd_log (lh_of (absorb ?b bl)) s = s" using lh_of_same [OF L(1)] a by (simp add: upd_log_id)
    show ?thesis
      unfolding v using s L(2,3) f(1,2,3) lt j(1) Some u
      by (simp add: log_write_def kern_defs acquire_Done release_Done set_entry_def upd_buf_def Let_def)
  next
    case None
    then have a: "absorb ?b bl = bl @ [?b]" by (auto simp: absorb_def first_index_None)
    have d: "drop (length bl) ?B = ?B ! length bl # drop (Suc (length bl)) ?B" using f(2) lt by (simp add: Cons_nth_drop_Suc)
    have "?B = bl @ ?B ! length bl # drop (Suc (length bl)) ?B"
      using append_take_drop_id [of "length bl" ?B] unfolding f(3) d by simp
    then have e: "?B[length bl := ?b] = (bl @ [?b]) @ drop (Suc (length bl)) ?B" by (metis list_update_length append.assoc append_Cons append_Nil)
    have g: "lh_update (\<lambda>h. h\<lparr>lh_n := lh_n h + 1\<rparr>) (lh_update (lh_block_update (\<lambda>B. B[length bl := ?b])) ?L) = lh_of (absorb ?b bl) ?L"
      using e f(1) a by (cases ?L; cases "lh ?L") (simp add: lh_of_def)
    have v: "upd_log (lh_of (absorb ?b bl)) s =
        upd_log (\<lambda>l. lh_update (\<lambda>h. h\<lparr>lh_n := lh_n h + 1\<rparr>) (lh_update (lh_block_update (\<lambda>B. B[length bl := ?b])) l)) s"
      by (rule upd_log_cong) (simp only: g)
    show ?thesis
      unfolding v using s L(2,3) f(1,2,3) lt None
      by (simp add: log_write_def kern_defs acquire_Done release_Done set_entry_def upd_buf_def Let_def)
  qed
qed

text \<open>The state inside a transaction that has recorded the blocks \<open>bl\<close>.\<close>

definition txn_st :: "nat \<Rightarrow> log \<Rightarrow> (nat \<Rightarrow> nat option) \<Rightarrow> (nat \<Rightarrow> uchar list) \<Rightarrow> uchar list list \<Rightarrow>
    (nat \<times> uchar list) list \<Rightarrow> uint list \<Rightarrow> 'x klog_scheme \<Rightarrow> bool" where
  "txn_st p L h V D W bl s \<longleftrightarrow> log_st p (lh_of bl L) h V D W (unat ` set bl) s \<and> log_fits (lh_of bl L) bl (length D)"

lemma lh_of_sel [simp]:
  "log_start (lh_of bl L) = log_start L" "log_size (lh_of bl L) = log_size L" "outstanding (lh_of bl L) = outstanding L"
  "log_dev (lh_of bl L) = log_dev L" "committing (lh_of bl L) = committing L"
  by (simp_all add: lh_of_def)

lemma in_log_lh_of [simp]: "in_log (lh_of bl L) = in_log L"
  by (simp add: in_log_def fun_eq_iff)

lemma lh_of_lh_of:
  "length bl \<le> length bl' \<Longrightarrow> length bl \<le> length (lh_block (lh L)) \<Longrightarrow> lh_of bl' (lh_of bl L) = lh_of bl' L"
  by (simp add: lh_of_def)

lemma length_absorb: "length bl \<le> length (absorb b bl)" "length (absorb b bl) \<le> Suc (length bl)"
  by (simp_all add: absorb_def)

lemma set_absorb [simp]: "set (absorb b bl) = insert b (set bl)"
  by (auto simp: absorb_def)

lemma log_fits_absorb:
  assumes L: "log_fits L bl n" and b: "unat b < n" "\<not> in_log L (unat b)" "int (length bl) < log_size L - 1"
  shows "log_fits (lh_of (absorb b bl) L) (absorb b bl) n"
proof (cases "b \<in> set bl")
  case True
  then show ?thesis using L lh_of_same [OF L] by (simp add: absorb_def)
next
  case False
  then have a: "absorb b bl = bl @ [b]" by (simp add: absorb_def)
  have i: "int (unat b) < log_start L \<or> log_start L + log_size L \<le> int (unat b)" using b(2) unfolding in_log_def by linarith
  have "int (length bl) < log_size L - 1" "log_size L \<le> int LOGSIZE" using L b(3) by (simp_all add: log_fits_def)
  then have "length bl < LOGSIZE" by linarith
  then show ?thesis using L b(1,3) i False unfolding a by (auto simp: log_fits_def lh_of_def)
qed

lemma log_write_runs:
  assumes s: "txn_st p L h V D W bl s" and i: "h i = Some (unat b)"
    and b: "\<not> in_log L (unat b)" "int (length bl) < log_size L - 1" "1 \<le> outstanding L"
  shows "runs (log_write i) s (\<lambda>_. txn_st p L h V D W (absorb b bl))"
proof -
  have s': "log_st p (lh_of bl L) h V D W (unat ` set bl) s" and fit: "log_fits (lh_of bl L) bl (length D)"
    using s by (simp_all add: txn_st_def)
  then have c: "cache_st p h V D W (unat ` set bl) s" and lg: "the_log s = lh_of bl L" by (simp_all add: log_st_def)
  note d = cache_data [OF c i]
  have bn: "blockno (buf_at i s) = b" using d(5) by (simp add: word_unat_eq_iff)
  have lb: "length bl \<le> length (lh_block (lh L))"
  proof (rule ccontr)
    assume "\<not> ?thesis"
    then have "length (lh_block (lh (lh_of bl L))) = length bl" by (simp add: lh_of_def)
    then have "length bl = LOGSIZE" using fit by (simp add: log_fits_def)
    then show False using fit b(2) by (simp add: log_fits_def)
  qed
  have run: "log_write i s = Done () (upd_buf i (\<lambda>x. x\<lparr>b_dirty := True\<rparr>) (upd_log (lh_of (absorb b bl)) s))"
    using log_write_Done [of p s bl "length D" i] bcD(1) [OF cache_stD(1) [OF c]] fit b lg bn by simp
  let ?u = "upd_log (lh_of (absorb b bl)) s"
  have u: "cache_st p h V D W (unat ` set bl) ?u" by (rule cache_st_upd_log [OF c])
  have "cache_st p h V D W (insert (unat b) (unat ` set bl)) (upd_buf i (\<lambda>x. x\<lparr>b_dirty := True\<rparr>) ?u)"
    by (rule cache_set_dirty [OF u i])
  moreover have "the_log (upd_buf i (\<lambda>x. x\<lparr>b_dirty := True\<rparr>) ?u) = lh_of (absorb b bl) L"
    using lg lh_of_lh_of [OF length_absorb(1) lb] by (simp add: upd_buf_def)
  moreover have "log_fits (lh_of (absorb b bl) L) (absorb b bl) (length D)"
    using log_fits_absorb [OF fit, of b] d(3) b lh_of_lh_of [OF length_absorb(1) lb] by simp
  ultimately show ?thesis using run by (simp add: runs_Done txn_st_def log_st_def)
qed

text \<open>The use of the log its comment describes: read a block, change it, \<^verbatim>\<open>log_write\<close>, release.\<close>

definition update_block :: "uint \<times> uchar list \<Rightarrow> ('x klog_scheme, unit) kern" where
  "update_block = (\<lambda>(b, d). bnd (bread 1 b) (\<lambda>i. sq (modify (upd_buf i (\<lambda>x. x\<lparr>data := d\<rparr>))) (sq (log_write i) (brelse i))))"

lemma update_block_runs:
  assumes s: "txn_st p L Map.empty V D W bl s" and b: "unat b < length D" "\<not> in_log L (unat b)" "length d = BSIZE"
    and L: "int (length bl) < log_size L - 1" "1 \<le> outstanding L"
  shows "runs (update_block (b, d)) s (\<lambda>_. txn_st p L Map.empty (V(unat b := d)) D W (absorb b bl))"
proof -
  let ?X = "unat ` set bl"
  have s': "log_st p (lh_of bl L) Map.empty V D W ?X s" and fit: "log_fits (lh_of bl L) bl (length D)" using s by (simp_all add: txn_st_def)
  have cX: "card ?X < NBUF" using card_image_le [of "set bl" unat] card_length [of bl] log_fitsD(5) [OF fit] by simp
  have r: "runs (bread 1 b) s (\<lambda>i t. (Map.empty :: nat \<Rightarrow> nat option) i = None \<and> log_st p (lh_of bl L) [i \<mapsto> unat b] V D W ?X t \<and> bstep s t)"
    by (rule lg.rd [OF s']) (use b cX in auto)
  show ?thesis
    unfolding update_block_def prod.case runs_bnd
  proof (rule runs_weaken [OF r], elim conjE)
    fix i t assume t: "log_st p (lh_of bl L) [i \<mapsto> unat b] V D W ?X t"
    have u: "txn_st p L [i \<mapsto> unat b] (V(unat b := d)) D W bl (upd_buf i (\<lambda>x. x\<lparr>data := d\<rparr>) t)"
      using lg.put [OF t _ b(3), of i] fit by (simp add: txn_st_def)
    have rel: "runs (brelse i) v (\<lambda>_. txn_st p L Map.empty (V(unat b := d)) D W (absorb b bl))"
      if "txn_st p L [i \<mapsto> unat b] (V(unat b := d)) D W (absorb b bl) v" for v
    proof -
      have v: "log_st p (lh_of (absorb b bl) L) [i \<mapsto> unat b] (V(unat b := d)) D W (unat ` set (absorb b bl)) v"
        using that by (simp add: txn_st_def)
      show ?thesis
        by (rule runs_weaken [OF lg.rel [OF v]]) (use that in \<open>auto simp: txn_st_def\<close>)
    qed
    show "runs (sq (modify (upd_buf i (\<lambda>x. x\<lparr>data := d\<rparr>))) (sq (log_write i) (brelse i))) t
        (\<lambda>_. txn_st p L Map.empty (V(unat b := d)) D W (absorb b bl))"
      unfolding runs_sq runs_modify by (rule runs_weaken [OF log_write_runs [OF u]]) (use b L rel in auto)
  qed
qed

lemma begin_op_Done:
  assumes "in_proc p s" "\<not> committing (the_log s)" "lh_n (lh (the_log s)) + (outstanding (the_log s) + 1) * int MAXOPBLOCKS \<le> int LOGSIZE"
  shows "begin_op s = Done () (upd_log (\<lambda>l. l\<lparr>outstanding := outstanding l + 1\<rparr>) s)"
  using assms by (simp add: begin_op_def begin_op_loop_def kern_defs acquire_Done release_Done)

lemma begin_op_Switches:
  assumes "in_proc p s" "depth s = 0"
    "committing (the_log s) \<or> lh_n (lh (the_log s)) + (outstanding (the_log s) + 1) * int MAXOPBLOCKS > int LOGSIZE"
  shows "begin_op s = Switches (asleep Chan_log Lk_log p (acquired Lk_log s))"
proof -
  have "sleep Chan_log Lk_log (acquired Lk_log s) =
      (Switches (asleep Chan_log Lk_log p (acquired Lk_log s)) :: (unit, 'a klog_scheme) outcome)"
    using assms by (intro sleep_Switches) auto
  then show ?thesis
    using assms by (auto simp: begin_op_def begin_op_loop_def kern_defs acquire_Done)
qed

lemma cache_st_wake:
  assumes s: "cache_st p h V D W X s"
  shows "cache_st p h V D W X (upd_procs (map (wake c)) s)"
proof -
  have i: "in_proc p s" by (rule bcD(1) [OF cache_stD(1) [OF s]])
  then have "p < length (procs (ptable s))" by simp
  then show ?thesis using i by (intro cache_st_cong [OF s]) (simp_all, simp_all add: upd_procs_def)
qed

lemma log_st_wake: "log_st p L h V D W X s \<Longrightarrow> log_st p L h V D W X (upd_procs (map (wake c)) s)"
  using cache_st_wake [of p h V D W X s c] by (simp add: log_st_def) (simp add: upd_procs_def)

lemma log_st_in_proc: "log_st p L h V D W X s \<Longrightarrow> in_proc p s"
  by (auto simp: log_st_def dest: cache_stD(1) bcD(1))

text \<open>The last \<^verbatim>\<open>end_op\<close> commits.\<close>

lemma end_op_last:
  fixes s :: "'x klog_scheme"
  assumes s: "log_st p L Map.empty V D W X s" and L: "\<not> committing L" "outstanding L = 1"
    and c: "\<And>t :: 'x klog_scheme. log_st p (L\<lparr>outstanding := 0, committing := True\<rparr>) Map.empty V D W X t \<Longrightarrow>
      runs commit t (\<lambda>_. log_st p L' Map.empty V' D' W' X')"
  shows "runs end_op s (\<lambda>_. log_st p (L'\<lparr>committing := False\<rparr>) Map.empty V' D' W' X')"
proof -
  note i = log_st_in_proc [OF s]
  have lg: "the_log s = L" using s by (simp add: log_st_def)
  let ?t = "upd_log (\<lambda>l. l\<lparr>committing := True\<rparr>) (upd_log (\<lambda>l. l\<lparr>outstanding := outstanding l - 1\<rparr>) s)"
  have t: "log_st p (L\<lparr>outstanding := 0, committing := True\<rparr>) Map.empty V D W X ?t"
    using log_st_upd_log [OF log_st_upd_log [OF s, of "\<lambda>l. l\<lparr>outstanding := outstanding l - 1\<rparr>"], of "\<lambda>l. l\<lparr>committing := True\<rparr>"] L by simp
  obtain u where u: "commit ?t = Done () u" "log_st p L' Map.empty V' D' W' X' u" using c [OF t] by (auto simp: runs_def)
  note iu = log_st_in_proc [OF u(2)]
  let ?v = "upd_log (\<lambda>l. l\<lparr>committing := False\<rparr>) u"
  have wk: "wakeup Chan_log (acquired Lk_log ?v) = Done () (upd_procs (map (wake Chan_log)) (acquired Lk_log ?v))"
    using iu by (subst wakeup_Done) (simp_all add: ptable_ready_def settled_nested)
  have e: "end_op s = Done () (upd_procs (map (wake Chan_log)) ?v)"
    using i iu L lg wk u(1) by (simp add: end_op_def kern_defs acquire_Done release_Done)
  have "log_st p (L'\<lparr>committing := False\<rparr>) Map.empty V' D' W' X' ?v"
    using log_st_upd_log [OF u(2), of "\<lambda>l. l\<lparr>committing := False\<rparr>"] by simp
  from log_st_wake [OF this] show ?thesis using e by (simp add: runs_Done)
qed

definition recorded :: "(uint \<times> uchar list) list \<Rightarrow> uint list" where
  "recorded ups = fold absorb (map fst ups) []"

definition as_writes :: "(uint \<times> uchar list) list \<Rightarrow> (nat \<times> uchar list) list" where
  "as_writes ups = map (\<lambda>(b, d). (unat b, d)) ups"

lemma recorded_snoc [simp]: "recorded (us @ [(b, d)]) = absorb b (recorded us)" "recorded [] = []"
  by (simp_all add: recorded_def)

lemma as_writes_snoc [simp]: "as_writes (us @ [(b, d)]) = as_writes us @ [(unat b, d)]" "as_writes [] = []"
  by (simp_all add: as_writes_def)

lemma set_recorded: "set (recorded us) = fst ` set us"
  by (induction us rule: rev_induct) (auto simp: recorded_def)

lemma distinct_recorded: "distinct (recorded us)"
  by (induction us rule: rev_induct) (auto simp: recorded_def absorb_def)

lemma fst_as_writes: "fst ` set (as_writes us) = unat ` set (recorded us)"
  by (force simp: as_writes_def set_recorded image_image split: prod.splits)

lemma txn_updates_runs:
  assumes s: "txn_st p L Map.empty V D W [] s" and L: "1 \<le> outstanding L" "int (card (fst ` set ups)) < log_size L - 1"
    and ups: "\<forall>(b, d) \<in> set ups. unat b < length D \<and> \<not> in_log L (unat b) \<and> length d = BSIZE"
  shows "runs (for_each ups update_block) s (\<lambda>_. txn_st p L Map.empty (view_after (as_writes ups) V) D W (recorded ups))"
proof -
  let ?I = "\<lambda>k. txn_st p L Map.empty (view_after (as_writes (take k ups)) V) D W (recorded (take k ups))"
  have "runs (for_each ups update_block) s (\<lambda>_. ?I (length ups))"
  proof (rule runs_for_each [of ?I])
    show "?I 0 s" using s by simp
    fix k t assume k: "k < length ups" and t: "?I k t"
    obtain b d where bd: "ups ! k = (b, d)" by (cases "ups ! k")
    have mem: "(b, d) \<in> set ups" using k bd by (metis nth_mem)
    have "card (fst ` set (take k ups)) \<le> card (fst ` set ups)" by (intro card_mono image_mono set_take_subset) simp
    then have "length (recorded (take k ups)) \<le> card (fst ` set ups)"
      using distinct_card [OF distinct_recorded, of "take k ups"] by (simp add: set_recorded)
    then have l: "int (length (recorded (take k ups))) < log_size L - 1" using L(2) by linarith
    have e: "take (Suc k) ups = take k ups @ [(b, d)]" using k bd by (simp add: take_Suc_conv_app_nth)
    show "runs (update_block (ups ! k)) t (\<lambda>_. ?I (Suc k))"
      unfolding bd e as_writes_snoc recorded_snoc after_snoc by (rule update_block_runs [OF t]) (use ups mem l L(1) in auto)
  qed
  then show ?thesis by simp
qed

text \<open>C1. Crash atomicity of file system transactions. A process begins an operation, updates any blocks the
  way the log prescribes, and ends the operation, which commits. If the machine stops after any number of
  the disk writes this causes and boots again, recovery leaves outside the log either the old content of
  every block or the new content of every block; which of the two is decided by the write of the log
  header. Without a crash the new content is on the disk.\<close>

theorem transaction_atomic:
  assumes s: "log_st p L Map.empty V D W {} s" and L: "log_fits L [] (length D)" "outstanding L = 0" "\<not> committing L"
    and hdr: "sint (get32 (D ! nat (log_start L)) 0) = 0"
    and sb: "sint (sb_logstart (dec_superblock (D ! 1))) = log_start L" "sint (sb_nlog (dec_superblock (D ! 1))) = log_size L"
    and ups: "ups \<noteq> []" "\<forall>(b, d) \<in> set ups. unat b < length D \<and> \<not> in_log L (unat b) \<and> b \<noteq> 1 \<and> length d = BSIZE"
      "int (card (fst ` set ups)) < log_size L - 1"
  shows "runs (sq begin_op (sq (for_each ups update_block) end_op)) s (\<lambda>_ t. \<exists>ws. dwrites t = W @ ws \<and>
    (\<forall>b. \<not> in_log L b \<longrightarrow> memdisk t ! b = view_after (as_writes ups) V b) \<and>
    (\<forall>k \<le> length ws. \<forall>q r :: 'x klog_scheme. rebooted q (disk_after (take k ws) D) r \<longrightarrow>
      runs (initlog 1) r (\<lambda>_ u. \<forall>b. \<not> in_log L b \<longrightarrow>
        memdisk u ! b = (if k \<le> card (fst ` set ups) then D ! b else view_after (as_writes ups) V b))))"
proof -
  let ?L1 = "L\<lparr>outstanding := 1\<rparr>" and ?V = "view_after (as_writes ups) V" and ?bl = "recorded ups"
  have inl: "in_log ?L1 = in_log L" by (simp add: in_log_def fun_eq_iff)
  have V0: "V b = D ! b" for b using clean_block [OF s] by simp
  have A: "begin_op s = Done () (upd_log (\<lambda>l. l\<lparr>outstanding := outstanding l + 1\<rparr>) s)"
    using log_st_in_proc [OF s] s L by (intro begin_op_Done) (auto simp: log_st_def log_fits_def LOGSIZE_def MAXOPBLOCKS_def)
  have f1: "log_fits ?L1 [] (length D)" using L(1) by (simp add: log_fits_def)
  have B: "txn_st p ?L1 Map.empty V D W [] (upd_log (\<lambda>l. l\<lparr>outstanding := outstanding l + 1\<rparr>) s)"
    using log_st_upd_log [OF s, of "\<lambda>l. l\<lparr>outstanding := outstanding l + 1\<rparr>"] L(2) f1 lh_of_same [OF f1] by (simp add: txn_st_def)
  have C: "runs (for_each ups update_block) (upd_log (\<lambda>l. l\<lparr>outstanding := outstanding l + 1\<rparr>) s)
      (\<lambda>_. txn_st p ?L1 Map.empty ?V D W ?bl)"
    by (rule txn_updates_runs [OF B]) (use ups inl in auto)
  let ?L2 = "(lh_of ?bl ?L1)\<lparr>outstanding := 0, committing := True\<rparr>"
  let ?cw = "commit_writes ?L2 ?bl ?V"
  have inl2: "in_log ?L2 = in_log L" by (simp add: in_log_def fun_eq_iff)
  have len_bl: "length ?bl = card (fst ` set ups)" using distinct_card [OF distinct_recorded, of ups] by (simp add: set_recorded)
  have E: "runs end_op t (\<lambda>_ u. dwrites u = W @ ?cw \<and> memdisk u = disk_after ?cw D)" and fit2: "log_fits ?L2 ?bl (length D)"
    if t: "txn_st p ?L1 Map.empty ?V D W ?bl t" for t
  proof -
    have t': "log_st p (lh_of ?bl ?L1) Map.empty ?V D W (unat ` set ?bl) t" and f: "log_fits (lh_of ?bl ?L1) ?bl (length D)"
      using t by (simp_all add: txn_st_def)
    show f2: "log_fits ?L2 ?bl (length D)" using f by (simp add: log_fits_def)
    have ne: "?bl \<noteq> []" using set_recorded [of ups] ups(1) by auto
    have "runs end_op t (\<lambda>_. log_st p ((lh_cleared ?L2)\<lparr>committing := False\<rparr>) Map.empty (view_after ?cw ?V) (disk_after ?cw D) (W @ ?cw) {})"
      by (rule end_op_last [OF t'], use L(3) in simp, simp, rule commit_runs [OF _ f2 ne], assumption)
    then show "runs end_op t (\<lambda>_ u. dwrites u = W @ ?cw \<and> memdisk u = disk_after ?cw D)"
      by (rule runs_weaken) (simp add: log_st_def cache_st_def)
  qed
  from C obtain t where t: "for_each ups update_block (upd_log (\<lambda>l. l\<lparr>outstanding := outstanding l + 1\<rparr>) s) = Done () t"
    "txn_st p ?L1 Map.empty ?V D W ?bl t" by (auto simp: runs_def)
  note fit = fit2 [OF t(2)]
  have Vb: "?V b = D ! b" if "b \<notin> unat ` set ?bl" for b using that V0 by (simp add: view_after_other fst_as_writes)
  have st: "nat (log_start ?L2) = nat (log_start L)" by simp
  have "nat (log_start L) \<notin> unat ` set ?bl" using in_log_facts(1,3) [OF fit] by auto
  moreover have "length (D ! nat (log_start L)) = BSIZE"
  proof -
    have c: "cache_st p Map.empty V D W {} s" using s by (simp add: log_st_def)
    show ?thesis using bcD(7) [OF cache_stD(1) [OF c]] cache_stD(4) [OF c] log_fitsD(4) [OF L(1)] by simp
  qed
  ultimately have lenV: "length (?V (nat (log_start ?L2))) = BSIZE" using Vb st by simp
  have one: "1 \<notin> set ?bl" using ups(2) by (auto simp: set_recorded)
  have rec: "runs (initlog 1) r (\<lambda>_ u. \<forall>b. \<not> in_log ?L2 b \<longrightarrow> memdisk u ! b = (if k \<le> length ?bl then D ! b else ?V b))"
    if "k \<le> length ?cw" "rebooted q (disk_after (take k ?cw) D) r" for k q and r :: "'x klog_scheme"
    by (rule crash_recovery [OF fit _ Vb lenV _ _ one that]) (use hdr sb in simp_all)
  have fin: "disk_after ?cw D ! b = ?V b" if "\<not> in_log L b" for b
    using crash_disk(3) [of ?L2 ?bl D ?V "length ?cw"] fit lenV hdr Vb that inl2 by simp
  show ?thesis
    unfolding runs_sq runs_Done [of begin_op s, OF A] runs_Done [of "for_each ups update_block", OF t(1)]
  proof (rule runs_weaken [OF E [OF t(2)]], intro exI [of _ ?cw] conjI allI impI)
    fix u b assume u: "dwrites u = W @ ?cw \<and> memdisk u = disk_after ?cw D"
    show "dwrites u = W @ ?cw" using u by blast
    show "memdisk u ! b = ?V b" if "\<not> in_log L b" using u fin [OF that] by simp
  next
    fix k q r assume "k \<le> length ?cw" "rebooted q (disk_after (take k ?cw) D) (r :: 'x klog_scheme)"
    from rec [OF this] show "runs (initlog 1) r (\<lambda>_ u. \<forall>b. \<not> in_log L b \<longrightarrow>
        memdisk u ! b = (if k \<le> card (fst ` set ups) then D ! b else ?V b))"
      unfolding inl2 len_bl .
  qed
qed

text \<open>A small disk: the superblock says that the log has 30 blocks and starts at block 2; the rest is zero.\<close>

definition log_disk :: "uchar list list" where
  "log_disk = (replicate 64 (replicate 512 0))[1 := put32 16 2 (put32 12 30 (replicate 512 0))]"

definition boot_log :: log where
  "boot_log = \<lparr>log_start = 2, log_size = 30, outstanding = 0, committing = False, log_dev = 1,
     lh = \<lparr>lh_n = 0, lh_block = replicate LOGSIZE 0\<rparr>\<rparr>"

lemma log_disk_facts:
  "length log_disk = 64" "\<forall>x \<in> set log_disk. length x = BSIZE" "sint (get32 (log_disk ! 2) 0) = 0"
  "sint (sb_logstart (dec_superblock (log_disk ! 1))) = 2" "sint (sb_nlog (dec_superblock (log_disk ! 1))) = 30"
proof -
  show "length log_disk = 64" by (simp add: log_disk_def)
  have "length (put32 16 2 (put32 12 30 (replicate 512 (0 :: uchar)))) = 512" by simp
  moreover have "set log_disk \<subseteq> insert (put32 16 2 (put32 12 30 (replicate 512 0))) (set (replicate 64 (replicate 512 0)))"
    unfolding log_disk_def by (rule set_update_subset_insert)
  ultimately show "\<forall>x \<in> set log_disk. length x = BSIZE" by (auto simp: BSIZE_def)
  have "log_disk ! 2 = replicate 512 0" by (simp add: log_disk_def)
  then show "sint (get32 (log_disk ! 2) 0) = 0" by (simp add: get32_def get_bytes_def dec32_def)
  have "log_disk ! 1 = put32 16 2 (put32 12 30 (replicate 512 0))" by (simp add: log_disk_def)
  then show "sint (sb_logstart (dec_superblock (log_disk ! 1))) = 2" "sint (sb_nlog (dec_superblock (log_disk ! 1))) = 30"
    by (simp_all add: dec_superblock_def get_put32_other)
qed

lemma the_log_more: "kbio.more t = \<lparr>the_log = L, \<dots> = m\<rparr> \<Longrightarrow> the_log t = L"
  by (cases t) simp

lemma the_log_boot [simp]: "the_log (bio_boot d \<lparr>the_log = L, \<dots> = m\<rparr>) = L"
  by (rule the_log_more) simp

lemma log_boot_state:
  obtains t where "binit (bio_boot log_disk \<lparr>the_log = boot_log\<rparr>) = Done () t"
    "log_st 0 boot_log Map.empty (\<lambda>b. log_disk ! b) log_disk [] {} t"
proof (rule bio_boot_cache [OF log_disk_facts(2), of "\<lparr>the_log = boot_log\<rparr>"])
  fix t assume "binit (bio_boot log_disk \<lparr>the_log = boot_log\<rparr>) = Done () t" "cache_st 0 Map.empty (\<lambda>b. log_disk ! b) log_disk [] {} t"
    "kbio.more t = \<lparr>the_log = boot_log\<rparr>"
  then show thesis using that the_log_more [of t boot_log "()"] by (simp add: log_st_def)
qed

theorem transaction_atomic_witness:
  "\<exists>t. binit (bio_boot log_disk \<lparr>the_log = boot_log\<rparr>) = Done () t \<and>
    runs (sq begin_op (sq (for_each [(40, replicate 512 5), (41, replicate 512 6)] update_block) end_op)) t
      (\<lambda>_ u. memdisk u ! 40 = replicate 512 5 \<and> memdisk u ! 41 = replicate 512 6 \<and> memdisk u ! 42 = replicate 512 0)"
proof -
  let ?ups = "[(40, replicate 512 5), (41, replicate 512 6)] :: (uint \<times> uchar list) list"
  obtain t where t: "binit (bio_boot log_disk \<lparr>the_log = boot_log\<rparr>) = Done () t"
    "log_st 0 boot_log Map.empty (\<lambda>b. log_disk ! b) log_disk [] {} t" by (rule log_boot_state)
  have fit: "log_fits boot_log [] (length log_disk)" by (simp add: log_fits_def boot_log_def log_disk_facts LOGSIZE_def MAXOPBLOCKS_def)
  have il: "\<not> in_log boot_log 40" "\<not> in_log boot_log 41" "\<not> in_log boot_log 42" by (simp_all add: in_log_def boot_log_def)
  have z: "log_disk ! 42 = replicate 512 0" by (simp add: log_disk_def)
  have v: "view_after (as_writes ?ups) (\<lambda>b. log_disk ! b) 40 = replicate 512 5" "view_after (as_writes ?ups) (\<lambda>b. log_disk ! b) 41 = replicate 512 6"
    "view_after (as_writes ?ups) (\<lambda>b. log_disk ! b) 42 = replicate 512 0"
    using z by (simp_all add: view_after_def as_writes_def)
  have "runs (sq begin_op (sq (for_each ?ups update_block) end_op)) t
      (\<lambda>_ u. memdisk u ! 40 = replicate 512 5 \<and> memdisk u ! 41 = replicate 512 6 \<and> memdisk u ! 42 = replicate 512 0)"
    by (rule runs_weaken [OF transaction_atomic [OF t(2) fit, of ?ups]])
       (use il v log_disk_facts in \<open>auto simp: boot_log_def BSIZE_def\<close>)
  then show ?thesis using t(1) by blast
qed



end
