(* ===== verification/RingBuffer.thy ===== *)
theory RingBuffer
  imports Prelude
begin

text \<open>
  Ring buffers as the kernel writes them: an array of \<open>N\<close> cells and two 32-bit counters that only ever
  grow, wrapping around at \<open>2 ^ 32\<close>; the cell of position \<open>i\<close> is \<open>i % N\<close>. Pipes (\<^verbatim>\<open>src/pipe.c\<close>) and the
  console input buffer (\<^verbatim>\<open>src/console.c\<close>) are of this form. The locale collects what makes the scheme
  sound, that \<open>N\<close> divides \<open>2 ^ 32\<close>, and shows that the buffer behaves like a queue.
\<close>

definition ring_content :: "nat \<Rightarrow> 'a list \<Rightarrow> uint \<Rightarrow> uint \<Rightarrow> 'a list" where
  "ring_content n d r w = map (\<lambda>i. d ! ((unat r + i) mod n)) [0..<unat (w - r)]"

lemma length_ring_content [simp]: "length (ring_content n d r w) = unat (w - r)"
  by (simp add: ring_content_def)

locale ring_buffer =
  fixes N :: nat
  assumes N_dvd: "N dvd 2 ^ 32" and N_small: "N < 2 ^ 32"
begin

lemma N_pos: "0 < N"
  using N_dvd by (rule dvd_pos_nat [rotated]) simp

lemma unat_add_mod: "unat (r + of_nat i :: uint) mod N = (unat r + i) mod N"
proof -
  have "unat (r + of_nat i :: uint) mod N = (unat r + i) mod 2 ^ 32 mod N"
    by (simp add: unat_word_ariths unat_of_nat take_bit_eq_mod mod_add_right_eq)
  also have "\<dots> = (unat r + i) mod N" using N_dvd by (rule mod_mod_cancel)
  finally show ?thesis .
qed

lemma content_empty: "ring_content N d r w = [] \<longleftrightarrow> r = w"
  by (auto simp: ring_content_def unat_eq_zero)

lemma full_iff:
  fixes r w :: uint
  assumes "unat (w - r) \<le> N"
  shows "w = r + of_nat N \<longleftrightarrow> unat (w - r) = N"
proof
  assume "w = r + of_nat N"
  then show "unat (w - r) = N" using N_small by (simp add: unat_of_nat take_bit_nat_eq_self)
next
  assume e: "unat (w - r) = N"
  have "w = r + of_nat (unat (w - r))" by simp
  then show "w = r + of_nat N" unfolding e .
qed

lemma unat_Suc_diff: "unat (w - r) < N \<Longrightarrow> unat (w + 1 - r) = Suc (unat (w - r))" for w r :: uint
proof -
  assume "unat (w - r) < N"
  then have "unat (w - r) + 1 < 2 ^ 32" using N_small by simp
  then have "unat ((w - r) + 1) = unat (w - r) + 1" by (simp add: unat_word_ariths)
  then show ?thesis by (simp add: algebra_simps)
qed

lemma content_push:
  assumes "length d = N" "unat (w - r) < N"
  shows "ring_content N (d[unat w mod N := x]) r (w + 1) = ring_content N d r w @ [x]"
proof (rule nth_equalityI)
  show "length (ring_content N (d[unat w mod N := x]) r (w + 1)) = length (ring_content N d r w @ [x])"
    using assms by (simp add: unat_Suc_diff)
  fix i assume "i < length (ring_content N (d[unat w mod N := x]) r (w + 1))"
  then have i: "i < Suc (unat (w - r))" using assms by (simp add: unat_Suc_diff)
  have w: "unat w mod N = (unat r + unat (w - r)) mod N" using unat_add_mod [of r "unat (w - r)"] by simp
  have m: "unat w mod N < length d" using N_pos assms(1) by simp
  show "ring_content N (d[unat w mod N := x]) r (w + 1) ! i = (ring_content N d r w @ [x]) ! i"
  proof (cases "i < unat (w - r)")
    case True
    have "(unat r + i) mod N \<noteq> (unat r + unat (w - r)) mod N"
    proof
      assume "(unat r + i) mod N = (unat r + unat (w - r)) mod N"
      then have "N dvd unat r + unat (w - r) - (unat r + i)" using True by (subst mod_eq_dvd_iff_nat [symmetric]) simp_all
      then have "N dvd unat (w - r) - i" by simp
      then have "N \<le> unat (w - r) - i" using True by (intro dvd_imp_le) simp_all
      then show False using True assms(2) by simp
    qed
    then show ?thesis using True i assms by (simp add: ring_content_def nth_append w unat_Suc_diff del: upt_Suc)
  next
    case False
    then have "i = unat (w - r)" using i by simp
    then show ?thesis using assms m by (simp add: ring_content_def nth_append unat_Suc_diff w [symmetric] del: upt_Suc)
  qed
qed

lemma content_pop:
  assumes "r \<noteq> w"
  shows "ring_content N d r w = d ! (unat r mod N) # ring_content N d (r + 1) w"
proof -
  have "unat (w - r) \<noteq> 0" using assms by (simp add: unat_eq_zero)
  moreover have "unat (w - (r + 1)) = unat (w - r) - 1"
    using unat_minus_one [of "w - r"] assms by (simp add: diff_diff_eq)
  ultimately have s: "unat (w - r) = Suc (unat (w - (r + 1)))" by simp
  have "(unat (r + 1) + i) mod N = (unat r + Suc i) mod N" for i
  proof -
    have "(unat (r + 1) + i) mod N = (unat (r + 1) mod N + i) mod N" by (simp add: mod_add_left_eq)
    also have "\<dots> = ((unat r + 1) mod N + i) mod N" using unat_add_mod [of r 1] by simp
    also have "\<dots> = (unat r + Suc i) mod N" by (simp add: mod_add_left_eq)
    finally show ?thesis .
  qed
  then show ?thesis
    by (simp add: ring_content_def s map_upt_Suc del: upt_Suc)
qed

lemma content_butlast:
  assumes "r \<noteq> w"
  shows "ring_content N d r (w - 1) = butlast (ring_content N d r w)"
proof -
  have "unat (w - 1 - r) = unat (w - r) - 1" using unat_minus_one [of "w - r"] assms by (simp add: algebra_simps)
  then show ?thesis by (simp add: ring_content_def butlast_conv_take take_map)
qed

lemma content_last: "r \<noteq> w \<Longrightarrow> last (ring_content N d r w) = d ! (unat (w - 1) mod N)"
proof -
  assume ne: "r \<noteq> w"
  then have k: "unat (w - r) \<noteq> 0" by (simp add: unat_eq_zero)
  have e: "unat (w - 1 - r) = unat (w - r) - 1" using unat_minus_one [of "w - r"] ne by (simp add: algebra_simps)
  have "unat (w - 1) mod N = (unat r + unat (w - 1 - r)) mod N" using unat_add_mod [of r "unat (w - 1 - r)"] by simp
  then show ?thesis using k by (simp add: ring_content_def last_map last_upt e)
qed

end

end
