(* ===== verification/Pipe.thy ===== *)
theory Pipe
  imports Log RingBuffer
begin

text \<open>
  Pipes, \<^verbatim>\<open>src/pipe.c\<close>, except \<^verbatim>\<open>pipealloc\<close>, which needs the file table and follows there. A pipe is
  known by the address of its page; the struct in that page is one entry of \<open>pipes\<close>. The bytes a caller
  passes in and gets back are lists.

  A writer that finds the buffer full and a reader that finds it empty leave the processor; they continue
  with the resume definitions, from the byte they had reached.
\<close>

definition PIPESIZE :: nat where "PIPESIZE = 512"

record pipe =
  pdata :: "uchar list"
  nread :: uint
  nwrite :: uint
  readopen :: bool
  writeopen :: bool

record kpipe = klog +
  pipes :: "uint \<Rightarrow> pipe"

interpretation pipes_field: component_field pipes pipes_update
  by unfold_locales simp_all

interpretation pipe_ring: ring_buffer PIPESIZE
  by unfold_locales (simp_all add: PIPESIZE_def)

definition upd_pipe :: "uint \<Rightarrow> (pipe \<Rightarrow> pipe) \<Rightarrow> 'x kpipe_scheme \<Rightarrow> 'x kpipe_scheme" where
  "upd_pipe p f s = s\<lparr>pipes := (pipes s)(p := f (pipes s p))\<rparr>"

abbreviation pipe_lk :: "uint \<Rightarrow> lockid" where "pipe_lk p \<equiv> Lk_pipe (unat p)"
abbreviation chan_nread :: "uint \<Rightarrow> chan" where "chan_nread p \<equiv> Chan_nread (unat p)"
abbreviation chan_nwrite :: "uint \<Rightarrow> chan" where "chan_nwrite p \<equiv> Chan_nwrite (unat p)"

subsection \<open>Operations\<close>

definition pipeclose :: "uint \<Rightarrow> bool \<Rightarrow> ('x kpipe_scheme, unit) kern" where
  "pipeclose p writable = sq (acquire (pipe_lk p)) (
     sq (if writable
         then sq (modify (upd_pipe p (\<lambda>x. x\<lparr>writeopen := False\<rparr>))) (wakeup (chan_nread p))
         else sq (modify (upd_pipe p (\<lambda>x. x\<lparr>readopen := False\<rparr>))) (wakeup (chan_nwrite p))) (
     bnd (gets (\<lambda>s. \<not> readopen (pipes s p) \<and> \<not> writeopen (pipes s p))) (\<lambda>c.
       if c then sq (release (pipe_lk p)) (kfree p) else release (pipe_lk p))))"

primrec pipewrite_loop :: "uint \<Rightarrow> uchar list \<Rightarrow> int \<Rightarrow> ('x kpipe_scheme, int) kern" where
  "pipewrite_loop p [] n = sq (wakeup (chan_nread p)) (sq (release (pipe_lk p)) (ret n))"
| "pipewrite_loop p (b # bs) n = bnd (gets (\<lambda>s. nwrite (pipes s p) = nread (pipes s p) + of_nat PIPESIZE)) (\<lambda>full.
     if full then
       bnd (bnd (gets (\<lambda>s. \<not> readopen (pipes s p))) (\<lambda>c.
              if c then ret True else bnd curproc (\<lambda>q. gets (\<lambda>s. killed (proc_at q s))))) (\<lambda>stop.
         if stop then sq (release (pipe_lk p)) (ret (-1))
         else sq (wakeup (chan_nread p)) (sleep (chan_nwrite p) (pipe_lk p)))
     else
       sq (modify (upd_pipe p (\<lambda>x. x\<lparr>pdata := (pdata x)[unat (nwrite x) mod PIPESIZE := b], nwrite := nwrite x + 1\<rparr>)))
          (pipewrite_loop p bs n))"

definition pipewrite :: "uint \<Rightarrow> uchar list \<Rightarrow> int \<Rightarrow> ('x kpipe_scheme, int) kern" where
  "pipewrite p addr n = sq (acquire (pipe_lk p)) (pipewrite_loop p addr n)"

definition pipewrite_resume :: "nat \<Rightarrow> bool \<Rightarrow> uint \<Rightarrow> uchar list \<Rightarrow> int \<Rightarrow> ('x kpipe_scheme, int) kern" where
  "pipewrite_resume q ie p rest n = sq (sleep_resume q ie (pipe_lk p)) (pipewrite_loop p rest n)"

primrec piperead_copy :: "uint \<Rightarrow> nat \<Rightarrow> ('x kpipe_scheme, uchar list) kern" where
  "piperead_copy p 0 = ret []"
| "piperead_copy p (Suc k) = bnd (gets (\<lambda>s. pipes s p)) (\<lambda>x.
     if nread x = nwrite x then ret []
     else sq (modify (upd_pipe p (\<lambda>x. x\<lparr>nread := nread x + 1\<rparr>)))
       (bnd (piperead_copy p k) (\<lambda>bs. ret (pdata x ! (unat (nread x) mod PIPESIZE) # bs))))"

definition piperead_loop :: "uint \<Rightarrow> int \<Rightarrow> ('x kpipe_scheme, int \<times> uchar list) kern" where
  "piperead_loop p n = bnd (gets (\<lambda>s. nread (pipes s p) = nwrite (pipes s p) \<and> writeopen (pipes s p))) (\<lambda>empty.
     if empty then
       bnd curproc (\<lambda>q. bnd (gets (\<lambda>s. killed (proc_at q s))) (\<lambda>k.
         if k then sq (release (pipe_lk p)) (ret (-1, [])) else sleep (chan_nread p) (pipe_lk p)))
     else
       bnd (piperead_copy p (nat n)) (\<lambda>bs.
       sq (wakeup (chan_nwrite p)) (
       sq (release (pipe_lk p)) (ret (int (length bs), bs)))))"

definition piperead :: "uint \<Rightarrow> int \<Rightarrow> ('x kpipe_scheme, int \<times> uchar list) kern" where
  "piperead p n = sq (acquire (pipe_lk p)) (piperead_loop p n)"

definition piperead_resume :: "nat \<Rightarrow> bool \<Rightarrow> uint \<Rightarrow> int \<Rightarrow> ('x kpipe_scheme, int \<times> uchar list) kern" where
  "piperead_resume q ie p n = sq (sleep_resume q ie (pipe_lk p)) (piperead_loop p n)"

subsection \<open>A pipe is a bounded queue\<close>

definition pipe_ok :: "pipe \<Rightarrow> bool" where
  "pipe_ok x \<longleftrightarrow> length (pdata x) = PIPESIZE \<and> unat (nwrite x - nread x) \<le> PIPESIZE"

definition queued :: "pipe \<Rightarrow> uchar list" where
  "queued x = ring_content PIPESIZE (pdata x) (nread x) (nwrite x)"

definition pput :: "uchar \<Rightarrow> pipe \<Rightarrow> pipe" where
  "pput b x = x\<lparr>pdata := (pdata x)[unat (nwrite x) mod PIPESIZE := b], nwrite := nwrite x + 1\<rparr>"

lemma full_queued: "pipe_ok x \<Longrightarrow> nwrite x = nread x + of_nat PIPESIZE \<longleftrightarrow> length (queued x) = PIPESIZE"
  by (simp add: pipe_ok_def queued_def pipe_ring.full_iff)

lemma empty_queued: "nread x = nwrite x \<longleftrightarrow> queued x = []"
  by (simp add: queued_def pipe_ring.content_empty)

lemma pput_queued:
  assumes "pipe_ok x" "length (queued x) < PIPESIZE"
  shows "queued (pput b x) = queued x @ [b]" "pipe_ok (pput b x)" "readopen (pput b x) = readopen x" "writeopen (pput b x) = writeopen x"
  using assms pipe_ring.content_push [of "pdata x" "nwrite x" "nread x" b] pipe_ring.unat_Suc_diff [of "nwrite x" "nread x"]
  by (simp_all add: pipe_ok_def queued_def pput_def)

lemma pget_queued:
  assumes "pipe_ok x" "queued x \<noteq> []"
  shows "queued x = pdata x ! (unat (nread x) mod PIPESIZE) # queued (x\<lparr>nread := nread x + 1\<rparr>)" "pipe_ok (x\<lparr>nread := nread x + 1\<rparr>)"
proof -
  show q: "queued x = pdata x ! (unat (nread x) mod PIPESIZE) # queued (x\<lparr>nread := nread x + 1\<rparr>)"
    using assms(2) pipe_ring.content_pop [of "nread x" "nwrite x" "pdata x"] by (simp add: queued_def pipe_ring.content_empty)
  from arg_cong [OF q, of length] have "unat (nwrite x - nread x) = Suc (unat (nwrite x - (nread x + 1)))"
    by (simp add: queued_def)
  then show "pipe_ok (x\<lparr>nread := nread x + 1\<rparr>)" using assms(1) by (simp add: pipe_ok_def)
qed

lemma in_proc_upd_pipe [simp]: "in_proc q s \<Longrightarrow> in_proc q (upd_pipe p f s)"
  unfolding in_proc_def upd_pipe_def by simp

lemma upd_pipe_sel [simp]:
  "pipes (upd_pipe p f s) p = f (pipes s p)" "p' \<noteq> p \<Longrightarrow> pipes (upd_pipe p f s) p' = pipes s p'"
  "acquired lk (upd_pipe p f s) = upd_pipe p f (acquired lk s)" "ptable (upd_pipe p f s) = ptable s"
  "released lk (upd_pipe p f s) = upd_pipe p f (released lk s)" "cpu_ok (upd_pipe p f s) = cpu_ok s" "held lk (upd_pipe p f s) = held lk s"
  "depth (upd_pipe p f s) = depth s"
  by (simp_all add: upd_pipe_def)

lemma wakeup_held:
  assumes "in_proc q s" "lk \<noteq> Lk_ptable"
  shows "wakeup c (acquired lk s) = Done () (acquired lk (upd_procs (map (wake c)) s))"
  using assms by (subst wakeup_Done) (simp_all add: ptable_ready_def settled_nested)

lemma pipes_upd_procs [simp]: "pipes (upd_procs f s) = pipes s"
  by (simp add: upd_procs_def)

lemma pipewrite_step:
  assumes "pipe_ok (pipes s p)" "length (queued (pipes s p)) < PIPESIZE"
  shows "pipewrite_loop p (b # bs) n s = pipewrite_loop p bs n (upd_pipe p (pput b) s)"
  using full_queued [OF assms(1)] assms(2) by (simp add: kern_defs pput_def [abs_def])

text \<open>The write loop while there is room.\<close>

lemma pipewrite_loop_fits:
  assumes "in_proc q s" "pipe_ok (pipes s p)" "length (queued (pipes s p)) + length bs \<le> PIPESIZE"
  shows "pipewrite_loop p bs n (acquired (pipe_lk p) s) =
    Done n (upd_procs (map (wake (chan_nread p))) (upd_pipe p (fold pput bs) s))"
  using assms
proof (induction bs arbitrary: s)
  case Nil
  then show ?case by (simp add: kern_defs wakeup_held release_Done upd_pipe_def)
next
  case (Cons b bs)
  let ?x = "pipes s p" and ?t = "upd_pipe p (pput b) s"
  have room: "length (queued ?x) < PIPESIZE" using Cons.prems by simp
  have "pipewrite_loop p bs n (acquired (pipe_lk p) ?t) =
      Done n (upd_procs (map (wake (chan_nread p))) (upd_pipe p (fold pput bs) ?t))"
    using Cons.prems pput_queued [OF Cons.prems(2) room, of b] by (intro Cons.IH) simp_all
  moreover have "upd_pipe p (fold pput bs) ?t = upd_pipe p (fold pput (b # bs)) s" by (simp add: upd_pipe_def)
  ultimately show ?case
    using Cons.prems(2) room by (simp add: pipewrite_step comp_def del: pipewrite_loop.simps)
qed

lemma fold_pput:
  assumes "pipe_ok x" "length (queued x) + length bs \<le> PIPESIZE"
  shows "pipe_ok (fold pput bs x) \<and> queued (fold pput bs x) = queued x @ bs \<and> readopen (fold pput bs x) = readopen x \<and>
    writeopen (fold pput bs x) = writeopen x"
  using assms
proof (induction bs arbitrary: x)
  case (Cons b bs)
  then have "length (queued x) < PIPESIZE" by simp
  note P = pput_queued [OF Cons.prems(1) this, of b]
  show ?case using Cons.IH [OF P(2)] P Cons.prems by simp
qed simp

text \<open>What does not fit: the buffer is filled, then the writer stops there.\<close>

lemma pipewrite_loop_split:
  assumes "in_proc q s" "pipe_ok (pipes s p)" "length (queued (pipes s p)) + length as \<le> PIPESIZE" "bs \<noteq> []"
  shows "pipewrite_loop p (as @ bs) n (acquired (pipe_lk p) s) = pipewrite_loop p bs n (acquired (pipe_lk p) (upd_pipe p (fold pput as) s))"
  using assms
proof (induction as arbitrary: s)
  case Nil
  then show ?case by (simp add: upd_pipe_def)
next
  case (Cons b as)
  let ?x = "pipes s p" and ?t = "upd_pipe p (pput b) s"
  have room: "length (queued ?x) < PIPESIZE" using Cons.prems by simp
  have "pipewrite_loop p (as @ bs) n (acquired (pipe_lk p) ?t) = pipewrite_loop p bs n (acquired (pipe_lk p) (upd_pipe p (fold pput as) ?t))"
    using Cons.prems pput_queued [OF Cons.prems(2) room, of b] by (intro Cons.IH) simp_all
  moreover have "upd_pipe p (fold pput as) ?t = upd_pipe p (fold pput (b # as)) s" by (simp add: upd_pipe_def)
  ultimately show ?case
    using Cons.prems(2) room by (simp add: pipewrite_step comp_def del: pipewrite_loop.simps)
qed

text \<open>The read loop takes what is there, up to the count.\<close>

lemma piperead_copy_Done:
  "pipe_ok (pipes s p) \<Longrightarrow> \<exists>f. piperead_copy p k s = Done (take k (queued (pipes s p))) (upd_pipe p f s) \<and>
    pipe_ok (f (pipes s p)) \<and> queued (f (pipes s p)) = drop k (queued (pipes s p)) \<and>
    readopen (f (pipes s p)) = readopen (pipes s p) \<and> writeopen (f (pipes s p)) = writeopen (pipes s p)"
proof (induction k arbitrary: s)
  case 0
  then show ?case by (intro exI [of _ id]) (simp add: kern_defs upd_pipe_def)
next
  case (Suc k)
  let ?x = "pipes s p" and ?g = "\<lambda>x. x\<lparr>nread := nread x + 1\<rparr>"
  show ?case
  proof (cases "queued ?x = []")
    case True
    then have "nread ?x = nwrite ?x" by (simp add: empty_queued)
    then show ?thesis using True Suc.prems by (intro exI [of _ id]) (simp add: kern_defs upd_pipe_def)
  next
    case False
    then have ne: "nread ?x \<noteq> nwrite ?x" by (simp add: empty_queued)
    note P = pget_queued [OF Suc.prems False]
    obtain f where f: "piperead_copy p k (upd_pipe p ?g s) = Done (take k (queued (?g ?x))) (upd_pipe p f (upd_pipe p ?g s))"
      "pipe_ok (f (?g ?x))" "queued (f (?g ?x)) = drop k (queued (?g ?x))" "readopen (f (?g ?x)) = readopen ?x" "writeopen (f (?g ?x)) = writeopen ?x"
      using Suc.IH [of "upd_pipe p ?g s"] P(2) by auto
    moreover have "upd_pipe p f (upd_pipe p ?g s) = upd_pipe p (\<lambda>x. f (?g x)) s" by (simp add: upd_pipe_def)
    ultimately show ?thesis
      using ne P(1) by (intro exI [of _ "\<lambda>x. f (?g x)"]) (simp add: kern_defs)
  qed
qed

text \<open>C7. A pipe is a bounded first-in first-out queue: writing bytes that fit appends them and returns their
  number, reading takes the oldest bytes, at most as many as asked for, and returns them; an empty pipe
  whose writer is closed reads as end of file. The counters may wrap around.\<close>

theorem pipe_bounded_fifo:
  assumes s: "in_proc q s" "pipe_ok (pipes s p)"
  shows "(length (queued (pipes s p)) + length bs \<le> PIPESIZE \<longrightarrow> runs (pipewrite p bs (int (length bs))) s (\<lambda>r t.
      r = int (length bs) \<and> pipe_ok (pipes t p) \<and> queued (pipes t p) = queued (pipes s p) @ bs \<and> (\<forall>p'. p' \<noteq> p \<longrightarrow> pipes t p' = pipes s p'))) \<and>
    (queued (pipes s p) \<noteq> [] \<or> \<not> writeopen (pipes s p) \<longrightarrow> runs (piperead p n) s (\<lambda>(r, out) t.
      out = take (nat n) (queued (pipes s p)) \<and> r = int (length out) \<and> pipe_ok (pipes t p) \<and>
      queued (pipes t p) = drop (nat n) (queued (pipes s p)) \<and> (\<forall>p'. p' \<noteq> p \<longrightarrow> pipes t p' = pipes s p')))"
proof (intro conjI impI)
  assume fits: "length (queued (pipes s p)) + length bs \<le> PIPESIZE"
  have "pipewrite p bs (int (length bs)) s = Done (int (length bs)) (upd_procs (map (wake (chan_nread p))) (upd_pipe p (fold pput bs) s))"
    using s(1) by (simp add: pipewrite_def kern_defs acquire_Done pipewrite_loop_fits [OF s fits])
  then show "runs (pipewrite p bs (int (length bs))) s (\<lambda>r t.
      r = int (length bs) \<and> pipe_ok (pipes t p) \<and> queued (pipes t p) = queued (pipes s p) @ bs \<and> (\<forall>p'. p' \<noteq> p \<longrightarrow> pipes t p' = pipes s p'))"
    using fold_pput [OF s(2) fits] by (simp add: runs_Done)
next
  assume "queued (pipes s p) \<noteq> [] \<or> \<not> writeopen (pipes s p)"
  then have ne: "\<not> (nread (pipes s p) = nwrite (pipes s p) \<and> writeopen (pipes s p))" by (auto simp: empty_queued)
  obtain f where f: "piperead_copy p (nat n) (acquired (pipe_lk p) s) =
      Done (take (nat n) (queued (pipes s p))) (upd_pipe p f (acquired (pipe_lk p) s))"
    "pipe_ok (f (pipes s p))" "queued (f (pipes s p)) = drop (nat n) (queued (pipes s p))"
    using piperead_copy_Done [of "acquired (pipe_lk p) s" p "nat n"] s(2) by auto
  have w: "wakeup (chan_nwrite p) (upd_pipe p f (acquired (pipe_lk p) s)) =
      Done () (acquired (pipe_lk p) (upd_procs (map (wake (chan_nwrite p))) (upd_pipe p f s)))"
    using wakeup_held [of q "upd_pipe p f s" "pipe_lk p" "chan_nwrite p"] s(1) by simp
  have "piperead p n s = Done (int (length (take (nat n) (queued (pipes s p)))), take (nat n) (queued (pipes s p)))
      (upd_procs (map (wake (chan_nwrite p))) (upd_pipe p f s))"
    using s(1) ne f(1) w
    by (cases "nread (pipes s p) = nwrite (pipes s p)") (simp_all add: piperead_def piperead_loop_def kern_defs acquire_Done release_Done)
  then show "runs (piperead p n) s (\<lambda>(r, out) t.
      out = take (nat n) (queued (pipes s p)) \<and> r = int (length out) \<and> pipe_ok (pipes t p) \<and>
      queued (pipes t p) = drop (nat n) (queued (pipes s p)) \<and> (\<forall>p'. p' \<noteq> p \<longrightarrow> pipes t p' = pipes s p'))"
    using f by (simp add: runs_Done)
qed

text \<open>A writer with more bytes than fit fills the pipe in order; then it goes to sleep until there is room,
  or, if nobody can read any more or the process has been killed, gives up with -1.\<close>

lemma pipe_full_writer:
  assumes s: "in_proc q s" "depth s = 0" "pipe_ok (pipes s p)" and fits: "length (queued (pipes s p)) + length bs = PIPESIZE" "rest \<noteq> []"
  shows "if readopen (pipes s p) \<and> \<not> killed (proc_at q s)
    then \<exists>t. pipewrite p (bs @ rest) n s = Switches t \<and> queued (pipes t p) = queued (pipes s p) @ bs \<and>
      pstate (proc_at q t) = SLEEPING \<and> pchan (proc_at q t) = Some (chan_nwrite p)
    else runs (pipewrite p (bs @ rest) n) s (\<lambda>r t. r = - 1 \<and> queued (pipes t p) = queued (pipes s p) @ bs)"
proof -
  let ?u = "upd_pipe p (fold pput bs) s"
  have i: "in_proc q ?u" using s(1) by simp
  have fit': "length (queued (pipes s p)) + length bs \<le> PIPESIZE" using fits by simp
  note F = fold_pput [OF s(3) fit']
  obtain b rest' where rest: "rest = b # rest'" using fits(2) by (cases rest) auto
  have run: "pipewrite p (bs @ rest) n s = pipewrite_loop p rest n (acquired (pipe_lk p) ?u)"
    using s(1) pipewrite_loop_split [OF s(1,3) fit' fits(2), of n] by (simp add: pipewrite_def kern_defs acquire_Done)
  have ok: "pipe_ok (pipes ?u p)" "queued (pipes ?u p) = queued (pipes s p) @ bs" "readopen (pipes ?u p) = readopen (pipes s p)"
    using F by simp_all
  then have full: "nwrite (pipes ?u p) = nread (pipes ?u p) + of_nat PIPESIZE" using full_queued [OF ok(1)] fits(1) by simp
  have cp: "curproc (acquired (pipe_lk p) ?u) = Done q (acquired (pipe_lk p) ?u)"
    using i by (intro curproc_acquired) (auto dest: in_procD)
  show ?thesis
  proof (cases "readopen (pipes s p) \<and> \<not> killed (proc_at q s)")
    case True
    let ?v = "upd_procs (map (wake (chan_nread p))) ?u"
    have iv: "in_proc q ?v" using i by simp
    have w: "wakeup (chan_nread p) (acquired (pipe_lk p) ?u) = Done () (acquired (pipe_lk p) ?v)"
      by (rule wakeup_held [OF i]) simp
    have "sleep (chan_nwrite p) (pipe_lk p) (acquired (pipe_lk p) ?v) =
        (Switches (asleep (chan_nwrite p) (pipe_lk p) q (acquired (pipe_lk p) ?v)) :: (int, 'a kpipe_scheme) outcome)"
      using s(1,2) by (intro sleep_Switches) (auto simp: upd_pipe_def)
    then have "pipewrite p (bs @ rest) n s = Switches (asleep (chan_nwrite p) (pipe_lk p) q (acquired (pipe_lk p) ?v))"
      unfolding rest run [unfolded rest] using full True ok(3) cp w by (simp add: kern_defs)
    moreover have "queued (pipes (asleep (chan_nwrite p) (pipe_lk p) q (acquired (pipe_lk p) ?v)) p) = queued (pipes s p) @ bs"
      using ok(2) by (simp add: asleep_def upd_proc_def)
    ultimately show ?thesis
      using True s(1) by (simp add: asleep_def upd_proc_def)
  next
    case False
    have stop: "bnd (gets (\<lambda>s. \<not> readopen (pipes s p))) (\<lambda>c. if c then ret True else bnd curproc (\<lambda>q. gets (\<lambda>s. killed (proc_at q s))))
        (acquired (pipe_lk p) ?u) = Done True (acquired (pipe_lk p) ?u)"
      using False ok(3) cp by (auto simp: kern_defs)
    have "pipewrite p (bs @ rest) n s = Done (- 1) ?u"
      unfolding rest run [unfolded rest] using full stop s(1) by (simp add: kern_defs release_Done)
    then show ?thesis using False ok(2) by (auto simp: runs_Done)
  qed
qed

text \<open>A pipe whose counters are about to wrap around.\<close>

definition demo_pipe :: pipe where
  "demo_pipe = \<lparr>pdata = replicate 512 0, nread = - 1, nwrite = - 1, readopen = True, writeopen = True\<rparr>"

definition pipe_demo :: kpipe where
  "pipe_demo = bio_boot log_disk \<lparr>the_log = boot_log, pipes = (\<lambda>_. demo_pipe)\<rparr>"

lemma pipe_demo_facts [simp]: "in_proc 0 pipe_demo" "pipes pipe_demo = (\<lambda>_. demo_pipe)" "pipe_ok demo_pipe" "queued demo_pipe = []"
  "depth pipe_demo = 0" "procs (ptable pipe_demo) = demo_procs" "readopen demo_pipe"
  by (simp_all add: pipe_demo_def bio_boot_in_proc pipe_ok_def queued_def demo_pipe_def ring_content_def PIPESIZE_def)
     (simp_all add: bio_boot_def, simp add: boot_def kproc.defs)

theorem pipe_bounded_fifo_witness:
  "runs (pipewrite 0x80300000 [1, 2, 3] 3) pipe_demo (\<lambda>r t. r = 3 \<and> queued (pipes t 0x80300000) = [1, 2, 3])"
  using pipe_bounded_fifo [where q = 0 and s = pipe_demo and p = "0x80300000" and bs = "[1, 2, 3]" and n = 0]
  by (auto simp: PIPESIZE_def elim!: runs_weaken)

lemma pipe_full_writer_example:
  "\<exists>t. pipewrite 0x80300000 (replicate 512 7 @ [9]) 513 pipe_demo = Switches t \<and>
    queued (pipes t 0x80300000) = replicate 512 7 \<and> pstate (proc_at 0 t) = SLEEPING"
  using pipe_full_writer [where q = 0 and s = pipe_demo and p = "0x80300000" and bs = "replicate 512 7" and rest = "[9]" and n = 513]
  by (auto simp: PIPESIZE_def demo_nth NPROC_def blank_proc_def)

end
