(* ===== verification/Inode.thy ===== *)
theory Inode
  imports Pipe
begin

text \<open>
  The lower half of the file system, \<^verbatim>\<open>src/fs.c\<close> up to \<^verbatim>\<open>stati\<close>, with the structs of \<^verbatim>\<open>src/fs.h\<close> and
  \<^verbatim>\<open>src/file.h\<close>: the allocation of disk blocks, the allocation of inodes, the cache of in-memory inodes with its
  reference counts and locks, and the map from the blocks of a file to disk blocks.

  A pointer to a cached inode is its position in \<^verbatim>\<open>icache.inode\<close>; where the source tests a pointer for
  null the argument is an option. The sleep lock of inode \<open>i\<close> follows the locks of the buffers. The structs
  on the disk are read and written at their byte offsets inside a block. A \<^verbatim>\<open>short\<close> is a 16-bit word.
\<close>

subsection \<open>State\<close>

definition ROOTDEV :: uint where "ROOTDEV = 1"
definition ROOTINO :: uint where "ROOTINO = 1"
definition NINODE :: nat where "NINODE = 50"
definition NDIRECT :: nat where "NDIRECT = 12"
definition NINDIRECT :: nat where "NINDIRECT = BSIZE div 4"
definition MAXFILE :: nat where "MAXFILE = NDIRECT + NINDIRECT"
definition sizeof_dinode :: nat where "sizeof_dinode = 12 + 4 * (NDIRECT + 1)"
definition IPB :: nat where "IPB = BSIZE div sizeof_dinode"
definition BPB :: nat where "BPB = BSIZE * 8"

definition T_DIR :: ushort where "T_DIR = 1"
definition T_FILE :: ushort where "T_FILE = 2"
definition T_DEV :: ushort where "T_DEV = 3"

definition IBLOCK :: "uint \<Rightarrow> superblock \<Rightarrow> uint" where
  "IBLOCK i sb = i div of_nat IPB + sb_inodestart sb"

definition BBLOCK :: "uint \<Rightarrow> superblock \<Rightarrow> uint" where
  "BBLOCK b sb = b div of_nat BPB + sb_bmapstart sb"

text \<open>\<^verbatim>\<open>struct inode\<close>. The disk part comes first, so that \<^verbatim>\<open>struct dinode\<close> is the record
  it extends.\<close>

record dinode =
  itype :: ushort
  major :: ushort
  minor :: ushort
  nlink :: ushort
  isize :: uint
  addrs :: "uint list"

record inode = dinode +
  i_dev :: uint
  i_num :: uint
  i_ref :: int
  i_valid :: bool
  i_containerID :: int   \<comment> \<open>the container of the file, set when it is created\<close>

record kino = kpipe +
  icache :: "inode list"
  the_sb :: superblock

interpretation icache_field: component_field icache icache_update
  by unfold_locales simp_all

interpretation the_sb_field: component_field the_sb the_sb_update
  by unfold_locales simp_all

abbreviation inode_at :: "nat \<Rightarrow> 'x kino_scheme \<Rightarrow> inode" where
  "inode_at i s \<equiv> icache s ! i"

definition upd_inode :: "nat \<Rightarrow> (inode \<Rightarrow> inode) \<Rightarrow> 'x kino_scheme \<Rightarrow> 'x kino_scheme" where
  "upd_inode i f s = s\<lparr>icache := (icache s)[i := f (icache s ! i)]\<rparr>"

text \<open>The number of the sleep lock of a cached inode.\<close>

definition inode_lk :: "nat \<Rightarrow> nat" where "inode_lk i = NBUF + i"

abbreviation upd_data :: "nat \<Rightarrow> (uchar list \<Rightarrow> uchar list) \<Rightarrow> ('x kbio_scheme, unit) kern" where
  "upd_data bp f \<equiv> modify (upd_buf bp (\<lambda>x. x\<lparr>data := f (data x)\<rparr>))"

abbreviation buf_data :: "nat \<Rightarrow> ('x kbio_scheme, uchar list) kern" where
  "buf_data bp \<equiv> gets (\<lambda>s. data (buf_at bp s))"

subsection \<open>Disk inodes\<close>

text \<open>\<^verbatim>\<open>struct dinode\<close> number \<open>i\<close> of a block: four shorts, the size and the block addresses.\<close>

definition dinode_off :: "uint \<Rightarrow> nat" where
  "dinode_off inum = sizeof_dinode * (unat inum mod IPB)"

definition dec_dinode :: "nat \<Rightarrow> uchar list \<Rightarrow> dinode" where
  "dec_dinode off d = \<lparr>itype = get16 d off, major = get16 d (off + 2), minor = get16 d (off + 4), nlink = get16 d (off + 6),
     isize = get32 d (off + 8), addrs = map (\<lambda>i. get32 d (off + 12 + 4 * i)) [0..<NDIRECT + 1]\<rparr>"

definition put_addrs :: "nat \<Rightarrow> uint list \<Rightarrow> uchar list \<Rightarrow> uchar list" where
  "put_addrs off as = put_bytes off (concat (map enc32 as))"

definition enc_dinode :: "nat \<Rightarrow> 'x dinode_scheme \<Rightarrow> uchar list \<Rightarrow> uchar list" where
  "enc_dinode off x d = put_addrs (off + 12) (addrs x) (put32 (off + 8) (isize x) (put16 (off + 6) (nlink x)
     (put16 (off + 4) (minor x) (put16 (off + 2) (major x) (put16 off (itype x) d)))))"

subsection \<open>Blocks\<close>

definition bzero :: "uint \<Rightarrow> uint \<Rightarrow> ('x klog_scheme, unit) kern" where
  "bzero dev bno = bnd (bread dev bno) (\<lambda>bp.
     sq (upd_data bp (\<lambda>_. replicate BSIZE 0)) (
     sq (log_write bp) (brelse bp)))"

text \<open>The bit of block \<open>bi\<close> in a block of the free map.\<close>

definition bit_mask :: "nat \<Rightarrow> uchar" where
  "bit_mask bi = push_bit (bi mod 8) 1"

text \<open>The loops of \<^verbatim>\<open>balloc\<close>: the outer one reads one block of the free map for each \<^verbatim>\<open>b\<close> in the list, the inner one is
  the search for the first clear bit.\<close>

primrec balloc_loop :: "uint \<Rightarrow> nat list \<Rightarrow> ('x kino_scheme, uint) kern" where
  "balloc_loop dev [] = panic ''balloc: out of blocks''"
| "balloc_loop dev (b # bs) = bnd (gets the_sb) (\<lambda>sb.
     bnd (bread dev (BBLOCK (of_nat b) sb)) (\<lambda>bp.
     bnd (buf_data bp) (\<lambda>d.
     case find (\<lambda>bi. b + bi < unat (sb_size sb) \<and> d ! (bi div 8) AND bit_mask bi = 0) [0..<BPB] of
       Some bi \<Rightarrow>
         sq (upd_data bp (\<lambda>d. d[bi div 8 := d ! (bi div 8) OR bit_mask bi])) (
         sq (log_write bp) (
         sq (brelse bp) (
         sq (bzero dev (of_nat (b + bi))) (ret (of_nat (b + bi))))))
     | None \<Rightarrow> sq (brelse bp) (balloc_loop dev bs))))"

definition balloc :: "uint \<Rightarrow> ('x kino_scheme, uint) kern" where
  "balloc dev = bnd (gets (\<lambda>s. unat (sb_size (the_sb s)))) (\<lambda>n.
     balloc_loop dev (map (\<lambda>k. k * BPB) [0..<(n + BPB - 1) div BPB]))"

definition bfree :: "uint \<Rightarrow> uint \<Rightarrow> ('x kino_scheme, unit) kern" where
  "bfree dev b = bnd (readsb (sint dev)) (\<lambda>sb.
     sq (modify (\<lambda>s. s\<lparr>the_sb := sb\<rparr>)) (
     bnd (bread dev (BBLOCK b sb)) (\<lambda>bp.
     let bi = unat b mod BPB in
     bnd (buf_data bp) (\<lambda>d.
     if d ! (bi div 8) AND bit_mask bi = 0 then panic ''freeing free block''
     else sq (upd_data bp (\<lambda>d. d[bi div 8 := d ! (bi div 8) AND NOT (bit_mask bi)])) (
       sq (log_write bp) (brelse bp))))))"

subsection \<open>Inodes\<close>

definition iinit :: "int \<Rightarrow> ('x kino_scheme, unit) kern" where
  "iinit dev = sq (initlock Lk_icache ''icache'') (
     sq (for_each [0..<NINODE] (\<lambda>i. initsleeplock (inode_lk i) ''inode'')) (
     bnd (readsb dev) (\<lambda>sb.
     sq (modify (\<lambda>s. s\<lparr>the_sb := sb\<rparr>))
        (cprintf (''sb: size %d nblocks %d ninodes %d nlog %d logstart %d inodestart %d bmap start %d'' @ [CHR 0x0A])
           [Arg (sint (sb_size sb)), Arg (sint (sb_nblocks sb)), Arg (sint (sb_ninodes sb)), Arg (sint (sb_nlog sb)),
            Arg (sint (sb_logstart sb)), Arg (sint (sb_inodestart sb)), Arg (sint (sb_bmapstart sb))]))))"

definition iget :: "uint \<Rightarrow> uint \<Rightarrow> ('x kino_scheme, nat) kern" where
  "iget dev inum = sq (acquire Lk_icache) (
     bnd (gets icache) (\<lambda>ics.
     case first_index (\<lambda>x. i_ref x > 0 \<and> i_dev x = dev \<and> i_num x = inum) ics of
       Some ip \<Rightarrow>
         sq (modify (upd_inode ip (\<lambda>x. x\<lparr>i_ref := i_ref x + 1\<rparr>))) (
         sq (release Lk_icache) (ret ip))
     | None \<Rightarrow> (case first_index (\<lambda>x. i_ref x = 0) ics of
         None \<Rightarrow> panic ''iget: no inodes''
       | Some ip \<Rightarrow>
           sq (modify (upd_inode ip (\<lambda>x. x\<lparr>i_dev := dev, i_num := inum, i_ref := 1, i_valid := False\<rparr>))) (
           sq (release Lk_icache) (ret ip)))))"

primrec ialloc_loop :: "uint \<Rightarrow> ushort \<Rightarrow> nat list \<Rightarrow> ('x kino_scheme, nat) kern" where
  "ialloc_loop dev ty [] = panic ''ialloc: no inodes''"
| "ialloc_loop dev ty (n # ns) = (let inum = of_nat n in
     bnd (gets the_sb) (\<lambda>sb.
     bnd (bread dev (IBLOCK inum sb)) (\<lambda>bp.
     bnd (buf_data bp) (\<lambda>d.
     if itype (dec_dinode (dinode_off inum) d) = 0 then
       sq (upd_data bp (put_bytes (dinode_off inum) (replicate sizeof_dinode 0))) (
       sq (upd_data bp (put16 (dinode_off inum) ty)) (
       sq (log_write bp) (
       sq (brelse bp) (iget dev inum))))
     else sq (brelse bp) (ialloc_loop dev ty ns)))))"

definition ialloc :: "uint \<Rightarrow> ushort \<Rightarrow> ('x kino_scheme, nat) kern" where
  "ialloc dev ty = bnd (gets (\<lambda>s. unat (sb_ninodes (the_sb s)))) (\<lambda>n. ialloc_loop dev ty [1..<n])"

definition iupdate :: "nat \<Rightarrow> ('x kino_scheme, unit) kern" where
  "iupdate ip = bnd (gets (\<lambda>s. (inode_at ip s, the_sb s))) (\<lambda>(x, sb).
     bnd (bread (i_dev x) (IBLOCK (i_num x) sb)) (\<lambda>bp.
     sq (upd_data bp (enc_dinode (dinode_off (i_num x)) x)) (
     sq (log_write bp) (brelse bp))))"

definition idup :: "nat \<Rightarrow> ('x kino_scheme, nat) kern" where
  "idup ip = sq (acquire Lk_icache) (
     sq (modify (upd_inode ip (\<lambda>x. x\<lparr>i_ref := i_ref x + 1\<rparr>))) (
     sq (release Lk_icache) (ret ip)))"

text \<open>The part of \<^verbatim>\<open>ilock\<close> after it has the sleep lock.\<close>

definition ilock_load :: "nat \<Rightarrow> ('x kino_scheme, unit) kern" where
  "ilock_load ip = bnd (gets (\<lambda>s. (inode_at ip s, the_sb s))) (\<lambda>(x, sb).
     whenM (\<not> i_valid x) (
       bnd (bread (i_dev x) (IBLOCK (i_num x) sb)) (\<lambda>bp.
       bnd (buf_data bp) (\<lambda>d.
       let dip = dec_dinode (dinode_off (i_num x)) d in
       sq (modify (upd_inode ip (\<lambda>x. x\<lparr>itype := itype dip, major := major dip, minor := minor dip, nlink := nlink dip,
          isize := isize dip, addrs := addrs dip\<rparr>))) (
       sq (brelse bp) (
       sq (modify (upd_inode ip (\<lambda>x. x\<lparr>i_valid := True\<rparr>)))
          (if itype dip = 0 then panic ''ilock: no type'' else ret ())))))))"

definition ilock :: "nat option \<Rightarrow> ('x kino_scheme, unit) kern" where
  "ilock ipo = (case ipo of None \<Rightarrow> panic ''ilock''
     | Some ip \<Rightarrow> bnd (gets (inode_at ip)) (\<lambda>x.
         if i_ref x < 1 then panic ''ilock''
         else sq (acquiresleep (inode_lk ip)) (ilock_load ip)))"

text \<open>A process that had to wait for the lock of the inode continues here.\<close>

definition ilock_resume :: "nat \<Rightarrow> bool \<Rightarrow> nat \<Rightarrow> ('x kino_scheme, unit) kern" where
  "ilock_resume p ie ip = sq (acquiresleep_resume p ie (inode_lk ip)) (ilock_load ip)"

definition iunlock :: "nat option \<Rightarrow> ('x kino_scheme, unit) kern" where
  "iunlock ipo = (case ipo of None \<Rightarrow> panic ''iunlock''
     | Some ip \<Rightarrow> bnd (holdingsleep (inode_lk ip)) (\<lambda>h.
         bnd (gets (inode_at ip)) (\<lambda>x.
         if \<not> h \<or> i_ref x < 1 then panic ''iunlock''
         else releasesleep (inode_lk ip))))"

subsection \<open>The blocks of a file\<close>

definition bmap :: "nat \<Rightarrow> uint \<Rightarrow> ('x kino_scheme, uint) kern" where
  "bmap ip bn = bnd (gets (inode_at ip)) (\<lambda>x.
     if unat bn < NDIRECT then
       (let addr = addrs x ! unat bn in
        if addr = 0 then
          bnd (balloc (i_dev x)) (\<lambda>addr.
          sq (modify (upd_inode ip (\<lambda>x. x\<lparr>addrs := (addrs x)[unat bn := addr]\<rparr>))) (ret addr))
        else ret addr)
     else let bn = bn - of_nat NDIRECT in
       if unat bn < NINDIRECT then
         bnd (let addr = addrs x ! NDIRECT in
           if addr = 0 then
             bnd (balloc (i_dev x)) (\<lambda>addr.
             sq (modify (upd_inode ip (\<lambda>x. x\<lparr>addrs := (addrs x)[NDIRECT := addr]\<rparr>))) (ret addr))
           else ret addr) (\<lambda>addr.
         bnd (bread (i_dev x) addr) (\<lambda>bp.
         bnd (buf_data bp) (\<lambda>a.
         let addr = get32 a (4 * unat bn) in
         bnd (if addr = 0 then
             bnd (balloc (i_dev x)) (\<lambda>addr.
             sq (upd_data bp (put32 (4 * unat bn) addr)) (
             sq (log_write bp) (ret addr)))
           else ret addr) (\<lambda>addr.
         sq (brelse bp) (ret addr)))))
       else panic ''bmap: out of range'')"

definition itrunc :: "nat \<Rightarrow> ('x kino_scheme, unit) kern" where
  "itrunc ip =
     sq (for_each [0..<NDIRECT] (\<lambda>i. bnd (gets (inode_at ip)) (\<lambda>x.
          whenM (addrs x ! i \<noteq> 0) (
            sq (bfree (i_dev x) (addrs x ! i))
               (modify (upd_inode ip (\<lambda>x. x\<lparr>addrs := (addrs x)[i := 0]\<rparr>))))))) (
     sq (bnd (gets (inode_at ip)) (\<lambda>x.
          whenM (addrs x ! NDIRECT \<noteq> 0) (
            bnd (bread (i_dev x) (addrs x ! NDIRECT)) (\<lambda>bp.
            sq (for_each [0..<NINDIRECT] (\<lambda>j. bnd (buf_data bp) (\<lambda>a.
                 whenM (get32 a (4 * j) \<noteq> 0) (bfree (i_dev x) (get32 a (4 * j)))))) (
            sq (brelse bp) (
            sq (bfree (i_dev x) (addrs x ! NDIRECT))
               (modify (upd_inode ip (\<lambda>x. x\<lparr>addrs := (addrs x)[NDIRECT := 0]\<rparr>))))))))) (
     sq (modify (upd_inode ip (\<lambda>x. x\<lparr>isize := 0\<rparr>)))
        (iupdate ip)))"

text \<open>The part of \<^verbatim>\<open>iput\<close> after it has the sleep lock.\<close>

definition iput_locked :: "nat \<Rightarrow> ('x kino_scheme, unit) kern" where
  "iput_locked ip =
     sq (bnd (gets (inode_at ip)) (\<lambda>x. whenM (i_valid x \<and> nlink x = 0) (
          sq (acquire Lk_icache) (
          bnd (gets (\<lambda>s. i_ref (inode_at ip s))) (\<lambda>r.
          sq (release Lk_icache) (
          whenM (r = 1) (
            sq (itrunc ip) (
            sq (modify (upd_inode ip (\<lambda>x. x\<lparr>itype := 0\<rparr>))) (
            sq (iupdate ip)
               (modify (upd_inode ip (\<lambda>x. x\<lparr>i_valid := False\<rparr>)))))))))))) (
     sq (releasesleep (inode_lk ip)) (
     sq (acquire Lk_icache) (
     sq (modify (upd_inode ip (\<lambda>x. x\<lparr>i_ref := i_ref x - 1\<rparr>)))
        (release Lk_icache))))"

definition iput :: "nat \<Rightarrow> ('x kino_scheme, unit) kern" where
  "iput ip = sq (acquiresleep (inode_lk ip)) (iput_locked ip)"

definition iput_resume :: "nat \<Rightarrow> bool \<Rightarrow> nat \<Rightarrow> ('x kino_scheme, unit) kern" where
  "iput_resume p ie ip = sq (acquiresleep_resume p ie (inode_lk ip)) (iput_locked ip)"

definition iunlockput :: "nat \<Rightarrow> ('x kino_scheme, unit) kern" where
  "iunlockput ip = sq (iunlock (Some ip)) (iput ip)"

record stat =
  st_type :: ushort
  st_dev :: uint
  st_ino :: uint
  st_nlink :: ushort
  st_size :: uint

definition stati :: "nat \<Rightarrow> 'x kino_scheme \<Rightarrow> stat" where
  "stati ip s = (let x = inode_at ip s in
     \<lparr>st_type = itype x, st_dev = i_dev x, st_ino = i_num x, st_nlink = nlink x, st_size = isize x\<rparr>)"

subsection \<open>Locking a cached inode\<close>

text \<open>Process \<open>p\<close> holds the lock of an inode that is in memory; what giving it up changes.\<close>

definition inode_locked :: "nat \<Rightarrow> nat \<Rightarrow> 'x kino_scheme \<Rightarrow> bool" where
  "inode_locked p ip s \<longleftrightarrow> slocked (slocks s (inode_lk ip)) \<and> sl_pid (slocks s (inode_lk ip)) = pid (proc_at p s) \<and>
     1 \<le> i_ref (inode_at ip s) \<and> i_valid (inode_at ip s)"

definition unlocked_inode :: "nat \<Rightarrow> 'x kino_scheme \<Rightarrow> 'x kino_scheme" where
  "unlocked_inode ip s = upd_procs (map (wake (Chan_sleeplock (inode_lk ip)))) (upd_slock (inode_lk ip) (\<lambda>l. l\<lparr>slocked := False, sl_pid := 0\<rparr>) s)"

lemma iunlock_Done: "in_proc p s \<Longrightarrow> inode_locked p ip s \<Longrightarrow> iunlock (Some ip) s = Done () (unlocked_inode ip s)"
  by (simp add: iunlock_def kern_defs holdingsleep_Done releasesleep_Done inode_locked_def unlocked_inode_def)

lemma ilock_valid_Done:
  assumes "in_proc p s" "\<not> slocked (slocks s (inode_lk ip))" "1 \<le> i_ref (inode_at ip s)" "i_valid (inode_at ip s)"
  shows "ilock (Some ip) s = Done () (upd_slock (inode_lk ip) (\<lambda>l. l\<lparr>slocked := True, sl_pid := pid (proc_at p s)\<rparr>) s)"
  using assms by (simp add: ilock_def ilock_load_def kern_defs acquiresleep_Done upd_slock_def)

lemma unlocked_inode_sel [simp]:
  "icache (unlocked_inode ip s) = icache s" "slocks (unlocked_inode ip s) (inode_lk ip) = (slocks s (inode_lk ip))\<lparr>slocked := False, sl_pid := 0\<rparr>"
  "depth (unlocked_inode ip s) = depth s"
  "in_proc p s \<Longrightarrow> killed (proc_at p (unlocked_inode ip s)) = killed (proc_at p s)"
  "kino.more (unlocked_inode ip s) = kino.more s"
  by (simp_all add: unlocked_inode_def upd_slock_def upd_procs_def wake_def)

lemma in_proc_unlocked_inode [simp]: "in_proc p s \<Longrightarrow> in_proc p (unlocked_inode ip s)"
  by (simp add: unlocked_inode_def upd_slock_def)

text \<open>An unused cache entry.\<close>

definition blank_inode :: inode where
  "blank_inode = \<lparr>itype = 0, major = 0, minor = 0, nlink = 0, isize = 0, addrs = replicate (NDIRECT + 1) 0,
     i_dev = 0, i_num = 0, i_ref = 0, i_valid = False, i_containerID = 0\<rparr>"

end
