(* ===== verification/Devices.thy ===== *)
theory Devices
  imports Inode
begin

text \<open>
  Character input: the keyboard driver of \<^verbatim>\<open>src/kbd.c\<close> with the tables of \<^verbatim>\<open>src/kbd.h\<close>, the receiving half of the
  serial port driver \<^verbatim>\<open>src/uart.c\<close>, the line discipline and the console device of \<^verbatim>\<open>src/console.c\<close>
  (\<^verbatim>\<open>consoleintr\<close>, \<^verbatim>\<open>consoleread\<close>, \<^verbatim>\<open>consolewrite\<close>, \<^verbatim>\<open>consoleinit\<close>), and the interrupt routing of
  \<^verbatim>\<open>src/ioapic.c\<close>.

  The devices are part of the state: the bytes waiting in the keyboard controller and in the receiver of the
  serial port, the line status register of the latter, the bytes written to its control registers, and the
  registers of the I/O APIC. Function pointers to the console device are the constructors of \<open>devfn\<close>. An
  interrupt handler takes characters until its device has none left; the loop is given one step more than there
  are bytes waiting.
\<close>

subsection \<open>State\<close>

definition INPUT_BUF :: nat where "INPUT_BUF = 128"
definition NDEV :: nat where "NDEV = 10"
definition CONSOLE :: nat where "CONSOLE = 1"

datatype devfn = Fn_consoleread | Fn_consolewrite

record devsw =
  dev_read :: "devfn option"
  dev_write :: "devfn option"

record input =
  ibuf :: "uchar list"
  ir :: uint
  iw :: uint
  ie :: uint

record kdev = kino +
  the_input :: input
  the_devsw :: "devsw list"
  kbd_shift :: uint
  kbd_bytes :: "uchar list"
  uart_bytes :: "uchar list"
  uart_lsr :: uchar
  uart_ctl :: "(uint \<times> uchar) list"
  ioapic :: "uint \<Rightarrow> uint"
  ioapicid :: uint

interpretation the_input_field: component_field the_input the_input_update
  by unfold_locales simp_all

interpretation the_devsw_field: component_field the_devsw the_devsw_update
  by unfold_locales simp_all

interpretation kbd_shift_field: component_field kbd_shift kbd_shift_update
  by unfold_locales simp_all

interpretation kbd_bytes_field: component_field kbd_bytes kbd_bytes_update
  by unfold_locales simp_all

interpretation uart_bytes_field: component_field uart_bytes uart_bytes_update
  by unfold_locales simp_all

interpretation uart_ctl_field: component_field uart_ctl uart_ctl_update
  by unfold_locales simp_all

interpretation ioapic_field: component_field ioapic ioapic_update
  by unfold_locales simp_all

subsection \<open>Interrupt routing\<close>

definition T_IRQ0 :: uint where "T_IRQ0 = 32"
definition IRQ_KBD :: uint where "IRQ_KBD = 1"
definition IRQ_COM1 :: uint where "IRQ_COM1 = 4"
definition IRQ_IDE :: uint where "IRQ_IDE = 14"
definition INT_DISABLED :: uint where "INT_DISABLED = 0x00010000"
definition REG_TABLE :: uint where "REG_TABLE = 0x10"

definition ioapicread :: "uint \<Rightarrow> ('x kdev_scheme, uint) kern" where
  "ioapicread reg = gets (\<lambda>s. ioapic s reg)"

definition ioapicwrite :: "uint \<Rightarrow> uint \<Rightarrow> ('x kdev_scheme, unit) kern" where
  "ioapicwrite reg d = modify (\<lambda>s. s\<lparr>ioapic := (ioapic s)(reg := d)\<rparr>)"

definition ioapicinit :: "('x kdev_scheme, unit) kern" where
  "ioapicinit = bnd (ioapicread 1) (\<lambda>ver. let maxintr = unat (drop_bit 16 ver AND 0xFF) in
     bnd (ioapicread 0) (\<lambda>idr. bnd (gets ioapicid) (\<lambda>apicid.
     sq (whenM (drop_bit 24 idr \<noteq> apicid) (cprintf (''ioapicinit: id isn't equal to ioapicid; not a MP'' @ [CHR 0x0A]) [])) (
     for_each [0..<maxintr + 1] (\<lambda>i.
       sq (ioapicwrite (REG_TABLE + 2 * of_nat i) (INT_DISABLED OR (T_IRQ0 + of_nat i)))
          (ioapicwrite (REG_TABLE + 2 * of_nat i + 1) 0))))))"

definition ioapicenable :: "uint \<Rightarrow> uint \<Rightarrow> ('x kdev_scheme, unit) kern" where
  "ioapicenable irq cpunum =
     sq (ioapicwrite (REG_TABLE + 2 * irq) (T_IRQ0 + irq))
        (ioapicwrite (REG_TABLE + 2 * irq + 1) (push_bit 24 cpunum))"

subsection \<open>Keyboard\<close>

definition SHIFT :: uint where "SHIFT = 1"
definition CTL :: uint where "CTL = 2"
definition ALT :: uint where "ALT = 4"
definition CAPSLOCK :: uint where "CAPSLOCK = 8"
definition NUMLOCK :: uint where "NUMLOCK = 16"
definition SCROLLLOCK :: uint where "SCROLLLOCK = 32"
definition E0ESC :: uint where "E0ESC = 64"

text \<open>An array of 256 bytes initialised by a list of values from position 0 and designated entries.\<close>

definition designated :: "uchar list \<Rightarrow> (nat \<times> uchar) list \<Rightarrow> uchar list" where
  "designated vs ds = fold (\<lambda>(i, v) t. t[i := v]) ds (vs @ replicate (256 - length vs) 0)"

definition shiftcode :: "uchar list" where
  "shiftcode = designated [] [(0x1D, ucast CTL), (0x2A, ucast SHIFT), (0x36, ucast SHIFT), (0x38, ucast ALT), (0x9D, ucast CTL), (0xB8, ucast ALT)]"

definition togglecode :: "uchar list" where
  "togglecode = designated [] [(0x3A, ucast CAPSLOCK), (0x45, ucast NUMLOCK), (0x46, ucast SCROLLLOCK)]"

definition normalmap :: "uchar list" where
  "normalmap = designated
    [0, 27, 49, 50, 51, 52, 53, 54,
     55, 56, 57, 48, 45, 61, 8, 9,
     113, 119, 101, 114, 116, 121, 117, 105,
     111, 112, 91, 93, 10, 0, 97, 115,
     100, 102, 103, 104, 106, 107, 108, 59,
     39, 96, 0, 92, 122, 120, 99, 118,
     98, 110, 109, 44, 46, 47, 0, 42,
     0, 32, 0, 0, 0, 0, 0, 0,
     0, 0, 0, 0, 0, 0, 0, 55,
     56, 57, 45, 52, 53, 54, 43, 49,
     50, 51, 48, 46, 0, 0, 0, 0]
    [(0x9C, 0xA), (0xB5, 0x2F), (0xC8, 0xE2), (0xD0, 0xE3), (0xC9, 0xE6), (0xD1, 0xE7), (0xCB, 0xE4), (0xCD, 0xE5), (0x97, 0xE0), (0xCF, 0xE1), (0xD2, 0xE8), (0xD3, 0xE9)]"

definition shiftmap :: "uchar list" where
  "shiftmap = designated
    [0, 27, 33, 64, 35, 36, 37, 94,
     38, 42, 40, 41, 95, 43, 8, 9,
     81, 87, 69, 82, 84, 89, 85, 73,
     79, 80, 123, 125, 10, 0, 65, 83,
     68, 70, 71, 72, 74, 75, 76, 58,
     34, 126, 0, 124, 90, 88, 67, 86,
     66, 78, 77, 60, 62, 63, 0, 42,
     0, 32, 0, 0, 0, 0, 0, 0,
     0, 0, 0, 0, 0, 0, 0, 55,
     56, 57, 45, 52, 53, 54, 43, 49,
     50, 51, 48, 46, 0, 0, 0, 0]
    [(0x9C, 0xA), (0xB5, 0x2F), (0xC8, 0xE2), (0xD0, 0xE3), (0xC9, 0xE6), (0xD1, 0xE7), (0xCB, 0xE4), (0xCD, 0xE5), (0x97, 0xE0), (0xCF, 0xE1), (0xD2, 0xE8), (0xD3, 0xE9)]"

definition ctlmap :: "uchar list" where
  "ctlmap = designated
    [0, 0, 0, 0, 0, 0, 0, 0,
     0, 0, 0, 0, 0, 0, 0, 0,
     17, 23, 5, 18, 20, 25, 21, 9,
     15, 16, 0, 0, 13, 0, 1, 19,
     4, 6, 7, 8, 10, 11, 12, 0,
     0, 0, 0, 28, 26, 24, 3, 22,
     2, 14, 13, 0, 0, 239, 0, 0]
    [(0x9C, 0xD), (0xB5, 0xEF), (0xC8, 0xE2), (0xD0, 0xE3), (0xC9, 0xE6), (0xD1, 0xE7), (0xCB, 0xE4), (0xCD, 0xE5), (0x97, 0xE0), (0xCF, 0xE1), (0xD2, 0xE8), (0xD3, 0xE9)]"

definition charcode :: "uint \<Rightarrow> uchar list" where
  "charcode i = [normalmap, shiftmap, ctlmap, ctlmap] ! unat i"

text \<open>The translation of one scan code: the new shift state and the character (0 for none).\<close>

definition kbd_code :: "uint \<Rightarrow> uchar \<Rightarrow> uint \<times> int" where
  "kbd_code shift d =
    (if d = 0xE0 then (shift OR E0ESC, 0)
     else if d AND 0x80 \<noteq> 0 then
       (let d = (if shift AND E0ESC \<noteq> 0 then d else d AND 0x7F)
        in (shift AND NOT (ucast (shiftcode ! unat d) OR E0ESC), 0))
     else
       (let (d, shift) = (if shift AND E0ESC \<noteq> 0 then (d OR 0x80, shift AND NOT E0ESC) else (d, shift));
            shift = shift OR ucast (shiftcode ! unat d);
            shift = shift XOR ucast (togglecode ! unat d);
            c = uint (charcode (shift AND (CTL OR SHIFT)) ! unat d);
            c = (if shift AND CAPSLOCK \<noteq> 0
                 then (if 97 \<le> c \<and> c \<le> 122 then c + 65 - 97 else if 65 \<le> c \<and> c \<le> 90 then c + 97 - 65 else c)
                 else c)
        in (shift, c)))"

definition kbdgetc :: "('x kdev_scheme, int) kern" where
  "kbdgetc = bnd (gets kbd_bytes) (\<lambda>bs. case bs of
       [] \<Rightarrow> ret (-1)
     | d # rest \<Rightarrow>
         sq (modify (\<lambda>s. s\<lparr>kbd_bytes := rest\<rparr>)) (
         bnd (gets kbd_shift) (\<lambda>sh.
         sq (modify (\<lambda>s. s\<lparr>kbd_shift := fst (kbd_code sh d)\<rparr>)) (ret (snd (kbd_code sh d))))))"

subsection \<open>Serial port\<close>

definition COM1 :: uint where "COM1 = 0x3f8"

definition com1_outb :: "uint \<Rightarrow> uchar \<Rightarrow> ('x kdev_scheme, unit) kern" where
  "com1_outb port v = modify (\<lambda>s. s\<lparr>uart_ctl := uart_ctl s @ [(port, v)]\<rparr>)"

text \<open>The two reads that acknowledge a pending interrupt take the byte that waits in the receiver.\<close>

definition uartinit :: "('x kdev_scheme, unit) kern" where
  "uartinit = sq (com1_outb (COM1 + 2) 0) (
     sq (com1_outb (COM1 + 3) 0x80) (
     sq (com1_outb (COM1 + 0) (115200 div 9600)) (
     sq (com1_outb (COM1 + 1) 0) (
     sq (com1_outb (COM1 + 3) 0x03) (
     sq (com1_outb (COM1 + 4) 0) (
     sq (com1_outb (COM1 + 1) 0x01) (
     bnd (gets uart_lsr) (\<lambda>st.
     whenM (st \<noteq> 0xFF) (
       sq (modify (\<lambda>s. s\<lparr>cons := (cons s)\<lparr>uart := True\<rparr>\<rparr>)) (
       sq (modify (\<lambda>s. s\<lparr>uart_bytes := tl (uart_bytes s)\<rparr>)) (
       sq (ioapicenable IRQ_COM1 0) (
       for_each (''xv6...'' @ [CHR 0x0A]) (\<lambda>c. modify (\<lambda>s. s\<lparr>cons := uartputc (of_char c) (cons s)\<rparr>))))))))))))))"

definition uartgetc :: "('x kdev_scheme, int) kern" where
  "uartgetc = bnd (gets (\<lambda>s. (uart (cons s), uart_bytes s))) (\<lambda>(present, bs).
     if \<not> present then ret (-1)
     else case bs of
       [] \<Rightarrow> ret (-1)
     | b # rest \<Rightarrow> sq (modify (\<lambda>s. s\<lparr>uart_bytes := rest\<rparr>)) (ret (uint b)))"

subsection \<open>The line discipline\<close>

definition Ctrl :: "char \<Rightarrow> int" where "Ctrl x = of_char x - of_char CHR ''@''"

text \<open>The loop of control-U, at most once for each character of the line.\<close>

primrec kill_line :: "nat \<Rightarrow> ('x kdev_scheme, unit) kern" where
  "kill_line 0 = ret ()"
| "kill_line (Suc k) = bnd (gets the_input) (\<lambda>x.
     whenM (ie x \<noteq> iw x \<and> ibuf x ! (unat (ie x - 1) mod INPUT_BUF) \<noteq> 10) (
       sq (modify (\<lambda>s. s\<lparr>the_input := (the_input s)\<lparr>ie := ie x - 1\<rparr>\<rparr>)) (
       sq (consputc BACKSPACE) (kill_line k))))"

text \<open>The body of the \<^verbatim>\<open>switch\<close> for character \<open>c\<close>; the result says whether to list the processes.\<close>

definition console_char :: "int \<Rightarrow> ('x kdev_scheme, bool) kern" where
  "console_char c =
    (if c = Ctrl CHR ''P'' then ret True
     else if c = Ctrl CHR ''U'' then
       bnd (gets the_input) (\<lambda>x. sq (kill_line (unat (ie x - iw x))) (ret False))
     else if c = Ctrl CHR ''H'' \<or> c = 0x7f then
       bnd (gets the_input) (\<lambda>x.
       sq (whenM (ie x \<noteq> iw x) (
         sq (modify (\<lambda>s. s\<lparr>the_input := (the_input s)\<lparr>ie := ie x - 1\<rparr>\<rparr>))
            (consputc BACKSPACE))) (ret False))
     else bnd (gets the_input) (\<lambda>x.
       sq (whenM (c \<noteq> 0 \<and> unat (ie x - ir x) < INPUT_BUF) (
         let c = (if c = 13 then 10 else c) in
         sq (modify (\<lambda>s. s\<lparr>the_input := (the_input s)\<lparr>
             ibuf := (ibuf x)[unat (ie x) mod INPUT_BUF := word_of_int c], ie := ie x + 1\<rparr>\<rparr>)) (
         sq (consputc c) (
         bnd (gets the_input) (\<lambda>x.
         whenM (c = 10 \<or> c = Ctrl CHR ''D'' \<or> ie x = ir x + of_nat INPUT_BUF) (
           sq (modify (\<lambda>s. s\<lparr>the_input := (the_input s)\<lparr>iw := ie x\<rparr>\<rparr>))
              (wakeup Chan_input))))))) (ret False)))"

primrec consoleintr_loop :: "nat \<Rightarrow> ('x kdev_scheme, int) kern \<Rightarrow> bool \<Rightarrow> ('x kdev_scheme, bool) kern" where
  "consoleintr_loop 0 getc dump = undef ''console input''"
| "consoleintr_loop (Suc n) getc dump = bnd getc (\<lambda>c.
     if c < 0 then ret dump
     else bnd (console_char c) (\<lambda>p. consoleintr_loop n getc (dump \<or> p)))"

definition consoleintr :: "nat \<Rightarrow> ('x kdev_scheme, int) kern \<Rightarrow> ('x kdev_scheme, unit) kern" where
  "consoleintr n getc = sq (acquire Lk_cons) (
     bnd (consoleintr_loop n getc False) (\<lambda>doprocdump.
     sq (release Lk_cons) (whenM doprocdump procdump)))"

definition kbdintr :: "('x kdev_scheme, unit) kern" where
  "kbdintr = bnd (gets (\<lambda>s. length (kbd_bytes s))) (\<lambda>n. consoleintr (Suc n) kbdgetc)"

definition uartintr :: "('x kdev_scheme, unit) kern" where
  "uartintr = bnd (gets (\<lambda>s. length (uart_bytes s))) (\<lambda>n. consoleintr (Suc n) uartgetc)"

subsection \<open>The console device\<close>

text \<open>The loop of \<^verbatim>\<open>consoleread\<close> with \<open>n\<close> bytes still wanted out of \<open>target\<close> and \<open>acc\<close> already stored.\<close>

definition consoleread_end :: "nat \<Rightarrow> nat \<Rightarrow> nat \<Rightarrow> uchar list \<Rightarrow> ('x kdev_scheme, int \<times> uchar list) kern" where
  "consoleread_end ip target n acc = sq (release Lk_cons) (sq (ilock (Some ip)) (ret (int (target - n), acc)))"

primrec consoleread_loop :: "nat \<Rightarrow> nat \<Rightarrow> uchar list \<Rightarrow> nat \<Rightarrow> ('x kdev_scheme, int \<times> uchar list) kern" where
  "consoleread_loop ip target acc 0 = consoleread_end ip target 0 acc"
| "consoleread_loop ip target acc (Suc n) = bnd (gets the_input) (\<lambda>x.
     if ir x = iw x then
       bnd curproc (\<lambda>p. bnd (gets (\<lambda>s. killed (proc_at p s))) (\<lambda>k.
         if k then sq (release Lk_cons) (sq (ilock (Some ip)) (ret (-1, acc)))
         else sleep Chan_input Lk_cons))
     else
       sq (modify (\<lambda>s. s\<lparr>the_input := (the_input s)\<lparr>ir := ir x + 1\<rparr>\<rparr>)) (
       let c = ibuf x ! (unat (ir x) mod INPUT_BUF) in
       if uint c = Ctrl CHR ''D'' then
         sq (whenM (Suc n < target) (modify (\<lambda>s. s\<lparr>the_input := (the_input s)\<lparr>ir := ir x\<rparr>\<rparr>)))
            (consoleread_end ip target (Suc n) acc)
       else if c = 10 then consoleread_end ip target n (acc @ [c])
       else consoleread_loop ip target (acc @ [c]) n))"

definition consoleread :: "nat \<Rightarrow> int \<Rightarrow> ('x kdev_scheme, int \<times> uchar list) kern" where
  "consoleread ip n = sq (iunlock (Some ip)) (
     sq (acquire Lk_cons) (consoleread_loop ip (nat n) [] (nat n)))"

definition consoleread_resume :: "nat \<Rightarrow> bool \<Rightarrow> nat \<Rightarrow> nat \<Rightarrow> uchar list \<Rightarrow> nat \<Rightarrow> ('x kdev_scheme, int \<times> uchar list) kern" where
  "consoleread_resume p en ip target acc n = sq (sleep_resume p en Lk_cons) (consoleread_loop ip target acc n)"

definition consolewrite :: "nat \<Rightarrow> uchar list \<Rightarrow> int \<Rightarrow> ('x kdev_scheme, int) kern" where
  "consolewrite ip bs n = sq (iunlock (Some ip)) (
     sq (acquire Lk_cons) (
     sq (for_each (take (nat n) bs) (\<lambda>c. consputc (uint c))) (
     sq (release Lk_cons) (
     sq (ilock (Some ip)) (ret n)))))"

definition consoleinit :: "('x kdev_scheme, unit) kern" where
  "consoleinit = sq (initlock Lk_cons ''console'') (
     sq (modify (\<lambda>s. s\<lparr>the_devsw := (the_devsw s)[CONSOLE := (the_devsw s ! CONSOLE)\<lparr>dev_write := Some Fn_consolewrite\<rparr>]\<rparr>)) (
     sq (modify (\<lambda>s. s\<lparr>the_devsw := (the_devsw s)[CONSOLE := (the_devsw s ! CONSOLE)\<lparr>dev_read := Some Fn_consoleread\<rparr>]\<rparr>)) (
     sq (modify (\<lambda>s. s\<lparr>cons := (cons s)\<lparr>locking := True\<rparr>\<rparr>))
        (ioapicenable IRQ_KBD 0))))"

interpretation input_ring: ring_buffer INPUT_BUF
  by unfold_locales (simp_all add: INPUT_BUF_def)

subsection \<open>The line discipline as a queue of lines\<close>

text \<open>The input buffer holds the bytes that readers may take and, behind them, the line being edited. The
  three counters only grow, except that erasing moves the editing end back.\<close>

definition input_ok :: "input \<Rightarrow> bool" where
  "input_ok x \<longleftrightarrow> length (ibuf x) = INPUT_BUF \<and> unat (iw x - ir x) \<le> unat (ie x - ir x) \<and> unat (ie x - ir x) \<le> INPUT_BUF"

definition typed_ahead :: "input \<Rightarrow> uchar list" where
  "typed_ahead x = ring_content INPUT_BUF (ibuf x) (ir x) (ie x)"

definition console_line :: "input \<Rightarrow> uchar list \<times> uchar list" where
  "console_line x = (take (unat (iw x - ir x)) (typed_ahead x), drop (unat (iw x - ir x)) (typed_ahead x))"

text \<open>What typing a character does to the two parts.\<close>

definition type_char :: "int \<Rightarrow> uchar list \<times> uchar list \<Rightarrow> uchar list \<times> uchar list" where
  "type_char c = (\<lambda>(ready, edit).
     if c = 16 then (ready, edit)
     else if c = 21 then (ready, rev (dropWhile (\<lambda>b. b \<noteq> 10) (rev edit)))
     else if c = 8 \<or> c = 127 then (ready, butlast edit)
     else if c = 0 \<or> length ready + length edit \<ge> INPUT_BUF then (ready, edit)
     else let c' = (if c = 13 then 10 else word_of_int c); edit' = edit @ [c'] in
       if c' = 10 \<or> c' = 4 \<or> length ready + length edit' = INPUT_BUF then (ready @ edit', []) else (ready, edit'))"

lemma Ctrl_simps [simp]: "Ctrl CHR ''P'' = 16" "Ctrl CHR ''U'' = 21" "Ctrl CHR ''H'' = 8" "Ctrl CHR ''D'' = 4"
  by (simp_all add: Ctrl_def)

lemma edit_empty: "input_ok x \<Longrightarrow> ie x = iw x \<longleftrightarrow> snd (console_line x) = []"
proof -
  assume x: "input_ok x"
  have "unat (ie x - ir x) = unat (iw x - ir x) \<longleftrightarrow> ie x = iw x" by (simp flip: word_unat_eq_iff)
  then show ?thesis using x by (auto simp: input_ok_def console_line_def typed_ahead_def)
qed

lemma line_lengths:
  "input_ok x \<Longrightarrow> length (fst (console_line x)) = unat (iw x - ir x)" "input_ok x \<Longrightarrow> length (fst (console_line x)) + length (snd (console_line x)) = unat (ie x - ir x)"
  by (simp_all add: input_ok_def console_line_def typed_ahead_def)

lemma input_erase:
  assumes x: "input_ok x" and ne: "ie x \<noteq> iw x"
  shows "input_ok (x\<lparr>ie := ie x - 1\<rparr>)" "console_line (x\<lparr>ie := ie x - 1\<rparr>) = (fst (console_line x), butlast (snd (console_line x)))"
    "ibuf x ! (unat (ie x - 1) mod INPUT_BUF) = last (snd (console_line x))" "unat (ie x - 1 - iw x) = unat (ie x - iw x) - 1"
proof -
  have lt: "unat (iw x - ir x) < unat (ie x - ir x)"
    using x ne by (auto simp: input_ok_def order.strict_iff_order word_unat_eq_iff [symmetric])
  then have re: "ir x \<noteq> ie x" by auto
  have e: "unat (ie x - 1 - ir x) = unat (ie x - ir x) - 1"
    using unat_minus_one [of "ie x - ir x"] re by (simp add: algebra_simps)
  show "input_ok (x\<lparr>ie := ie x - 1\<rparr>)" using x lt e by (auto simp: input_ok_def)
  have c: "typed_ahead (x\<lparr>ie := ie x - 1\<rparr>) = butlast (typed_ahead x)"
    using input_ring.content_butlast [OF re] by (simp add: typed_ahead_def)
  have l: "length (typed_ahead x) = unat (ie x - ir x)" by (simp add: typed_ahead_def)
  show "console_line (x\<lparr>ie := ie x - 1\<rparr>) = (fst (console_line x), butlast (snd (console_line x)))"
    using lt l by (simp add: console_line_def c take_butlast drop_butlast)
  show "ibuf x ! (unat (ie x - 1) mod INPUT_BUF) = last (snd (console_line x))"
    using input_ring.content_last [OF re, of "ibuf x"] lt l by (simp add: console_line_def typed_ahead_def last_drop)
  show "unat (ie x - 1 - iw x) = unat (ie x - iw x) - 1"
    using unat_minus_one [of "ie x - iw x"] ne by (simp add: algebra_simps)
qed

lemma input_push:
  assumes x: "input_ok x" and room: "unat (ie x - ir x) < INPUT_BUF"
  shows "input_ok (x\<lparr>ibuf := (ibuf x)[unat (ie x) mod INPUT_BUF := b], ie := ie x + 1\<rparr>)"
    "console_line (x\<lparr>ibuf := (ibuf x)[unat (ie x) mod INPUT_BUF := b], ie := ie x + 1\<rparr>) = (fst (console_line x), snd (console_line x) @ [b])" 
    "console_line ((x\<lparr>ibuf := (ibuf x)[unat (ie x) mod INPUT_BUF := b], ie := ie x + 1\<rparr>)\<lparr>iw := ie x + 1\<rparr>) = (fst (console_line x) @ snd (console_line x) @ [b], [])" "input_ok ((x\<lparr>ibuf := (ibuf x)[unat (ie x) mod INPUT_BUF := b], ie := ie x + 1\<rparr>)\<lparr>iw := ie x + 1\<rparr>)"
    "ie x + 1 = ir x + of_nat INPUT_BUF \<longleftrightarrow> length (fst (console_line x)) + length (snd (console_line x)) + 1 = INPUT_BUF"
proof -
  let ?y = "x\<lparr>ibuf := (ibuf x)[unat (ie x) mod INPUT_BUF := b], ie := ie x + 1\<rparr>"
  have u: "unat (ie x + 1 - ir x) = Suc (unat (ie x - ir x))" using room by (rule input_ring.unat_Suc_diff)
  have c: "typed_ahead ?y = typed_ahead x @ [b]" 
    using input_ring.content_push [of "ibuf x" "ie x" "ir x" b] x room by (simp add: typed_ahead_def input_ok_def)
  have l: "length (typed_ahead x) = unat (ie x - ir x)" by (simp add: typed_ahead_def)
  show "input_ok ?y" "input_ok (?y\<lparr>iw := ie x + 1\<rparr>)" using x u room by (simp_all add: input_ok_def)
  show "console_line ?y = (fst (console_line x), snd (console_line x) @ [b])" using c l x by (simp add: console_line_def input_ok_def)
  have "typed_ahead (?y\<lparr>iw := ie x + 1\<rparr>) = typed_ahead x @ [b]" using c by (simp add: typed_ahead_def)
  then show "console_line (?y\<lparr>iw := ie x + 1\<rparr>) = (fst (console_line x) @ snd (console_line x) @ [b], [])" using l u by (simp add: console_line_def)
  show "ie x + 1 = ir x + of_nat INPUT_BUF \<longleftrightarrow> length (fst (console_line x)) + length (snd (console_line x)) + 1 = INPUT_BUF"
    using input_ring.full_iff [of "ie x + 1" "ir x"] u room line_lengths(2) [OF x] by simp
qed


text \<open>Inside the handler: the console lock is held.\<close>

definition in_cons :: "'x kdev_scheme \<Rightarrow> bool" where
  "in_cons s \<longleftrightarrow> ptable_ready s \<and> held Lk_cons s \<and> 0 < depth s \<and> cons_ok (cons s)"

lemma in_cons_upd:
  "in_cons s \<Longrightarrow> in_cons (s\<lparr>the_input := x\<rparr>)" "in_cons s \<Longrightarrow> in_cons (s\<lparr>uart_bytes := bs\<rparr>)"
  "in_cons s \<Longrightarrow> cons_ok k \<Longrightarrow> in_cons (s\<lparr>cons := k\<rparr>)" "in_cons s \<Longrightarrow> in_cons (upd_procs (map f) s)"
  by (simp_all add: in_cons_def ptable_ready_def)

lemma in_consD: "in_cons s \<Longrightarrow> cons_ok (cons s)" "in_cons s \<Longrightarrow> ptable_ready s" "in_cons s \<Longrightarrow> settled s = s"
  by (simp_all add: in_cons_def ptable_ready_def settled_nested)

lemma upd_procs_dev [simp]: "the_input (upd_procs f s) = the_input s" "uart_bytes (upd_procs f s) = uart_bytes s"
  by (simp_all add: upd_procs_def)

lemmas in_cons_simps = in_cons_upd in_consD consputc_Done wakeup_Done

definition same_uart :: "'x kdev_scheme \<Rightarrow> 'x kdev_scheme \<Rightarrow> bool" where
  "same_uart s t \<longleftrightarrow> uart_bytes t = uart_bytes s \<and> uart (cons t) = uart (cons s)"

lemma kill_line_runs:
  "in_cons s \<Longrightarrow> input_ok (the_input s) \<Longrightarrow> k = length (snd (console_line (the_input s))) \<Longrightarrow>
   runs (kill_line k) s (\<lambda>_ t. in_cons t \<and> input_ok (the_input t) \<and> same_uart s t \<and>
     console_line (the_input t) = (fst (console_line (the_input s)), rev (dropWhile (\<lambda>b. b \<noteq> 10) (rev (snd (console_line (the_input s)))))))"
proof (induction k arbitrary: s)
  case 0
  then show ?case by (cases "console_line (the_input s)") (simp add: kern same_uart_def)
next
  case (Suc k)
  let ?x = "the_input s"
  obtain pre b where e: "snd (console_line ?x) = pre @ [b]" using Suc.prems(3) by (metis length_Suc_conv_rev)
  have ne: "ie ?x \<noteq> iw ?x" using edit_empty [OF Suc.prems(2)] e by simp
  let ?y = "?x\<lparr>ie := ie ?x - 1\<rparr>"
  let ?t = "s\<lparr>the_input := ?y, cons := emit BACKSPACE (cons s)\<rparr>"
  note er = input_erase [OF Suc.prems(2) ne]
  have "runs (kill_line k) ?t (\<lambda>_ t. in_cons t \<and> input_ok (the_input t) \<and> same_uart ?t t \<and>
     console_line (the_input t) = (fst (console_line ?y), rev (dropWhile (\<lambda>b. b \<noteq> 10) (rev (snd (console_line ?y))))))"
    using Suc.IH [of ?t] Suc.prems er e by (simp add: in_cons_simps)
  then have "b \<noteq> 10 \<Longrightarrow> ?case" using Suc.prems er e ne
    by (auto simp: kern in_cons_simps runs_Done same_uart_def elim!: runs_weaken)
  moreover have "b = 10 \<Longrightarrow> ?case" using Suc.prems er e ne by (cases "console_line ?x") (simp add: kern same_uart_def)
  ultimately show ?case by blast
qed

lemma input_room: "input_ok x \<Longrightarrow> unat (ie x - ir x) = length (fst (console_line x)) + length (snd (console_line x))"
  using line_lengths(2) [of x] by simp

lemma line_length_edit: "input_ok x \<Longrightarrow> unat (ie x - iw x) = length (snd (console_line x))"
proof -
  assume x: "input_ok x"
  have "iw x - ir x \<le> ie x - ir x" using x by (simp add: input_ok_def word_le_nat_alt)
  from unat_sub [OF this] have "unat (ie x - iw x) = unat (ie x - ir x) - unat (iw x - ir x)" by simp
  then show ?thesis using line_lengths [OF x] by simp
qed

lemma console_char_runs:
  assumes s: "in_cons s" "input_ok (the_input s)" and c: "c \<noteq> 16" "0 \<le> c" "c < 256"
  shows "runs (console_char c) s (\<lambda>r t. \<not> r \<and> in_cons t \<and> input_ok (the_input t) \<and> same_uart s t \<and>
     console_line (the_input t) = type_char c (console_line (the_input s)))"
proof -
  let ?x = "the_input s"
  obtain ready edit where l: "console_line ?x = (ready, edit)" by fastforce
  note fs = s(1) s(2) l
  consider (kill) "c = 21" | (bs) "c = 8 \<or> c = 127" | (drop) "c \<noteq> 21" "\<not> (c = 8 \<or> c = 127)" "c = 0 \<or> INPUT_BUF \<le> length ready + length edit"
    | (add) "c \<noteq> 21" "\<not> (c = 8 \<or> c = 127)" "c \<noteq> 0" "length ready + length edit < INPUT_BUF" by fastforce
  then show ?thesis
  proof cases
    case kill
    have "runs (kill_line (length edit)) s (\<lambda>_ t. in_cons t \<and> input_ok (the_input t) \<and> same_uart s t \<and>
       console_line (the_input t) = (fst (console_line ?x), rev (dropWhile (\<lambda>b. b \<noteq> 10) (rev (snd (console_line ?x))))))"
      using kill_line_runs [OF s, of "length edit"] l by simp
    then show ?thesis using kill line_length_edit [OF s(2)] l
      by (simp add: console_char_def kern type_char_def)
  next
    case bs
    show ?thesis
    proof (cases "edit = []")
      case True
      then show ?thesis using bs fs edit_empty [OF s(2)] by (auto simp: console_char_def kern type_char_def same_uart_def)
    next
      case False
      then have ne: "ie ?x \<noteq> iw ?x" using edit_empty [OF s(2)] l by simp
      show ?thesis using bs fs ne input_erase [OF s(2) ne]
        by (auto simp: console_char_def kern type_char_def same_uart_def in_cons_simps runs_Done)
    qed
  next
    case drop
    then show ?thesis using fs c input_room [OF s(2)] by (auto simp: console_char_def kern type_char_def same_uart_def)
  next
    case add
    define d where "d = (if c = 13 then 10 else c)"
    have d: "(word_of_int d :: uchar) = 10 \<longleftrightarrow> d = 10" "(word_of_int d :: uchar) = 4 \<longleftrightarrow> d = 4"
      "word_of_int d = (if c = 13 then 10 else word_of_int c :: uchar)"
      using c by (auto simp: d_def word_uint_eq_iff uint_word_of_int)
    have room: "unat (ie ?x - ir ?x) < INPUT_BUF" using add(4) input_room [OF s(2)] l by simp
    note ad = input_push(1-4) [OF s(2) room, of "word_of_int d"] input_push(5) [OF s(2) room]
    have nb: "d \<noteq> BACKSPACE" using c by (auto simp: d_def BACKSPACE_def)
    show ?thesis using add fs c room ad 
      by (simp add: console_char_def kern type_char_def same_uart_def in_cons_simps runs_Done Let_def flip: d_def d(3))
         (use d(1,2) in \<open>auto simp: d(3) d_def split: if_splits\<close>)
  qed
qed


lemma consoleintr_loop_runs:
  "in_cons s \<Longrightarrow> input_ok (the_input s) \<Longrightarrow> uart (cons s) \<Longrightarrow> 16 \<notin> set (uart_bytes s) \<Longrightarrow>
   runs (consoleintr_loop (Suc (length (uart_bytes s))) uartgetc False) s (\<lambda>r t. \<not> r \<and> in_cons t \<and>
     input_ok (the_input t) \<and> uart_bytes t = [] \<and> console_line (the_input t) = fold (\<lambda>b. type_char (uint b)) (uart_bytes s) (console_line (the_input s)))"
proof (induction "uart_bytes s" arbitrary: s)
  case Nil
  then show ?case by (simp add: kern uartgetc_def flip: Nil.hyps)
next
  case (Cons b bs)
  let ?t = "s\<lparr>uart_bytes := bs\<rparr>"
  let ?P = "\<lambda>r t. \<not> r \<and> in_cons t \<and> input_ok (the_input t) \<and> uart_bytes t = [] \<and>
    console_line (the_input t) = fold (\<lambda>b. type_char (uint b)) (uart_bytes s) (console_line (the_input s))"
  note b = Cons.hyps(2) [symmetric]
  have "uint b \<noteq> 16" using Cons.prems(4) b word_uint_eq_iff [of b 16] by auto
  moreover have "0 \<le> uint b" "uint b < 256" using uint_bounded [of b] by simp_all
  ultimately have c: "runs (console_char (uint b)) ?t (\<lambda>r t. \<not> r \<and> in_cons t \<and> input_ok (the_input t) \<and> same_uart ?t t \<and>
     console_line (the_input t) = type_char (uint b) (console_line (the_input ?t)))"
    using console_char_runs [of ?t "uint b"] Cons.prems by (simp add: in_cons_upd)
  have n: "runs (consoleintr_loop (Suc (length bs)) uartgetc False) t ?P"
    if t: "in_cons t" "input_ok (the_input t)" "same_uart ?t t" "console_line (the_input t) = type_char (uint b) (console_line (the_input ?t))" for t
  proof -
    have u: "uart_bytes t = bs" "uart (cons t)" using t(3) Cons.prems(3) by (simp_all add: same_uart_def)
    have "16 \<notin> set bs" using Cons.prems(4) b by simp
    then show ?thesis using Cons.hyps(1) [of t] t u b by simp
  qed
  have "runs (console_char (uint b)) ?t (\<lambda>r t. runs (consoleintr_loop (Suc (length bs)) uartgetc (False \<or> r)) t ?P)"
    by (rule runs_weaken [OF c]) (use n in auto)
  then show ?case using Cons.prems(3) by (simp add: kern uartgetc_def b del: consoleintr_loop.simps(2) add: consoleintr_loop.simps(2) [of "Suc (length bs)"])
qed


text \<open>What a read of \<open>n\<close> bytes takes: up to the end of the line, or to a control-D, which ends the read and
  stays for the next one if some byte was taken; \<open>None\<close> when the reader has to wait.\<close>

fun read_line :: "bool \<Rightarrow> nat \<Rightarrow> uchar list \<Rightarrow> (uchar list \<times> uchar list) option" where
  "read_line some 0 q = Some ([], q)"
| "read_line some (Suc n) [] = None"
| "read_line some (Suc n) (c # q) =
    (if c = 4 then Some ([], if some then c # q else q)
     else if c = 10 then Some ([c], q)
     else map_option (\<lambda>(got, rest). (c # got, rest)) (read_line True n q))"

lemma in_proc_dev [simp]:
  "in_proc p s \<Longrightarrow> in_proc p (s\<lparr>the_input := x\<rparr>)" "in_proc p s \<Longrightarrow> in_proc p (s\<lparr>uart_bytes := bs\<rparr>)"
  unfolding in_proc_def by simp_all

lemma input_pop:
  assumes x: "input_ok x" and l: "console_line x = (c # q, edit)"
  shows "input_ok (x\<lparr>ir := ir x + 1\<rparr>)" "console_line (x\<lparr>ir := ir x + 1\<rparr>) = (q, edit)" "ibuf x ! (unat (ir x) mod INPUT_BUF) = c" "ir x \<noteq> iw x"
proof -
  have len: "unat (iw x - ir x) = Suc (length q)" "unat (ie x - ir x) = Suc (length q + length edit)" using line_lengths [OF x] l by simp_all
  then show ne: "ir x \<noteq> iw x" by auto
  have re: "ir x \<noteq> ie x" using len by auto
  have w: "unat (iw x - (ir x + 1)) = length q" "unat (ie x - (ir x + 1)) = length q + length edit"
    using unat_minus_one [of "iw x - ir x"] unat_minus_one [of "ie x - ir x"] ne re len by (simp_all add: diff_diff_eq)
  then show "input_ok (x\<lparr>ir := ir x + 1\<rparr>)" using x len by (simp add: input_ok_def)
  have t: "typed_ahead x = ibuf x ! (unat (ir x) mod INPUT_BUF) # typed_ahead (x\<lparr>ir := ir x + 1\<rparr>)"
    using input_ring.content_pop [OF re] by (simp add: typed_ahead_def)
  show "console_line (x\<lparr>ir := ir x + 1\<rparr>) = (q, edit)" "ibuf x ! (unat (ir x) mod INPUT_BUF) = c"
    using l w len by (simp_all add: console_line_def t)
qed

lemma ready_empty: "input_ok x \<Longrightarrow> ir x = iw x \<longleftrightarrow> fst (console_line x) = []"
  using line_lengths(1) [of x] length_0_conv [of "fst (console_line x)"] by (auto simp: unat_eq_zero)

lemma consoleread_loop_Done:
  "in_proc p s \<Longrightarrow> input_ok (the_input s) \<Longrightarrow> read_line (n < target) n (fst (console_line (the_input s))) = Some (got, rest) \<Longrightarrow> n \<le> target \<Longrightarrow>
   \<exists>x'. input_ok x' \<and> console_line x' = (rest, snd (console_line (the_input s))) \<and> length got \<le> n \<and>
     consoleread_loop ip target acc n (acquired Lk_cons s) =
     consoleread_end ip target (n - length got) (acc @ got) (acquired Lk_cons (s\<lparr>the_input := x'\<rparr>))"
proof (induction n arbitrary: s acc got)
  case 0
  then show ?case by (intro exI [of _ "the_input s"]) (auto simp: prod_eq_iff)
next
  case (Suc n)
  let ?x = "the_input s" and ?x' = "(the_input s)\<lparr>ir := ir (the_input s) + 1\<rparr>"
  obtain c q edit where l: "console_line ?x = (c # q, edit)" using Suc.prems(3) by (cases "console_line ?x"; cases "fst (console_line ?x)") auto
  note pop = input_pop [OF Suc.prems(2) l]
  consider "c = 4" | "c = 10" | "c \<noteq> 4" "c \<noteq> 10" by blast
  then show ?case
  proof cases
    case 1
    then show ?thesis using Suc.prems l pop
      by (intro exI [of _ "if Suc n < target then ?x else ?x'"]) (auto simp: kern_defs Let_def)
  next
    case 2
    then show ?thesis using Suc.prems l pop by (intro exI [of _ ?x']) (auto simp: kern_defs Let_def)
  next
    case 3
    then obtain g where g: "got = c # g" "read_line True n q = Some (g, rest)" using Suc.prems(3) l by auto
    have "n < target" using Suc.prems(4) by simp
    with Suc.IH [of "s\<lparr>the_input := ?x'\<rparr>" g "acc @ [c]"] obtain x' where 
      "input_ok x'" "console_line x' = (rest, edit)" "length g \<le> n"
      "consoleread_loop ip target (acc @ [c]) n (acquired Lk_cons (s\<lparr>the_input := ?x'\<rparr>)) =
       consoleread_end ip target (n - length g) ((acc @ [c]) @ g) (acquired Lk_cons (s\<lparr>the_input := x'\<rparr>))"
      using Suc.prems g pop by auto
    moreover have "uint c \<noteq> 4" using 3 by (simp add: word_uint_eq_iff)
    ultimately show ?thesis using 3 g l pop by (intro exI [of _ x']) (simp add: kern_defs Let_def)
  qed
qed


lemma consoleread_loop_waits:
  "in_proc p s \<Longrightarrow> depth s = 0 \<Longrightarrow> input_ok (the_input s) \<Longrightarrow> read_line (n < target) n (fst (console_line (the_input s))) = None \<Longrightarrow> n \<le> target \<Longrightarrow>
   \<not> killed (proc_at p s) \<Longrightarrow>
   \<exists>x'. input_ok x' \<and> console_line x' = ([], snd (console_line (the_input s))) \<and>
     consoleread_loop ip target acc n (acquired Lk_cons s) = Switches (asleep Chan_input Lk_cons p (acquired Lk_cons (s\<lparr>the_input := x'\<rparr>)))"
proof (induction n arbitrary: s acc)
  case 0
  then show ?case by simp
next
  case (Suc n)
  let ?x = "the_input s" and ?x' = "(the_input s)\<lparr>ir := ir (the_input s) + 1\<rparr>"
  show ?case
  proof (cases "fst (console_line ?x)")
    case Nil
    have "sleep Chan_input Lk_cons (acquired Lk_cons s) = (Switches (asleep Chan_input Lk_cons p (acquired Lk_cons s)) :: (int \<times> uchar list, 'a kdev_scheme) outcome)"
      using Suc.prems(1,2) by (intro sleep_Switches) auto
    moreover have "curproc (acquired Lk_cons s) = Done p (acquired Lk_cons s)"
      using Suc.prems(1) by (intro curproc_acquired) (auto dest: in_procD)
    ultimately show ?thesis using Suc.prems Nil ready_empty [OF Suc.prems(3)]
      by (intro exI [of _ ?x]) (auto simp: kern_defs prod_eq_iff)
  next
    case (Cons c q)
    then have l: "console_line ?x = (c # q, snd (console_line ?x))" by (simp add: prod_eq_iff)
    note pop = input_pop [OF Suc.prems(3) l]
    have c: "c \<noteq> 4" "c \<noteq> 10" "read_line True n q = None" using Suc.prems(4) Cons by (auto split: if_splits)
    have "n < target" using Suc.prems(5) by simp
    with Suc.IH [of "s\<lparr>the_input := ?x'\<rparr>" "acc @ [c]"] obtain x' where
      "input_ok x'" "console_line x' = ([], snd (console_line ?x))"
      "consoleread_loop ip target (acc @ [c]) n (acquired Lk_cons (s\<lparr>the_input := ?x'\<rparr>)) =
       Switches (asleep Chan_input Lk_cons p (acquired Lk_cons (s\<lparr>the_input := x'\<rparr>)))"
      using Suc.prems c pop by auto
    moreover have "uint c \<noteq> 4" using c by (simp add: word_uint_eq_iff)
    ultimately show ?thesis using c pop by (intro exI [of _ x']) (simp add: kern_defs Let_def)
  qed
qed

lemma the_input_unlocked [simp]: "the_input (unlocked_inode ip s) = the_input s"
  by (simp add: unlocked_inode_def upd_slock_def)

text \<open>C5. The console driver is a queue of lines. The serial interrupt feeds every byte that has arrived
  through the line discipline: printable bytes extend the line being edited, control-H and control-U erase,
  and a newline, a control-D or a full buffer hands the line over. A read takes what \<open>read_line\<close> says from the
  lines handed over and leaves the line being edited alone, or goes to sleep with nothing left to take.\<close>

theorem console_line_discipline:
  assumes s: "in_proc p s" "depth s = 0" "cons_ok (cons s)" "input_ok (the_input s)"
  shows "(uart (cons s) \<and> 16 \<notin> set (uart_bytes s) \<longrightarrow> runs uartintr s (\<lambda>_ t. input_ok (the_input t) \<and> uart_bytes t = [] \<and>
      console_line (the_input t) = fold (\<lambda>b. type_char (uint b)) (uart_bytes s) (console_line (the_input s)))) \<and>
    (inode_locked p ip s \<and> 0 \<le> n \<longrightarrow> (case read_line False (nat n) (fst (console_line (the_input s))) of
       Some (got, rest) \<Rightarrow> runs (consoleread ip n) s (\<lambda>(r, out) t. out = got \<and> r = int (length got) \<and> input_ok (the_input t) \<and>
         console_line (the_input t) = (rest, snd (console_line (the_input s))))
     | None \<Rightarrow> \<not> killed (proc_at p s) \<longrightarrow> (\<exists>t. consoleread ip n s = Switches t \<and> pstate (proc_at p t) = SLEEPING \<and>
         pchan (proc_at p t) = Some Chan_input \<and> input_ok (the_input t) \<and> console_line (the_input t) = ([], snd (console_line (the_input s))))))"
proof (intro conjI impI)
  assume u: "uart (cons s) \<and> 16 \<notin> set (uart_bytes s)"
  have "in_cons (acquired Lk_cons s)" using s by (auto simp: in_cons_def ptable_ready_def)
  then have "runs (consoleintr_loop (Suc (length (uart_bytes s))) uartgetc False) (acquired Lk_cons s) (\<lambda>r t. \<not> r \<and> in_cons t \<and>
     input_ok (the_input t) \<and> uart_bytes t = [] \<and> console_line (the_input t) = fold (\<lambda>b. type_char (uint b)) (uart_bytes s) (console_line (the_input s)))"
    using consoleintr_loop_runs [of "acquired Lk_cons s"] s u by simp
  then show "runs uartintr s (\<lambda>_ t. input_ok (the_input t) \<and> uart_bytes t = [] \<and>
      console_line (the_input t) = fold (\<lambda>b. type_char (uint b)) (uart_bytes s) (console_line (the_input s)))"
    using s(1) by (auto simp: uartintr_def consoleintr_def kern runs_Done acquire_Done in_cons_def ptable_ready_def release_Done
       simp del: consoleintr_loop.simps elim!: runs_weaken)
next
  assume h: "inode_locked p ip s \<and> 0 \<le> n"
  let ?s = "unlocked_inode ip s"
  have i: "in_proc p ?s" "depth ?s = 0" "input_ok (the_input ?s)" using s by simp_all
  have idle: "idle ?s" using i(1) by (rule in_procD(1))
  have run: "consoleread ip n s = consoleread_loop ip (nat n) [] (nat n) (acquired Lk_cons ?s)"
    using s(1) idle h by (simp add: consoleread_def kern_defs iunlock_Done acquire_Done)
  show "case read_line False (nat n) (fst (console_line (the_input s))) of
       Some (got, rest) \<Rightarrow> runs (consoleread ip n) s (\<lambda>(r, out) t. out = got \<and> r = int (length got) \<and> input_ok (the_input t) \<and>
         console_line (the_input t) = (rest, snd (console_line (the_input s))))
     | None \<Rightarrow> \<not> killed (proc_at p s) \<longrightarrow> (\<exists>t. consoleread ip n s = Switches t \<and> pstate (proc_at p t) = SLEEPING \<and>
         pchan (proc_at p t) = Some Chan_input \<and> input_ok (the_input t) \<and> console_line (the_input t) = ([], snd (console_line (the_input s))))"
  proof (cases "read_line False (nat n) (fst (console_line (the_input s)))")
    case None
    show ?thesis
    proof (cases "killed (proc_at p s)")
      case False
      with consoleread_loop_waits [OF i, of "nat n" "nat n" ip "[]"] None s(1) obtain x' where
        "input_ok x'" "console_line x' = ([], snd (console_line (the_input s)))"
        "consoleread ip n s = Switches (asleep Chan_input Lk_cons p (acquired Lk_cons (?s\<lparr>the_input := x'\<rparr>)))"
        by (auto simp: run)
      then show ?thesis using None in_procD(3) [OF i(1)] in_procD(4) [OF i(1)] by (simp add: asleep_def upd_proc_def)
    qed (simp add: None)
  next
    case (Some gr)
    obtain got rest where gr: "gr = (got, rest)" by (cases gr)
    from consoleread_loop_Done [OF i(1,3), of "nat n" "nat n" got rest ip "[]"] Some gr obtain x' where
      x': "input_ok x'" "console_line x' = (rest, snd (console_line (the_input s)))" "length got \<le> nat n"
      "consoleread ip n s = consoleread_end ip (nat n) (nat n - length got) got (acquired Lk_cons (?s\<lparr>the_input := x'\<rparr>))"
      by (auto simp: run)
    have "release Lk_cons (acquired Lk_cons (?s\<lparr>the_input := x'\<rparr>)) = Done () (?s\<lparr>the_input := x'\<rparr>)"
      using idle s(2) by (simp add: release_Done)
    moreover obtain t where t: "ilock (Some ip) (?s\<lparr>the_input := x'\<rparr>) = Done () t" "the_input t = x'"
      using i h ilock_valid_Done [of p "?s\<lparr>the_input := x'\<rparr>" ip] by (auto simp: inode_locked_def upd_slock_def)
    ultimately have "consoleread ip n s = Done (int (length got), got) t"
      using x'(3,4) by (simp add: consoleread_end_def kern_defs)
    with t(2) show ?thesis using Some gr x' by (simp add: runs_Done)
  qed
qed


text \<open>A buffer whose counters are about to wrap around, with the line \<open>ok\<close> in it, and five bytes at the port.\<close>

definition demo_input :: input where
  "demo_input = \<lparr>ibuf = (replicate INPUT_BUF 0)[126 := 0x6F, 127 := 0x6B, 0 := 0x0A], ir = - 2, iw = 1, ie = 1\<rparr>"

definition console_demo :: kdev where
  "console_demo = boot \<lparr>slocks = (\<lambda>_. \<lparr>slocked = True, sl_name = [], sl_pid = 1\<rparr>), bcache = [], memdisk = [], dwrites = [], the_log = boot_log,
     pipes = (\<lambda>_. \<lparr>pdata = [], nread = 0, nwrite = 0, readopen = False, writeopen = False\<rparr>),
     icache = replicate NINODE (blank_inode\<lparr>i_ref := 1, i_valid := True\<rparr>), the_sb = dec_superblock (replicate BSIZE 0), the_input = demo_input,
     the_devsw = [], kbd_shift = 0, kbd_bytes = [], uart_bytes = [0x68, 0x78, 8, 0x69, 13],
     uart_lsr = 0, uart_ctl = [], ioapic = (\<lambda>_. 0), ioapicid = 0\<rparr>"

lemma console_demo_facts [simp]:
  "the_input console_demo = demo_input" "uart_bytes console_demo = [0x68, 0x78, 8, 0x69, 13]" "in_proc 0 console_demo" "depth console_demo = 0"
  "cons console_demo = cons demo" "inode_locked 0 0 console_demo"
  by (simp_all add: console_demo_def inode_locked_def) (simp_all add: boot_def kproc.defs NINODE_def demo_procs_def)

lemma demo_input_facts: "input_ok demo_input" "console_line demo_input = ([0x6F, 0x6B, 0x0A], [])"
  by (simp_all add: demo_input_def input_ok_def console_line_def typed_ahead_def ring_content_def INPUT_BUF_def upt_rec)

theorem console_line_discipline_witness:
  "runs uartintr console_demo (\<lambda>_ t. console_line (the_input t) = ([0x6F, 0x6B, 0x0A, 0x68, 0x69, 0x0A], [])) \<and>
   runs (consoleread 0 10) console_demo (\<lambda>(r, out) t. r = 3 \<and> out = [0x6F, 0x6B, 0x0A] \<and> console_line (the_input t) = ([], []))"
proof -
  have f: "fold (\<lambda>b. type_char (uint b)) [0x68, 0x78, 8, 0x69, 13 :: uchar] ([0x6F, 0x6B, 0x0A], []) = ([0x6F, 0x6B, 0x0A, 0x68, 0x69, 0x0A], [])"
    "read_line False 10 [0x6F, 0x6B, 0x0A] = Some ([0x6F, 0x6B, 0x0A], [])" "16 \<notin> set [0x68, 0x78, 8, 0x69, 13 :: uchar]"
    by code_simp+
  have "cons_ok (cons console_demo)" "uart (cons console_demo)" by (simp_all add: cons_ok_def demo_def)
  then show ?thesis
    using console_line_discipline [of 0 console_demo 0 10] f by (auto simp: demo_input_facts elim!: runs_weaken)
qed

end
