(* ===== verification/Fs.thy ===== *)
theory Fs
  imports Devices
begin

text \<open>
  The upper half of the file system, \<^verbatim>\<open>src/fs.c\<close> from \<^verbatim>\<open>readi\<close> on: reading and writing the contents of an inode,
  directories, and path names.

  Data passes through lists of bytes: \<^verbatim>\<open>readi\<close> returns what it copies to its destination, \<^verbatim>\<open>writei\<close> gets what it
  copies from its source. A path is the list of its bytes before the terminating zero; a name is the array of
  \<^verbatim>\<open>DIRSIZ\<close> bytes the source passes around, in which a shorter name ends at its first zero.
\<close>

definition DIRSIZ :: nat where "DIRSIZ = 14"
definition sizeof_dirent :: nat where "sizeof_dirent = 2 + DIRSIZ"

subsection \<open>Strings in arrays\<close>

text \<open>Byte \<open>i\<close> of a C string; the zero at its end is not stored.\<close>

definition at0 :: "uchar list \<Rightarrow> nat \<Rightarrow> uchar" where
  "at0 xs i = (if i < length xs then xs ! i else 0)"

text \<open>\<^verbatim>\<open>strncmp\<close> and \<^verbatim>\<open>strncpy\<close> on byte lists; the lemmas below connect them with the routines on memory.\<close>

primrec strncmp_list :: "nat \<Rightarrow> uchar list \<Rightarrow> uchar list \<Rightarrow> int" where
  "strncmp_list 0 s t = 0"
| "strncmp_list (Suc n) s t =
    (if at0 s 0 \<noteq> 0 \<and> at0 s 0 = at0 t 0 then strncmp_list n (tl s) (tl t)
     else uint (at0 s 0) - uint (at0 t 0))"

definition cut0 :: "uchar list \<Rightarrow> uchar list" where
  "cut0 xs = takeWhile (\<lambda>c. c \<noteq> 0) xs"

definition strncpy_list :: "nat \<Rightarrow> uchar list \<Rightarrow> uchar list" where
  "strncpy_list n t = take n (cut0 t @ replicate n 0)"

lemma at0_Cons [simp]: "at0 (x # xs) 0 = x" "at0 (x # xs) (Suc i) = at0 xs i" "at0 [] i = 0"
  by (simp_all add: at0_def)

lemma cut0_Cons [simp]: "cut0 (x # xs) = (if x = 0 then [] else x # cut0 xs)" "cut0 [] = []"
  by (simp_all add: cut0_def)

lemma strncmp_list_bytes: "strncmp p q n m = strncmp_list (unat n) (bytes m p (unat n)) (bytes m q (unat n))"
proof -
  have "strncmp_loop k p q m = strncmp_list k (bytes m p k) (bytes m q k)" for k
    by (induction k arbitrary: p q) (simp_all add: bytes_Suc)
  then show ?thesis by (simp add: strncmp_def)
qed

lemma strncmp_list_zero: "strncmp_list n s t = 0 \<longleftrightarrow> take n (cut0 s) = take n (cut0 t)"
proof (induction n arbitrary: s t)
  case (Suc n)
  show ?case
    by (cases s; cases t) (auto simp: Suc.IH uint_byte_eq)
qed simp

lemma length_strncpy_list [simp]: "length (strncpy_list n t) = n"
  by (simp add: strncpy_list_def)

lemma cut0_append_zero: "cut0 (xs @ 0 # ys) = cut0 xs"
  by (induction xs) simp_all

lemma cut0_cut0 [simp]: "cut0 (cut0 xs) = cut0 xs"
  by (induction xs) simp_all

lemma cut0_replicate: "cut0 (xs @ replicate n 0) = cut0 xs"
  by (cases n) (simp_all add: cut0_append_zero)

lemma cut0_take: "cut0 (take n xs) = take n (cut0 xs)"
  by (induction xs arbitrary: n) (simp_all add: take_Cons split: nat.split)

lemma cut0_strncpy [simp]: "cut0 (strncpy_list n t) = take n (cut0 t)"
  by (simp add: strncpy_list_def cut0_take cut0_replicate)

subsection \<open>Inode contents\<close>

definition dev_read_call :: "devfn \<Rightarrow> nat \<Rightarrow> int \<Rightarrow> ('x kdev_scheme, int \<times> uchar list) kern" where
  "dev_read_call f ip n = (case f of Fn_consoleread \<Rightarrow> consoleread ip n | Fn_consolewrite \<Rightarrow> undef ''devsw read'')"

definition dev_write_call :: "devfn \<Rightarrow> nat \<Rightarrow> uchar list \<Rightarrow> int \<Rightarrow> ('x kdev_scheme, int) kern" where
  "dev_write_call f ip bs n = (case f of Fn_consolewrite \<Rightarrow> consolewrite ip bs n | Fn_consoleread \<Rightarrow> undef ''devsw write'')"

text \<open>The copy loop of \<^verbatim>\<open>readi\<close> with \<open>n\<close> bytes still to read.\<close>

function readi_loop :: "nat \<Rightarrow> uint \<Rightarrow> nat \<Rightarrow> ('x kdev_scheme, uchar list) kern" where
  "readi_loop ip off n = (if n = 0 then ret [] else
     bnd (bmap ip (off div of_nat BSIZE)) (\<lambda>addr.
     bnd (gets (\<lambda>s. i_dev (inode_at ip s))) (\<lambda>dev.
     bnd (bread dev addr) (\<lambda>bp.
     let m = min n (BSIZE - unat off mod BSIZE) in
     bnd (buf_data bp) (\<lambda>d.
     sq (brelse bp) (
     bnd (readi_loop ip (off + of_nat m) (n - m)) (\<lambda>rest.
     ret (get_bytes (unat off mod BSIZE) m d @ rest))))))))"
  by pat_completeness auto
termination
  by (relation "measure (\<lambda>(ip, off, n). n)") (auto simp: BSIZE_def intro!: diff_less)

declare readi_loop.simps [simp del]

definition readi :: "nat \<Rightarrow> uint \<Rightarrow> uint \<Rightarrow> ('x kdev_scheme, int \<times> uchar list) kern" where
  "readi ip off n = bnd (gets (inode_at ip)) (\<lambda>x.
     if itype x = T_DEV then
       (if sint (major x) < 0 \<or> sint (major x) \<ge> int NDEV then ret (-1, [])
        else bnd (gets (\<lambda>s. dev_read (the_devsw s ! unat (major x)))) (\<lambda>f. case f of
            None \<Rightarrow> ret (-1, [])
          | Some f \<Rightarrow> dev_read_call f ip (sint n)))
     else if off > isize x \<or> off + n < off then ret (-1, [])
     else let n = (if off + n > isize x then isize x - off else n) in
       bnd (readi_loop ip off (unat n)) (\<lambda>bs. ret (sint n, bs)))"

function writei_loop :: "nat \<Rightarrow> uint \<Rightarrow> uchar list \<Rightarrow> ('x kdev_scheme, unit) kern" where
  "writei_loop ip off bs = (if bs = [] then ret () else
     bnd (bmap ip (off div of_nat BSIZE)) (\<lambda>addr.
     bnd (gets (\<lambda>s. i_dev (inode_at ip s))) (\<lambda>dev.
     bnd (bread dev addr) (\<lambda>bp.
     let m = min (length bs) (BSIZE - unat off mod BSIZE) in
     sq (upd_data bp (put_bytes (unat off mod BSIZE) (take m bs))) (
     sq (log_write bp) (
     sq (brelse bp) (
     writei_loop ip (off + of_nat m) (drop m bs))))))))"
  by pat_completeness auto
termination
  by (relation "measure (\<lambda>(ip, off, bs). length bs)") (auto simp: BSIZE_def intro!: diff_less)

declare writei_loop.simps [simp del]

definition writei :: "nat \<Rightarrow> uchar list \<Rightarrow> uint \<Rightarrow> uint \<Rightarrow> ('x kdev_scheme, int) kern" where
  "writei ip src off n = bnd (gets (inode_at ip)) (\<lambda>x.
     if itype x = T_DEV then
       (if sint (major x) < 0 \<or> sint (major x) \<ge> int NDEV then ret (-1)
        else bnd (gets (\<lambda>s. dev_write (the_devsw s ! unat (major x)))) (\<lambda>f. case f of
            None \<Rightarrow> ret (-1)
          | Some f \<Rightarrow> dev_write_call f ip src (sint n)))
     else if off > isize x \<or> off + n < off then ret (-1)
     else if off + n > of_nat (MAXFILE * BSIZE) then ret (-1)
     else sq (writei_loop ip off (take (unat n) src)) (
       bnd (gets (\<lambda>s. isize (inode_at ip s))) (\<lambda>dsize.
       sq (whenM (n > 0 \<and> off + n > dsize) (
         sq (modify (upd_inode ip (\<lambda>x. x\<lparr>isize := off + n\<rparr>))) (iupdate ip)))
          (ret (sint n)))))"

subsection \<open>Directories\<close>

record dirent =
  de_inum :: ushort
  de_name :: "uchar list"

definition dec_dirent :: "uchar list \<Rightarrow> dirent" where
  "dec_dirent d = \<lparr>de_inum = get16 d 0, de_name = get_bytes 2 DIRSIZ d\<rparr>"

definition enc_dirent :: "dirent \<Rightarrow> uchar list" where
  "enc_dirent de = enc16 (de_inum de) @ de_name de"

definition namecmp :: "uchar list \<Rightarrow> uchar list \<Rightarrow> int" where
  "namecmp s t = strncmp_list DIRSIZ s t"

text \<open>The offsets the loops over a directory of \<open>dsize\<close> bytes visit. (For a size in the last 16 bytes of
  the address range the increment would wrap, but \<^verbatim>\<open>readi\<close> fails there first.)\<close>

definition dirent_offs :: "uint \<Rightarrow> uint list" where
  "dirent_offs dsize = map (\<lambda>k. of_nat (sizeof_dirent * k)) [0..<(unat dsize + sizeof_dirent - 1) div sizeof_dirent]"

definition read_dirent :: "string \<Rightarrow> nat \<Rightarrow> uint \<Rightarrow> ('x kdev_scheme, dirent) kern" where
  "read_dirent msg dp off = bnd (readi dp off (of_nat sizeof_dirent)) (\<lambda>(r, bs).
     if r \<noteq> int sizeof_dirent then panic msg else ret (dec_dirent bs))"

primrec dirlookup_loop :: "nat \<Rightarrow> uchar list \<Rightarrow> uint list \<Rightarrow> ('x kdev_scheme, (nat \<times> uint) option) kern" where
  "dirlookup_loop dp name [] = ret None"
| "dirlookup_loop dp name (off # offs) = bnd (read_dirent ''dirlookup read'' dp off) (\<lambda>de.
     if de_inum de = 0 then dirlookup_loop dp name offs
     else if namecmp name (de_name de) = 0 then
       bnd (gets (\<lambda>s. i_dev (inode_at dp s))) (\<lambda>dev.
       bnd (iget dev (ucast (de_inum de))) (\<lambda>ip. ret (Some (ip, off))))
     else dirlookup_loop dp name offs)"

text \<open>The result is the inode and the offset the source stores through \<^verbatim>\<open>poff\<close>.\<close>

definition dirlookup :: "nat \<Rightarrow> uchar list \<Rightarrow> ('x kdev_scheme, (nat \<times> uint) option) kern" where
  "dirlookup dp name = bnd (gets (inode_at dp)) (\<lambda>x.
     if itype x \<noteq> T_DIR then panic ''dirlookup not DIR''
     else dirlookup_loop dp name (dirent_offs (isize x)))"

text \<open>The search of \<^verbatim>\<open>dirlink\<close> for an empty entry: its offset, or the offset after the last entry.\<close>

primrec empty_dirent :: "nat \<Rightarrow> uint \<Rightarrow> uint list \<Rightarrow> ('x kdev_scheme, uint) kern" where
  "empty_dirent dp end_off [] = ret end_off"
| "empty_dirent dp end_off (off # offs) = bnd (read_dirent ''dirlink read'' dp off) (\<lambda>de.
     if de_inum de = 0 then ret off else empty_dirent dp (off + of_nat sizeof_dirent) offs)"

definition dirlink :: "nat \<Rightarrow> uchar list \<Rightarrow> uint \<Rightarrow> ('x kdev_scheme, int) kern" where
  "dirlink dp name inum = bnd (dirlookup dp name) (\<lambda>r. case r of
       Some (ip, _) \<Rightarrow> sq (iput ip) (ret (-1))
     | None \<Rightarrow>
         bnd (gets (\<lambda>s. isize (inode_at dp s))) (\<lambda>dsize.
         bnd (empty_dirent dp 0 (dirent_offs dsize)) (\<lambda>off.
         let de = \<lparr>de_inum = ucast inum, de_name = strncpy_list DIRSIZ name\<rparr> in
         bnd (writei dp (enc_dirent de) off (of_nat sizeof_dirent)) (\<lambda>r.
         if r \<noteq> int sizeof_dirent then panic ''dirlink'' else ret 0))))"

subsection \<open>Paths\<close>

abbreviation slash :: uchar where "slash \<equiv> 47"

definition skipelem :: "uchar list \<Rightarrow> uchar list \<Rightarrow> (uchar list \<times> uchar list) option" where
  "skipelem path name =
    (let path = dropWhile (\<lambda>c. c = slash) path in
     if path = [] then None
     else let s = takeWhile (\<lambda>c. c \<noteq> slash) path;
              path = dropWhile (\<lambda>c. c \<noteq> slash) path;
              len = length s;
              name = (if len \<ge> DIRSIZ then put_bytes 0 (take DIRSIZ s) name else put_bytes 0 (s @ [0]) name)
          in Some (dropWhile (\<lambda>c. c = slash) path, name))"

lemma skipelem_shorter: "skipelem path name = Some (path', name') \<Longrightarrow> length path' < length path"
proof -
  assume a: "skipelem path name = Some (path', name')"
  let ?p = "dropWhile (\<lambda>c. c = slash) path"
  have ne: "?p \<noteq> []" using a by (auto simp: skipelem_def Let_def split: if_splits)
  then have "hd ?p \<noteq> slash" by (rule hd_dropWhile)
  then obtain c cs where c: "?p = c # cs" "c \<noteq> slash" using ne by (cases ?p) auto
  have "path' = dropWhile (\<lambda>c. c = slash) (dropWhile (\<lambda>c. c \<noteq> slash) cs)"
    using a c by (auto simp: skipelem_def Let_def split: if_splits)
  then have "length path' \<le> length cs"
    using length_dropWhile_le [of "\<lambda>c. c = slash" "dropWhile (\<lambda>c. c \<noteq> slash) cs"]
      length_dropWhile_le [of "\<lambda>c. c \<noteq> slash" cs] by simp
  moreover have "length ?p \<le> length path" by (rule length_dropWhile_le)
  ultimately show ?thesis using c(1) by simp
qed

text \<open>The loop of \<^verbatim>\<open>namex\<close> from the inode \<open>ip\<close> on; the result includes the name array.\<close>

function namex_loop :: "uchar list \<Rightarrow> bool \<Rightarrow> uchar list \<Rightarrow> nat \<Rightarrow> ('x kdev_scheme, nat option \<times> uchar list) kern" where
  "namex_loop path nameiparent name ip = (case skipelem path name of
       None \<Rightarrow> if nameiparent then sq (iput ip) (ret (None, name)) else ret (Some ip, name)
     | Some (path', name') \<Rightarrow>
         sq (ilock (Some ip)) (
         bnd (gets (inode_at ip)) (\<lambda>x.
         if itype x \<noteq> T_DIR then sq (iunlockput ip) (ret (None, name'))
         else if nameiparent \<and> path' = [] then sq (iunlock (Some ip)) (ret (Some ip, name'))
         else bnd (dirlookup ip name') (\<lambda>r. case r of
             None \<Rightarrow> sq (iunlockput ip) (ret (None, name'))
           | Some (next, _) \<Rightarrow> sq (iunlockput ip) (namex_loop path' nameiparent name' next)))))"
  by pat_completeness auto
termination
  by (relation "measure (\<lambda>(path, _, _, _). length path)") (auto simp: skipelem_shorter)

declare namex_loop.simps [simp del]

definition namex :: "uchar list \<Rightarrow> bool \<Rightarrow> uchar list \<Rightarrow> ('x kdev_scheme, nat option \<times> uchar list) kern" where
  "namex path nameiparent name =
     bnd (if at0 path 0 = slash then iget ROOTDEV ROOTINO
          else bnd curproc (\<lambda>p. bnd (gets (\<lambda>s. cwd (proc_at p s))) (\<lambda>d. case d of
              None \<Rightarrow> undef ''null inode''
            | Some ip \<Rightarrow> idup ip)))
       (namex_loop path nameiparent name)"

text \<open>The array \<^verbatim>\<open>name\<close> of \<^verbatim>\<open>namei\<close> is not initialised by the source; only the part up to its first zero byte, which
  \<^verbatim>\<open>skipelem\<close> writes, is ever read.\<close>

definition namei :: "uchar list \<Rightarrow> ('x kdev_scheme, nat option) kern" where
  "namei path = bnd (namex path False (replicate DIRSIZ 0)) (\<lambda>(r, _). ret r)"

definition nameiparent :: "uchar list \<Rightarrow> uchar list \<Rightarrow> ('x kdev_scheme, nat option \<times> uchar list) kern" where
  "nameiparent path name = namex path True name"

end
