(* ===== verification/File.thy ===== *)
theory File
  imports Fs
begin

text \<open>
  Open files, \<^verbatim>\<open>src/file.c\<close>, and \<^verbatim>\<open>pipealloc\<close> of \<^verbatim>\<open>src/pipe.c\<close>. A pointer to a \<^verbatim>\<open>struct file\<close> is its position in
  \<^verbatim>\<open>ftable.file\<close>. The state also has the clock \<^verbatim>\<open>ticks\<close> of \<^verbatim>\<open>src/trap.c\<close> and the flag
  \<^verbatim>\<open>first\<close> of \<^verbatim>\<open>forkret\<close>.
\<close>

definition NFILE :: nat where "NFILE = 100"

datatype filetype = FD_NONE | FD_PIPE | FD_INODE

record file_struct =
  f_type :: filetype
  f_ref :: int
  readable :: bool
  writable :: bool
  f_pipe :: uint
  f_ip :: "nat option"
  f_off :: uint

record kfile = kdev +
  ftable :: "file_struct list"
  ticks :: uint
  forkret_first :: bool
  eois :: nat          \<comment> \<open>interrupts acknowledged to the local APIC\<close>
  hw_cr2 :: uint       \<comment> \<open>address of the last page fault\<close>

interpretation ftable_field: component_field ftable ftable_update
  by unfold_locales simp_all

interpretation ticks_field: component_field ticks ticks_update
  by unfold_locales simp_all

abbreviation file_at :: "nat \<Rightarrow> 'x kfile_scheme \<Rightarrow> file_struct" where
  "file_at i s \<equiv> ftable s ! i"

definition upd_file :: "nat \<Rightarrow> (file_struct \<Rightarrow> file_struct) \<Rightarrow> 'x kfile_scheme \<Rightarrow> 'x kfile_scheme" where
  "upd_file i g s = s\<lparr>ftable := (ftable s)[i := g (ftable s ! i)]\<rparr>"

text \<open>Access through a pointer to an inode: undefined for null.\<close>

definition deref :: "nat option \<Rightarrow> ('s, nat) kern" where
  "deref p = (case p of None \<Rightarrow> undef ''null inode'' | Some i \<Rightarrow> ret i)"

subsection \<open>Operations\<close>

definition fileinit :: "('x kfile_scheme, unit) kern" where
  "fileinit = initlock Lk_ftable ''ftable''"

definition filealloc :: "('x kfile_scheme, nat option) kern" where
  "filealloc = sq (acquire Lk_ftable) (
     bnd (gets (\<lambda>s. first_index (\<lambda>f. f_ref f = 0) (ftable s))) (\<lambda>r. case r of
       Some f \<Rightarrow> sq (modify (upd_file f (\<lambda>x. x\<lparr>f_ref := 1\<rparr>))) (sq (release Lk_ftable) (ret (Some f)))
     | None \<Rightarrow> sq (release Lk_ftable) (ret None)))"

definition filedup :: "nat \<Rightarrow> ('x kfile_scheme, nat) kern" where
  "filedup f = sq (acquire Lk_ftable) (
     bnd (gets (file_at f)) (\<lambda>x.
     if f_ref x < 1 then panic ''filedup''
     else sq (modify (upd_file f (\<lambda>x. x\<lparr>f_ref := f_ref x + 1\<rparr>))) (sq (release Lk_ftable) (ret f))))"

definition fileclose :: "nat \<Rightarrow> ('x kfile_scheme, unit) kern" where
  "fileclose f = sq (acquire Lk_ftable) (
     bnd (gets (file_at f)) (\<lambda>x.
     if f_ref x < 1 then panic ''fileclose''
     else sq (modify (upd_file f (\<lambda>x. x\<lparr>f_ref := f_ref x - 1\<rparr>))) (
       bnd (gets (file_at f)) (\<lambda>ff.
       if f_ref ff > 0 then release Lk_ftable
       else sq (modify (upd_file f (\<lambda>x. x\<lparr>f_ref := 0, f_type := FD_NONE\<rparr>))) (
         sq (release Lk_ftable) (
         case f_type ff of
           FD_PIPE \<Rightarrow> pipeclose (f_pipe ff) (writable ff)
         | FD_INODE \<Rightarrow> sq begin_op (bnd (deref (f_ip ff)) (\<lambda>ip. sq (iput ip) end_op))
         | FD_NONE \<Rightarrow> ret ()))))))"

definition filestat :: "nat \<Rightarrow> ('x kfile_scheme, int \<times> stat option) kern" where
  "filestat f = bnd (gets (file_at f)) (\<lambda>x.
     if f_type x = FD_INODE then
       sq (ilock (f_ip x)) (
       bnd (deref (f_ip x)) (\<lambda>ip. bnd (gets (stati ip)) (\<lambda>st.
       sq (iunlock (f_ip x)) (ret (0, Some st)))))
     else ret (-1, None))"

definition fileread :: "nat \<Rightarrow> int \<Rightarrow> ('x kfile_scheme, int \<times> uchar list) kern" where
  "fileread f n = bnd (gets (file_at f)) (\<lambda>x.
     if \<not> readable x then ret (-1, [])
     else case f_type x of
       FD_PIPE \<Rightarrow> piperead (f_pipe x) n
     | FD_INODE \<Rightarrow>
         sq (ilock (f_ip x)) (
         bnd (deref (f_ip x)) (\<lambda>ip.
         bnd (gets (\<lambda>s. f_off (file_at f s))) (\<lambda>off.
         bnd (readi ip off (word_of_int n)) (\<lambda>(r, bs).
         sq (whenM (r > 0) (modify (upd_file f (\<lambda>x. x\<lparr>f_off := f_off x + word_of_int r\<rparr>)))) (
         sq (iunlock (f_ip x)) (ret (r, bs)))))))
     | FD_NONE \<Rightarrow> panic ''fileread'')"

text \<open>The bytes \<^verbatim>\<open>filewrite\<close> hands to one transaction.\<close>

definition write_max :: nat where "write_max = ((MAXOPBLOCKS - 1 - 1 - 2) div 2) * 512"

text \<open>The write loop: \<open>bs\<close> are the bytes still to write, \<open>i\<close> the number already written; the result is \<open>i\<close>.\<close>

function filewrite_loop :: "nat \<Rightarrow> uchar list \<Rightarrow> int \<Rightarrow> ('x kfile_scheme, int) kern" where
  "filewrite_loop f bs i = (if bs = [] then ret i else
     (let n1 = min (length bs) write_max in
      sq begin_op (
      bnd (gets (file_at f)) (\<lambda>x.
      sq (ilock (f_ip x)) (
      bnd (deref (f_ip x)) (\<lambda>ip.
      bnd (gets (\<lambda>s. f_off (file_at f s))) (\<lambda>off.
      bnd (writei ip (take n1 bs) off (of_nat n1)) (\<lambda>r.
      sq (whenM (r > 0) (modify (upd_file f (\<lambda>x. x\<lparr>f_off := f_off x + word_of_int r\<rparr>)))) (
      sq (iunlock (f_ip x)) (
      sq end_op (
      if r < 0 then ret i
      else if r \<noteq> int n1 then panic ''short filewrite''
      else filewrite_loop f (drop n1 bs) (i + r))))))))))))"
  by pat_completeness auto
termination
  by (relation "measure (\<lambda>(_, bs, _). length bs)") (auto simp: write_max_def MAXOPBLOCKS_def intro!: diff_less)

declare filewrite_loop.simps [simp del]

definition filewrite :: "nat \<Rightarrow> uchar list \<Rightarrow> int \<Rightarrow> ('x kfile_scheme, int) kern" where
  "filewrite f addr n = bnd (gets (file_at f)) (\<lambda>x.
     if \<not> writable x then ret (-1)
     else case f_type x of
       FD_PIPE \<Rightarrow> pipewrite (f_pipe x) (take (nat n) addr) n
     | FD_INODE \<Rightarrow> bnd (filewrite_loop f (take (nat n) addr) 0) (\<lambda>i. ret (if i = n then n else -1))
     | FD_NONE \<Rightarrow> panic ''filewrite'')"

subsection \<open>Making a pipe\<close>

text \<open>The data array of \<^verbatim>\<open>struct pipe\<close> follows its spin lock. The cleanup after the label \<^verbatim>\<open>bad\<close> closes what was
  allocated.\<close>

definition pipe_data_off :: uint where "pipe_data_off = 52"

definition pipealloc_bad :: "nat option \<Rightarrow> nat option \<Rightarrow> ('x kfile_scheme, int \<times> nat option \<times> nat option) kern" where
  "pipealloc_bad f0 f1 =
     sq (case f0 of None \<Rightarrow> ret () | Some f \<Rightarrow> fileclose f) (
     sq (case f1 of None \<Rightarrow> ret () | Some f \<Rightarrow> fileclose f) (
     ret (-1, f0, f1)))"

definition pipealloc :: "('x kfile_scheme, int \<times> nat option \<times> nat option) kern" where
  "pipealloc = bnd filealloc (\<lambda>f0. case f0 of
       None \<Rightarrow> pipealloc_bad None None
     | Some r \<Rightarrow> bnd filealloc (\<lambda>f1. case f1 of
         None \<Rightarrow> pipealloc_bad f0 None
       | Some w \<Rightarrow> bnd kalloc (\<lambda>p.
           if p = 0 then pipealloc_bad f0 f1
           else
             sq (modify (\<lambda>s. s\<lparr>pipes := (pipes s)(p := \<lparr>pdata = bytes (ram s) (p + pipe_data_off) PIPESIZE,
                  nread = 0, nwrite = 0, readopen = True, writeopen = True\<rparr>)\<rparr>)) (
             sq (initlock (pipe_lk p) ''pipe'') (
             sq (modify (upd_file r (\<lambda>x. x\<lparr>f_type := FD_PIPE, readable := True, writable := False, f_pipe := p\<rparr>))) (
             sq (modify (upd_file w (\<lambda>x. x\<lparr>f_type := FD_PIPE, readable := False, writable := True, f_pipe := p\<rparr>))) (
             ret (0, f0, f1))))))))"

subsection \<open>A concrete kernel\<close>

text \<open>The kernel of the earlier examples with empty tables: nothing is cached and no file is open.\<close>

definition blank_file :: file_struct where
  "blank_file = \<lparr>f_type = FD_NONE, f_ref = 0, readable = False, writable = False, f_pipe = 0, f_ip = None, f_off = 0\<rparr>"

definition file_boot :: "uchar list list \<Rightarrow> kfile" where
  "file_boot d = bio_boot d \<lparr>the_log = boot_log,
     pipes = (\<lambda>_. \<lparr>pdata = replicate PIPESIZE 0, nread = 0, nwrite = 0, readopen = False, writeopen = False\<rparr>),
     icache = replicate NINODE blank_inode, the_sb = dec_superblock (d ! 1),
     the_input = \<lparr>ibuf = replicate INPUT_BUF 0, ir = 0, iw = 0, ie = 0\<rparr>,
     the_devsw = replicate NDEV \<lparr>dev_read = None, dev_write = None\<rparr>, kbd_shift = 0, kbd_bytes = [], uart_bytes = [],
     uart_lsr = 0, uart_ctl = [], ioapic = (\<lambda>_. 0), ioapicid = 0,
     ftable = replicate NFILE blank_file, ticks = 7, forkret_first = False, eois = 0, hw_cr2 = 0\<rparr>"

end
