(* ===== verification/Exec.thy ===== *)
theory Exec
  imports Vm Sched File
begin

text \<open>
  \<^verbatim>\<open>exec\<close> of \<^verbatim>\<open>src/exec.c\<close> with \<^verbatim>\<open>loaduvm\<close> of \<^verbatim>\<open>src/vm.c\<close> and the file format of \<^verbatim>\<open>src/elf.h\<close>. The arguments are
  passed as the byte strings \<^verbatim>\<open>argv\<close> points to.
\<close>

definition MAXARG :: nat where "MAXARG = 32"

subsection \<open>Trap frames\<close>

text \<open>The fields of \<^verbatim>\<open>struct trapframe\<close> (\<^verbatim>\<open>src/x86.h\<close>) by their offsets.\<close>

datatype tf_field = Tf_eax | Tf_es | Tf_ds | Tf_trapno | Tf_err | Tf_eip | Tf_cs | Tf_eflags | Tf_esp | Tf_ss

primrec tf_off :: "tf_field \<Rightarrow> uint" where
  "tf_off Tf_eax = 28" | "tf_off Tf_es = 40" | "tf_off Tf_ds = 44" | "tf_off Tf_trapno = 48" | "tf_off Tf_err = 52"
| "tf_off Tf_eip = 56" | "tf_off Tf_cs = 60" | "tf_off Tf_eflags = 64" | "tf_off Tf_esp = 68" | "tf_off Tf_ss = 72"

definition tf_get :: "uint \<Rightarrow> tf_field \<Rightarrow> ('x kmach_scheme, uint) kern" where
  "tf_get t f = peek32 (t + tf_off f)"

definition tf_set :: "uint \<Rightarrow> tf_field \<Rightarrow> uint \<Rightarrow> ('x kmach_scheme, unit) kern" where
  "tf_set t f v = poke32 (t + tf_off f) v"

subsection \<open>Executable files\<close>

definition ELF_MAGIC :: uint where "ELF_MAGIC = 0x464C457F"
definition ELF_PROG_LOAD :: uint where "ELF_PROG_LOAD = 1"
definition sizeof_elfhdr :: nat where "sizeof_elfhdr = 52"
definition sizeof_proghdr :: nat where "sizeof_proghdr = 32"

record elfhdr =
  elf_magic :: uint
  elf_entry :: uint
  elf_phoff :: uint
  elf_phnum :: ushort

definition dec_elfhdr :: "uchar list \<Rightarrow> elfhdr" where
  "dec_elfhdr d = \<lparr>elf_magic = get32 d 0, elf_entry = get32 d 24, elf_phoff = get32 d 28, elf_phnum = get16 d 44\<rparr>"

record proghdr =
  ph_type :: uint
  ph_off :: uint
  ph_vaddr :: uint
  ph_filesz :: uint
  ph_memsz :: uint

definition dec_proghdr :: "uchar list \<Rightarrow> proghdr" where
  "dec_proghdr d = \<lparr>ph_type = get32 d 0, ph_off = get32 d 4, ph_vaddr = get32 d 8, ph_filesz = get32 d 16, ph_memsz = get32 d 20\<rparr>"

subsection \<open>Loading\<close>

primrec loaduvm_loop :: "uint \<Rightarrow> uint \<Rightarrow> nat \<Rightarrow> uint \<Rightarrow> uint \<Rightarrow> uint list \<Rightarrow> ('x kdev_scheme, int) kern" where
  "loaduvm_loop pgd addr ip off size' [] = ret 0"
| "loaduvm_loop pgd addr ip off size' (i # is) = bnd (walkpgdir pgd (addr + i) False) (\<lambda>pte.
     if pte = 0 then panic ''loaduvm: address should exist''
     else bnd (peek32 pte) (\<lambda>e.
       let pa = PTE_ADDR e; n = (if size' - i < PGSIZE then size' - i else PGSIZE) in
       bnd (readi ip (off + i) n) (\<lambda>(r, bs).
       sq (modify (\<lambda>s. s\<lparr>ram := store_bytes (P2V pa) bs (ram s)\<rparr>)) (
       if word_of_int r \<noteq> n then ret (-1) else loaduvm_loop pgd addr ip off size' is))))"

definition loaduvm :: "uint \<Rightarrow> uint \<Rightarrow> nat \<Rightarrow> uint \<Rightarrow> uint \<Rightarrow> ('x kdev_scheme, int) kern" where
  "loaduvm pgd addr ip off size' = (if addr mod PGSIZE \<noteq> 0 then panic ''loaduvm: addr must be page aligned''
     else loaduvm_loop pgd addr ip off size' (page_range 0 size'))"

text \<open>The label \<^verbatim>\<open>bad\<close>.\<close>

definition exec_bad :: "uint \<Rightarrow> nat option \<Rightarrow> ('x kfile_scheme, int) kern" where
  "exec_bad pgd ipo =
     sq (whenM (pgd \<noteq> 0) (freevm pgd)) (
     sq (case ipo of None \<Rightarrow> ret () | Some ip \<Rightarrow> sq (iunlockput ip) end_op) (
     ret (-1)))"

text \<open>The loop over the program headers: the size of the image, or nothing when a header is bad.\<close>

primrec exec_load :: "uint \<Rightarrow> nat \<Rightarrow> uint \<Rightarrow> nat list \<Rightarrow> uint \<Rightarrow> ('x kfile_scheme, uint option) kern" where
  "exec_load pgd ip phoff [] size' = ret (Some size')"
| "exec_load pgd ip phoff (i # is) size' =
     bnd (readi ip (phoff + of_nat (sizeof_proghdr * i)) (of_nat sizeof_proghdr)) (\<lambda>(r, bs).
     if r \<noteq> int sizeof_proghdr then ret None
     else let ph = dec_proghdr bs in
       if ph_type ph \<noteq> ELF_PROG_LOAD then exec_load pgd ip phoff is size'
       else if ph_memsz ph < ph_filesz ph then ret None
       else if ph_vaddr ph + ph_memsz ph < ph_vaddr ph then ret None
       else bnd (allocuvm pgd size' (ph_vaddr ph + ph_memsz ph)) (\<lambda>size'.
         if size' = 0 then ret None
         else if ph_vaddr ph mod PGSIZE \<noteq> 0 then ret None
         else bnd (loaduvm pgd (ph_vaddr ph) ip (ph_off ph) (ph_filesz ph)) (\<lambda>r.
           if r < 0 then ret None else exec_load pgd ip phoff is size')))"

text \<open>The loop that pushes the argument strings: the stack pointer and the addresses of the strings.\<close>

primrec exec_args :: "uint \<Rightarrow> uint \<Rightarrow> nat \<Rightarrow> uchar list list \<Rightarrow> ('x kmach_scheme, (uint \<times> uint list) option) kern" where
  "exec_args pgd sp argc [] = ret (Some (sp, []))"
| "exec_args pgd sp argc (arg # args) = (if argc \<ge> MAXARG then ret None
     else let sp = (sp - of_nat (length arg + 1)) AND NOT 3 in
       bnd (copyout pgd sp (arg @ [0])) (\<lambda>r.
       if r < 0 then ret None
       else bnd (exec_args pgd sp (Suc argc) args) (\<lambda>q. case q of
           None \<Rightarrow> ret None
         | Some (sp', us) \<Rightarrow> ret (Some (sp', sp # us)))))"

text \<open>The last component of a path, and a process name of at most 15 characters.\<close>

definition path_last :: "uchar list \<Rightarrow> uchar list" where
  "path_last path = rev (takeWhile (\<lambda>c. c \<noteq> slash) (rev path))"

definition name_string :: "uchar list \<Rightarrow> string" where
  "name_string bs = map (\<lambda>b. char_of (unat b)) (take 15 (cut0 bs))"

definition exec_stack :: "nat \<Rightarrow> uint \<Rightarrow> uint list \<Rightarrow> uchar list" where
  "exec_stack argc sp us = concat (map enc32 ([0xffffffff, of_nat argc, sp - of_nat ((argc + 1) * 4)] @ us @ [0]))"

definition exec :: "uchar list \<Rightarrow> uchar list list \<Rightarrow> ('x kfile_scheme, int) kern" where
  "exec path argv = bnd curproc (\<lambda>p.
     sq begin_op (
     bnd (namei path) (\<lambda>ipo. case ipo of
       None \<Rightarrow> sq end_op (sq (cprintf (''exec: fail'' @ [CHR 0x0A]) []) (ret (-1)))
     | Some ip \<Rightarrow>
         sq (ilock (Some ip)) (
         bnd (readi ip 0 (of_nat sizeof_elfhdr)) (\<lambda>(r, bs).
         if r \<noteq> int sizeof_elfhdr then exec_bad 0 ipo
         else let elf = dec_elfhdr bs in
         if elf_magic elf \<noteq> ELF_MAGIC then exec_bad 0 ipo
         else bnd setupkvm (\<lambda>pgd.
         if pgd = 0 then exec_bad 0 ipo
         else bnd (exec_load pgd ip (elf_phoff elf) [0..<unat (elf_phnum elf)] 0) (\<lambda>loaded. case loaded of
           None \<Rightarrow> exec_bad pgd ipo
         | Some size' \<Rightarrow>
             sq (iunlockput ip) (
             sq end_op (
             let size' = PGROUNDUP size' in
             bnd (allocuvm pgd size' (size' + 2 * PGSIZE)) (\<lambda>size'.
             if size' = 0 then exec_bad pgd None
             else
               sq (clearpteu pgd (size' - 2 * PGSIZE)) (
               bnd (exec_args pgd size' 0 argv) (\<lambda>pushed. case pushed of
                 None \<Rightarrow> exec_bad pgd None
               | Some (sp, us) \<Rightarrow>
                   let argc = length us; sp' = sp - of_nat ((3 + argc + 1) * 4) in
                   bnd (copyout pgd sp' (exec_stack argc sp us)) (\<lambda>r.
                   if r < 0 then exec_bad pgd None
                   else
                     sq (modify (upd_proc p (\<lambda>q. q\<lparr>pname := name_string (path_last path)\<rparr>))) (
                     bnd (gets (\<lambda>s. (pgdir (proc_at p s), tf (proc_at p s)))) (\<lambda>(oldpgdir, t).
                     sq (modify (upd_proc p (\<lambda>q. q\<lparr>pgdir := pgd, sz := size'\<rparr>))) (
                     sq (tf_set t Tf_eip (elf_entry elf)) (
                     sq (tf_set t Tf_esp sp') (
                     sq (switchuvm p) (
                     sq (freevm oldpgdir) (ret 0))))))))))))))))))))"

end
