(* ===== verification/Lifecycle.thy ===== *)
theory Lifecycle
  imports Exec
begin

text \<open>
  The life of a process, the parts of \<^verbatim>\<open>src/proc.c\<close> that need virtual memory and the file system: \<^verbatim>\<open>userinit\<close>,
  \<^verbatim>\<open>growproc\<close>, \<^verbatim>\<open>fork\<close>, \<^verbatim>\<open>exit\<close>, \<^verbatim>\<open>wait\<close> and \<^verbatim>\<open>forkret\<close>. The program \<^verbatim>\<open>initcode\<close>, which the build links into the
  kernel, is an argument of \<^verbatim>\<open>userinit\<close>.
\<close>

definition SEG_UCODE :: uint where "SEG_UCODE = 3"
definition SEG_UDATA :: uint where "SEG_UDATA = 4"
definition DPL_USER :: uint where "DPL_USER = 3"
definition FL_IF :: uint where "FL_IF = 0x200"

definition userinit :: "uchar list \<Rightarrow> ('x kfile_scheme, unit) kern" where
  "userinit initcode = bnd allocproc (\<lambda>r. case r of
       None \<Rightarrow> undef ''null process''
     | Some p \<Rightarrow>
         sq (modify (\<lambda>s. s\<lparr>ptable := (ptable s)\<lparr>initproc := Some p\<rparr>\<rparr>)) (
         bnd setupkvm (\<lambda>d.
         sq (modify (upd_proc p (\<lambda>q. q\<lparr>pgdir := d\<rparr>))) (
         if d = 0 then panic ''userinit: out of memory?''
         else
           sq (inituvm d initcode) (
           sq (modify (upd_proc p (\<lambda>q. q\<lparr>sz := PGSIZE\<rparr>))) (
           bnd (gets (\<lambda>s. tf (proc_at p s))) (\<lambda>t.
           sq (modify (\<lambda>s. s\<lparr>ram := memset t 0 sizeof_trapframe (ram s)\<rparr>)) (
           sq (tf_set t Tf_cs (push_bit 3 SEG_UCODE OR DPL_USER)) (
           sq (tf_set t Tf_ds (push_bit 3 SEG_UDATA OR DPL_USER)) (
           sq (tf_set t Tf_es (push_bit 3 SEG_UDATA OR DPL_USER)) (
           sq (tf_set t Tf_ss (push_bit 3 SEG_UDATA OR DPL_USER)) (
           sq (tf_set t Tf_eflags FL_IF) (
           sq (tf_set t Tf_esp PGSIZE) (
           sq (tf_set t Tf_eip 0) (
           sq (modify (upd_proc p (\<lambda>q. q\<lparr>pname := ''initcode''\<rparr>))) (
           bnd (namei [slash]) (\<lambda>d.
           sq (modify (upd_proc p (\<lambda>q. q\<lparr>cwd := d\<rparr>))) (
           sq (acquire Lk_ptable) (
           sq (modify (upd_proc p (\<lambda>q. q\<lparr>pstate := RUNNABLE, containerID := 0\<rparr>)))
              (release Lk_ptable))))))))))))))))))))"

definition growproc :: "int \<Rightarrow> ('x kfile_scheme, int) kern" where
  "growproc n = bnd curproc (\<lambda>p.
     bnd (gets (proc_at p)) (\<lambda>q.
     bnd (if n > 0 then allocuvm (pgdir q) (sz q) (sz q + word_of_int n)
          else if n < 0 then deallocuvm (pgdir q) (sz q) (sz q + word_of_int n)
          else ret (sz q)) (\<lambda>size'.
     if n \<noteq> 0 \<and> size' = 0 then ret (-1)
     else sq (modify (upd_proc p (\<lambda>q. q\<lparr>sz := size'\<rparr>))) (
       sq (switchuvm p) (ret 0)))))"

definition fork :: "('x kfile_scheme, int) kern" where
  "fork = bnd curproc (\<lambda>p. bnd allocproc (\<lambda>r. case r of
       None \<Rightarrow> ret (-1)
     | Some np \<Rightarrow>
         bnd (gets (proc_at p)) (\<lambda>q.
         bnd (copyuvm (pgdir q) (sz q)) (\<lambda>d.
         sq (modify (upd_proc np (\<lambda>x. x\<lparr>pgdir := d\<rparr>))) (
         if d = 0 then
           bnd (gets (\<lambda>s. kstack (proc_at np s))) (\<lambda>k.
           sq (kfree k) (
           sq (modify (upd_proc np (\<lambda>x. x\<lparr>kstack := 0, pstate := UNUSED\<rparr>))) (ret (-1))))
         else
           sq (modify (upd_proc np (\<lambda>x. x\<lparr>sz := sz q, parent := Some p\<rparr>))) (
           bnd (gets (\<lambda>s. tf (proc_at np s))) (\<lambda>t.
           sq (modify (\<lambda>s. s\<lparr>ram := memmove t (tf q) sizeof_trapframe (ram s)\<rparr>)) (
           sq (tf_set t Tf_eax 0) (
           sq (for_each [0..<NOFILE] (\<lambda>i. bnd (gets (\<lambda>s. ofile (proc_at p s) ! i)) (\<lambda>f. case f of
                None \<Rightarrow> ret ()
              | Some f \<Rightarrow> bnd (filedup f) (\<lambda>f. modify (upd_proc np (\<lambda>x. x\<lparr>ofile := (ofile x)[i := Some f]\<rparr>)))))) (
           bnd (deref (cwd q)) (\<lambda>ip. bnd (idup ip) (\<lambda>ip.
           sq (modify (upd_proc np (\<lambda>x. x\<lparr>cwd := Some ip\<rparr>))) (
           sq (modify (upd_proc np (\<lambda>x. x\<lparr>pname := pname q\<rparr>))) (
           bnd (gets (\<lambda>s. pid (proc_at np s))) (\<lambda>pd.
           sq (acquire Lk_ptable) (
           sq (modify (upd_proc np (\<lambda>x. x\<lparr>pstate := RUNNABLE, containerID := 0\<rparr>))) (
           sq (release Lk_ptable) (ret pd))))))))))))))))))"

text \<open>A wakeup of the process a pointer refers to; nothing sleeps on a null pointer.\<close>

definition wakeup1_proc :: "nat option \<Rightarrow> ('x kproc_scheme, unit) kern" where
  "wakeup1_proc r = (case r of None \<Rightarrow> ret () | Some p \<Rightarrow> wakeup1 (Chan_proc p))"

text \<open>\<^verbatim>\<open>exit\<close> never returns; its result type stands for the code after it.\<close>

definition exit :: "('x kfile_scheme, 'a) kern" where
  "exit = bnd curproc (\<lambda>p.
     bnd (gets (\<lambda>s. initproc (ptable s))) (\<lambda>ini.
     if ini = Some p then panic ''init exiting''
     else
       sq (for_each [0..<NOFILE] (\<lambda>fd. bnd (gets (\<lambda>s. ofile (proc_at p s) ! fd)) (\<lambda>f. case f of
            None \<Rightarrow> ret ()
          | Some f \<Rightarrow> sq (fileclose f) (modify (upd_proc p (\<lambda>q. q\<lparr>ofile := (ofile q)[fd := None]\<rparr>)))))) (
       sq begin_op (
       bnd (gets (\<lambda>s. cwd (proc_at p s))) (\<lambda>d. bnd (deref d) (\<lambda>ip.
       sq (iput ip) (
       sq end_op (
       sq (modify (upd_proc p (\<lambda>q. q\<lparr>cwd := None\<rparr>))) (
       sq (acquire Lk_ptable) (
       bnd (gets (\<lambda>s. parent (proc_at p s))) (\<lambda>par.
       sq (wakeup1_proc par) (
       sq (for_each [0..<NPROC] (\<lambda>i. bnd (gets (proc_at i)) (\<lambda>x.
            whenM (parent x = Some p) (
              sq (modify (upd_proc i (\<lambda>x. x\<lparr>parent := ini\<rparr>)))
                 (whenM (pstate x = ZOMBIE) (wakeup1_proc ini)))))) (
       sq (modify (upd_proc p (\<lambda>q. q\<lparr>pstate := ZOMBIE\<rparr>))) (
       sq (sched :: ('x kfile_scheme, unit) kern) (panic ''zombie exit'')))))))))))))))"

text \<open>The endless loop of \<^verbatim>\<open>wait\<close>: one scan of the table, which ends with the pid of a dead child or with the answer
  whether there are children at all.\<close>

primrec wait_scan :: "nat \<Rightarrow> nat list \<Rightarrow> bool \<Rightarrow> ('x kproc_scheme, int option \<times> bool) kern" where
  "wait_scan p [] havekids = ret (None, havekids)"
| "wait_scan p (i # is) havekids = bnd (gets (proc_at i)) (\<lambda>q.
     if parent q \<noteq> Some p then wait_scan p is havekids
     else if pstate q = ZOMBIE then
       sq (kfree (kstack q)) (
       sq (modify (upd_proc i (\<lambda>x. x\<lparr>kstack := 0\<rparr>))) (
       sq (freevm (pgdir q)) (
       sq (modify (upd_proc i (\<lambda>x. x\<lparr>pid := 0, parent := None, pname := [], killed := False, pstate := UNUSED\<rparr>))) (
       ret (Some (pid q), True)))))
     else wait_scan p is True)"

definition wait_loop :: "nat \<Rightarrow> ('x kproc_scheme, int) kern" where
  "wait_loop p = bnd (wait_scan p [0..<NPROC] False) (\<lambda>(found, havekids). case found of
       Some pd \<Rightarrow> sq (release Lk_ptable) (ret pd)
     | None \<Rightarrow> bnd (gets (\<lambda>s. killed (proc_at p s))) (\<lambda>k.
         if \<not> havekids \<or> k then sq (release Lk_ptable) (ret (-1))
         else sleep (Chan_proc p) Lk_ptable))"

definition wait :: "('x kproc_scheme, int) kern" where
  "wait = bnd curproc (\<lambda>p. sq (acquire Lk_ptable) (wait_loop p))"

definition wait_resume :: "nat \<Rightarrow> bool \<Rightarrow> ('x kproc_scheme, int) kern" where
  "wait_resume p en = sq (sleep_resume p en Lk_ptable) (wait_loop p)"

definition forkret :: "('x kfile_scheme, unit) kern" where
  "forkret = sq (release Lk_ptable) (
     bnd (gets forkret_first) (\<lambda>first.
     whenM first (
       sq (modify (\<lambda>s. s\<lparr>forkret_first := False\<rparr>)) (
       sq (iinit (uint ROOTDEV)) (initlog (uint ROOTDEV))))))"

end
