(* ===== verification/Sysfile.thy ===== *)
theory Sysfile
  imports Lifecycle
begin

text \<open>
  Fetching system call arguments, \<^verbatim>\<open>src/syscall.c\<close>, and the system calls on files, \<^verbatim>\<open>src/sysfile.c\<close>.

  The kernel reads and writes user memory through the page table that is loaded; an address without a mapping
  there is a page fault in the kernel, which is undefined behaviour here. A fetched argument is an option, \<open>None\<close>
  for the error return. A string argument is the list of its bytes; data for the caller is stored through the
  page table when the call has it.
\<close>

subsection \<open>User memory\<close>

definition user_addr :: "uint \<Rightarrow> ('x kmach_scheme, uint) kern" where
  "user_addr va = bnd (gets (\<lambda>s. translate (ram s) (P2V (hw_cr3 s)) va)) (\<lambda>r. case r of
     None \<Rightarrow> undef ''page fault'' | Some a \<Rightarrow> ret a)"

definition user_byte :: "uint \<Rightarrow> ('x kmach_scheme, uchar) kern" where
  "user_byte va = bnd (user_addr va) (\<lambda>a. gets (\<lambda>s. ram s a))"

primrec user_bytes :: "nat \<Rightarrow> uint \<Rightarrow> ('x kmach_scheme, uchar list) kern" where
  "user_bytes 0 va = ret []"
| "user_bytes (Suc n) va = bnd (user_byte va) (\<lambda>b. bnd (user_bytes n (va + 1)) (\<lambda>bs. ret (b # bs)))"

primrec user_store :: "uint \<Rightarrow> uchar list \<Rightarrow> ('x kmach_scheme, unit) kern" where
  "user_store va [] = ret ()"
| "user_store va (b # bs) = bnd (user_addr va) (\<lambda>a.
     sq (modify (\<lambda>s. s\<lparr>ram := (ram s)(a := b)\<rparr>)) (user_store (va + 1) bs))"

subsection \<open>Arguments\<close>

definition fetchint :: "uint \<Rightarrow> ('x kproc_scheme, uint option) kern" where
  "fetchint addr = bnd curproc (\<lambda>p. bnd (gets (\<lambda>s. sz (proc_at p s))) (\<lambda>size'.
     if addr \<ge> size' \<or> addr + 4 > size' then ret None
     else bnd (user_bytes 4 addr) (\<lambda>bs. ret (Some (dec32 bs)))))"

primrec fetchstr_loop :: "nat \<Rightarrow> uint \<Rightarrow> ('x kproc_scheme, uchar list option) kern" where
  "fetchstr_loop 0 a = ret None"
| "fetchstr_loop (Suc n) a = bnd (user_byte a) (\<lambda>c.
     if c = 0 then ret (Some [])
     else bnd (fetchstr_loop n (a + 1)) (\<lambda>r. ret (map_option (\<lambda>cs. c # cs) r)))"

definition fetchstr :: "uint \<Rightarrow> ('x kproc_scheme, uchar list option) kern" where
  "fetchstr addr = bnd curproc (\<lambda>p. bnd (gets (\<lambda>s. sz (proc_at p s))) (\<lambda>size'.
     if addr \<ge> size' then ret None else fetchstr_loop (unat size' - unat addr) addr))"

definition argint :: "nat \<Rightarrow> ('x kproc_scheme, uint option) kern" where
  "argint n = bnd curproc (\<lambda>p. bnd (gets (\<lambda>s. tf (proc_at p s))) (\<lambda>t.
     bnd (tf_get t Tf_esp) (\<lambda>sp. fetchint (sp + 4 + 4 * of_nat n))))"

definition argptr :: "nat \<Rightarrow> int \<Rightarrow> ('x kproc_scheme, uint option) kern" where
  "argptr n len = bnd curproc (\<lambda>p. bnd (argint n) (\<lambda>r. case r of
       None \<Rightarrow> ret None
     | Some i \<Rightarrow> bnd (gets (\<lambda>s. sz (proc_at p s))) (\<lambda>size'.
         if len < 0 \<or> i \<ge> size' \<or> i + word_of_int len > size' then ret None else ret (Some i))))"

definition argstr :: "nat \<Rightarrow> ('x kproc_scheme, uchar list option) kern" where
  "argstr n = bnd (argint n) (\<lambda>r. case r of None \<Rightarrow> ret None | Some addr \<Rightarrow> fetchstr addr)"

text \<open>Continue with a fetched argument, or give up with result \<open>e\<close>.\<close>

definition with_arg :: "('s, 'a option) kern \<Rightarrow> ('s, 'b) kern \<Rightarrow> ('a \<Rightarrow> ('s, 'b) kern) \<Rightarrow> ('s, 'b) kern" where
  "with_arg m e k = bnd m (\<lambda>r. case r of None \<Rightarrow> e | Some a \<Rightarrow> k a)"

definition argfd :: "nat \<Rightarrow> ('x kproc_scheme, (nat \<times> nat) option) kern" where
  "argfd n = with_arg (argint n) (ret None) (\<lambda>fd.
     if sint fd < 0 \<or> sint fd \<ge> int NOFILE then ret None
     else bnd curproc (\<lambda>p. bnd (gets (\<lambda>s. ofile (proc_at p s) ! unat fd)) (\<lambda>f.
       ret (map_option (\<lambda>f. (unat fd, f)) f))))"

definition fdalloc :: "nat \<Rightarrow> ('x kproc_scheme, int) kern" where
  "fdalloc f = bnd curproc (\<lambda>p.
     bnd (gets (\<lambda>s. first_index (\<lambda>x. x = None) (ofile (proc_at p s)))) (\<lambda>r. case r of
       None \<Rightarrow> ret (-1)
     | Some fd \<Rightarrow> sq (modify (upd_proc p (\<lambda>q. q\<lparr>ofile := (ofile q)[fd := Some f]\<rparr>))) (ret (int fd))))"

subsection \<open>Descriptors\<close>

definition sys_dup :: "('x kfile_scheme, int) kern" where
  "sys_dup = with_arg (argfd 0) (ret (-1)) (\<lambda>(_, f).
     bnd (fdalloc f) (\<lambda>fd. if fd < 0 then ret (-1) else sq (filedup f) (ret fd)))"

definition sys_read :: "('x kfile_scheme, int) kern" where
  "sys_read = with_arg (argfd 0) (ret (-1)) (\<lambda>(_, f).
     with_arg (argint 2) (ret (-1)) (\<lambda>n.
     with_arg (argptr 1 (sint n)) (ret (-1)) (\<lambda>p.
     bnd (fileread f (sint n)) (\<lambda>(r, bs). sq (user_store p bs) (ret r)))))"

definition sys_write :: "('x kfile_scheme, int) kern" where
  "sys_write = (let fail = sq (cprintf (''Input'' @ [CHR 0x0A]) []) (ret (-1)) in
     with_arg (argfd 0) fail (\<lambda>(_, f).
     with_arg (argint 2) fail (\<lambda>n.
     with_arg (argptr 1 (sint n)) fail (\<lambda>p.
     bnd (gets (\<lambda>s. f_ip (file_at f s))) (\<lambda>ipo.
     bnd (deref ipo) (\<lambda>ip. bnd (gets (\<lambda>s. i_containerID (inode_at ip s))) (\<lambda>cid.
     bnd (user_bytes (nat (sint n)) p) (\<lambda>bs.
     if cid = 0 then filewrite f bs (sint n)
     else bnd curproc (\<lambda>q. bnd (gets (\<lambda>s. containerID (proc_at q s))) (\<lambda>mine.
       if mine \<noteq> cid then ret (-1) else filewrite f bs (sint n)))))))))))"

definition sys_close :: "('x kfile_scheme, int) kern" where
  "sys_close = with_arg (argfd 0) (ret (-1)) (\<lambda>(fd, f).
     bnd (gets (\<lambda>s. f_ip (file_at f s))) (\<lambda>ipo.
     bnd curproc (\<lambda>p. bnd (gets (\<lambda>s. containerID (proc_at p s))) (\<lambda>mine.
     bnd (deref ipo) (\<lambda>ip. bnd (gets (\<lambda>s. i_containerID (inode_at ip s))) (\<lambda>cid.
     if mine \<noteq> cid then ret (-1)
     else sq (modify (upd_proc p (\<lambda>q. q\<lparr>ofile := (ofile q)[fd := None]\<rparr>))) (
       sq (fileclose f) (ret 0))))))))"

text \<open>The bytes of \<^verbatim>\<open>struct stat\<close>, with the padding the compiler inserts.\<close>

definition enc_stat :: "stat \<Rightarrow> uchar list" where
  "enc_stat st = enc16 (st_type st) @ [0, 0] @ enc32 (st_dev st) @ enc32 (st_ino st) @ enc16 (st_nlink st) @ [0, 0] @ enc32 (st_size st)"

definition sys_fstat :: "('x kfile_scheme, int) kern" where
  "sys_fstat = with_arg (argfd 0) (ret (-1)) (\<lambda>(_, f).
     with_arg (argptr 1 20) (ret (-1)) (\<lambda>p.
     bnd (filestat f) (\<lambda>(r, st). case st of
       None \<Rightarrow> ret r
     | Some st \<Rightarrow> sq (user_store p (enc_stat st)) (ret r))))"

subsection \<open>Links\<close>

abbreviation no_name :: "uchar list" where "no_name \<equiv> replicate DIRSIZ 0"

definition upd_nlink :: "nat \<Rightarrow> (ushort \<Rightarrow> ushort) \<Rightarrow> ('x kino_scheme, unit) kern" where
  "upd_nlink ip g = sq (modify (upd_inode ip (\<lambda>x. x\<lparr>nlink := g (nlink x)\<rparr>))) (iupdate ip)"

text \<open>The label \<^verbatim>\<open>bad\<close> of \<^verbatim>\<open>sys_link\<close>.\<close>

definition link_bad :: "nat \<Rightarrow> ('x kfile_scheme, int) kern" where
  "link_bad ip = sq (ilock (Some ip)) (
     sq (upd_nlink ip (\<lambda>n. n - 1)) (
     sq (iunlockput ip) (sq end_op (ret (-1)))))"

definition sys_link :: "('x kfile_scheme, int) kern" where
  "sys_link = with_arg (argstr 0) (ret (-1)) (\<lambda>old.
     with_arg (argstr 1) (ret (-1)) (\<lambda>new.
     sq begin_op (
     with_arg (namei old) (sq end_op (ret (-1))) (\<lambda>ip.
     sq (ilock (Some ip)) (
     bnd (gets (\<lambda>s. itype (inode_at ip s))) (\<lambda>ty.
     if ty = T_DIR then sq (iunlockput ip) (sq end_op (ret (-1)))
     else
       sq (upd_nlink ip (\<lambda>n. n + 1)) (
       sq (iunlock (Some ip)) (
       bnd (nameiparent new no_name) (\<lambda>(r, name). case r of
         None \<Rightarrow> link_bad ip
       | Some dp \<Rightarrow>
           sq (ilock (Some dp)) (
           bnd (gets (\<lambda>s. (i_dev (inode_at dp s), i_dev (inode_at ip s), i_num (inode_at ip s)))) (\<lambda>(ddev, idev, inum).
           bnd (if ddev \<noteq> idev then ret True else bnd (dirlink dp name inum) (\<lambda>r. ret (r < 0))) (\<lambda>failed.
           if failed then sq (iunlockput dp) (link_bad ip)
           else sq (iunlockput dp) (
             sq (iput ip) (
             sq end_op (ret 0)))))))))))))))"

primrec isdirempty_loop :: "nat \<Rightarrow> uint list \<Rightarrow> ('x kdev_scheme, bool) kern" where
  "isdirempty_loop dp [] = ret True"
| "isdirempty_loop dp (off # offs) = bnd (read_dirent ''isdirempty: readi'' dp off) (\<lambda>de.
     if de_inum de \<noteq> 0 then ret False else isdirempty_loop dp offs)"

definition isdirempty :: "nat \<Rightarrow> ('x kdev_scheme, bool) kern" where
  "isdirempty dp = bnd (gets (\<lambda>s. isize (inode_at dp s))) (\<lambda>dsize. isdirempty_loop dp (drop 2 (dirent_offs dsize)))"

text \<open>The label \<^verbatim>\<open>bad\<close> of \<^verbatim>\<open>sys_unlink\<close>.\<close>

definition unlink_bad :: "nat \<Rightarrow> ('x kfile_scheme, int) kern" where
  "unlink_bad dp = sq (iunlockput dp) (sq end_op (ret (-1)))"

definition sys_unlink :: "('x kfile_scheme, int) kern" where
  "sys_unlink = with_arg (argstr 0) (ret (-1)) (\<lambda>path.
     sq begin_op (
     bnd (nameiparent path no_name) (\<lambda>(r, name). case r of
       None \<Rightarrow> sq end_op (ret (-1))
     | Some dp \<Rightarrow>
         sq (ilock (Some dp)) (
         if namecmp name [46] = 0 \<or> namecmp name [46, 46] = 0 then unlink_bad dp
         else with_arg (dirlookup dp name) (unlink_bad dp) (\<lambda>(ip, off).
           sq (ilock (Some ip)) (
           bnd (gets (inode_at ip)) (\<lambda>x.
           if sint (nlink x) < 1 then panic ''unlink: nlink < 1''
           else bnd (if itype x = T_DIR then isdirempty ip else ret True) (\<lambda>ok.
             if \<not> ok then sq (iunlockput ip) (unlink_bad dp)
             else bnd (writei dp (replicate sizeof_dirent 0) off (of_nat sizeof_dirent)) (\<lambda>r.
               if r \<noteq> int sizeof_dirent then panic ''unlink: writei''
               else
                 sq (whenM (itype x = T_DIR) (upd_nlink dp (\<lambda>n. n - 1))) (
                 sq (iunlockput dp) (
                 sq (upd_nlink ip (\<lambda>n. n - 1)) (
                 sq (iunlockput ip) (
                 sq end_op (ret 0))))))))))))))"

subsection \<open>Creating and opening\<close>

definition create :: "uchar list \<Rightarrow> ushort \<Rightarrow> ushort \<Rightarrow> ushort \<Rightarrow> ('x kfile_scheme, nat option) kern" where
  "create path ty maj mi = bnd (nameiparent path no_name) (\<lambda>(r, name). case r of
       None \<Rightarrow> ret None
     | Some dp \<Rightarrow>
         sq (ilock (Some dp)) (
         bnd (dirlookup dp name) (\<lambda>r. case r of
           Some (ip, _) \<Rightarrow>
             sq (iunlockput dp) (
             sq (ilock (Some ip)) (
             bnd (gets (\<lambda>s. itype (inode_at ip s))) (\<lambda>ity.
             if ty = T_FILE \<and> ity = T_FILE then ret (Some ip)
             else sq (iunlockput ip) (ret None))))
         | None \<Rightarrow>
             bnd (gets (\<lambda>s. i_dev (inode_at dp s))) (\<lambda>dev.
             bnd (ialloc dev ty) (\<lambda>ip.
             sq (ilock (Some ip)) (
             bnd curproc (\<lambda>p. bnd (gets (\<lambda>s. containerID (proc_at p s))) (\<lambda>cid.
             sq (modify (upd_inode ip (\<lambda>x. x\<lparr>major := maj, minor := mi, nlink := 1, i_containerID := cid\<rparr>))) (
             sq (iupdate ip) (
             bnd (gets (\<lambda>s. (i_num (inode_at ip s), i_num (inode_at dp s)))) (\<lambda>(inum, dnum).
             sq (whenM (ty = T_DIR) (
                  sq (upd_nlink dp (\<lambda>n. n + 1)) (
                  bnd (dirlink ip [46] inum) (\<lambda>r1.
                  if r1 < 0 then panic ''create dots''
                  else bnd (dirlink ip [46, 46] dnum) (\<lambda>r2.
                    if r2 < 0 then panic ''create dots'' else ret ()))))) (
             bnd (dirlink dp name inum) (\<lambda>r.
             if r < 0 then panic ''create: dirlink''
             else sq (iunlockput dp) (ret (Some ip)))))))))))))))"

text \<open>\<^verbatim>\<open>map\<close>: the character that marks the files of a container.\<close>

definition map_char :: "int \<Rightarrow> uchar" where
  "map_char n = (if n = 0 then 0 else word_of_int (48 + n))"

text \<open>\<^verbatim>\<open>newPath\<close>: the path with the mark of the container appended, or \<^verbatim>\<open>"."\<close> for every path that starts with a dot.\<close>

definition newPath :: "int \<Rightarrow> uchar list \<Rightarrow> uchar list" where
  "newPath cid path = (if strncmp_list 1 [46] path = 0 then [46] else cut0 (path @ [map_char cid]))"

definition O_CREATE :: uint where "O_CREATE = 0x200"
definition O_RDONLY :: uint where "O_RDONLY = 0"
definition O_WRONLY :: uint where "O_WRONLY = 1"
definition O_RDWR :: uint where "O_RDWR = 2"

definition sys_open :: "('x kfile_scheme, int) kern" where
  "sys_open = bnd curproc (\<lambda>p. bnd (gets (\<lambda>s. containerID (proc_at p s))) (\<lambda>cid.
     with_arg (argstr 0) (ret (-1)) (\<lambda>path.
     with_arg (argint 1) (ret (-1)) (\<lambda>omode.
     sq begin_op (
     with_arg
       (if omode AND O_CREATE \<noteq> 0 then create (newPath cid path) T_FILE 0 0
        else with_arg (namei (newPath cid path)) (ret None) (\<lambda>ip.
          sq (ilock (Some ip)) (
          bnd (gets (\<lambda>s. itype (inode_at ip s))) (\<lambda>ty.
          if ty = T_DIR \<and> omode \<noteq> O_RDONLY then sq (iunlockput ip) (ret None) else ret (Some ip)))))
       (sq end_op (ret (-1))) (\<lambda>ip.
     bnd filealloc (\<lambda>fo.
     bnd (case fo of None \<Rightarrow> ret (-1) | Some f \<Rightarrow> fdalloc f) (\<lambda>fd.
     if fd < 0 then
       sq (case fo of None \<Rightarrow> ret () | Some f \<Rightarrow> fileclose f) (
       sq (iunlockput ip) (
       sq end_op (ret (-1))))
     else
       sq (iunlock (Some ip)) (
       sq end_op (
       sq (case fo of None \<Rightarrow> ret () | Some f \<Rightarrow> modify (upd_file f (\<lambda>x. x\<lparr>f_type := FD_INODE, f_ip := Some ip, f_off := 0,
            readable := (omode AND O_WRONLY = 0), writable := (omode AND O_WRONLY \<noteq> 0 \<or> omode AND O_RDWR \<noteq> 0)\<rparr>)))
          (ret fd)))))))))))"

definition sys_mkdir :: "('x kfile_scheme, int) kern" where
  "sys_mkdir = sq begin_op (
     with_arg (argstr 0) (sq end_op (ret (-1))) (\<lambda>path.
     with_arg (create path T_DIR 0 0) (sq end_op (ret (-1))) (\<lambda>ip.
     sq (iunlockput ip) (sq end_op (ret 0)))))"

definition sys_mknod :: "('x kfile_scheme, int) kern" where
  "sys_mknod = sq begin_op (
     with_arg (argstr 0) (sq end_op (ret (-1))) (\<lambda>path.
     with_arg (argint 1) (sq end_op (ret (-1))) (\<lambda>maj.
     with_arg (argint 2) (sq end_op (ret (-1))) (\<lambda>mi.
     with_arg (create path T_DEV (ucast maj) (ucast mi)) (sq end_op (ret (-1))) (\<lambda>ip.
     sq (iunlockput ip) (sq end_op (ret 0)))))))"

definition sys_chdir :: "('x kfile_scheme, int) kern" where
  "sys_chdir = bnd curproc (\<lambda>p.
     sq begin_op (
     with_arg (argstr 0) (sq end_op (ret (-1))) (\<lambda>path.
     with_arg (namei path) (sq end_op (ret (-1))) (\<lambda>ip.
     sq (ilock (Some ip)) (
     bnd (gets (\<lambda>s. itype (inode_at ip s))) (\<lambda>ty.
     if ty \<noteq> T_DIR then sq (iunlockput ip) (sq end_op (ret (-1)))
     else
       sq (iunlock (Some ip)) (
       bnd (gets (\<lambda>s. cwd (proc_at p s))) (\<lambda>d. bnd (deref d) (\<lambda>old.
       sq (iput old) (
       sq end_op (
       sq (modify (upd_proc p (\<lambda>q. q\<lparr>cwd := Some ip\<rparr>))) (ret 0))))))))))))"

text \<open>The loop of \<^verbatim>\<open>sys_exec\<close> over the argument vector: \<open>n\<close> entries of \<^verbatim>\<open>argv\<close> are left.\<close>

primrec exec_argv :: "nat \<Rightarrow> uint \<Rightarrow> ('x kproc_scheme, uchar list list option) kern" where
  "exec_argv 0 a = ret None"
| "exec_argv (Suc n) a = with_arg (fetchint a) (ret None) (\<lambda>uarg.
     if uarg = 0 then ret (Some [])
     else with_arg (fetchstr uarg) (ret None) (\<lambda>arg.
       bnd (exec_argv n (a + 4)) (\<lambda>r. ret (map_option (\<lambda>args. arg # args) r))))"

definition sys_exec :: "('x kfile_scheme, int) kern" where
  "sys_exec = with_arg (argstr 0) (ret (-1)) (\<lambda>path.
     with_arg (argint 1) (ret (-1)) (\<lambda>uargv.
     with_arg (exec_argv MAXARG uargv) (ret (-1)) (\<lambda>argv. exec path argv)))"

definition sys_pipe :: "('x kfile_scheme, int) kern" where
  "sys_pipe = with_arg (argptr 0 8) (ret (-1)) (\<lambda>fd.
     bnd pipealloc (\<lambda>(r, rfo, wfo).
     if r < 0 then ret (-1)
     else case (rfo, wfo) of
       (Some rfile, Some wfile) \<Rightarrow>
         bnd (fdalloc rfile) (\<lambda>fd0.
         bnd (if fd0 < 0 then ret (-1) else fdalloc wfile) (\<lambda>fd1.
         if fd0 < 0 \<or> fd1 < 0 then
           bnd curproc (\<lambda>p.
           sq (whenM (fd0 \<ge> 0) (modify (upd_proc p (\<lambda>q. q\<lparr>ofile := (ofile q)[nat fd0 := None]\<rparr>)))) (
           sq (fileclose rfile) (
           sq (fileclose wfile) (ret (-1)))))
         else
           sq (user_store fd (enc32 (word_of_int fd0))) (
           sq (user_store (fd + 4) (enc32 (word_of_int fd1))) (ret 0))))
     | _ \<Rightarrow> undef ''null file''))"

subsection \<open>Arguments stay inside the process\<close>

text \<open>The byte at a user address, and that every page of the process is mapped.\<close>

definition ubyte :: "'x kmach_scheme \<Rightarrow> uint \<Rightarrow> uchar" where
  "ubyte s va = (case translate (ram s) (P2V (hw_cr3 s)) va of Some a \<Rightarrow> ram s a | None \<Rightarrow> 0)"

definition mapped_below :: "uint \<Rightarrow> 'x kmach_scheme \<Rightarrow> bool" where
  "mapped_below size' s \<longleftrightarrow> (\<forall>va < size'. translate (ram s) (P2V (hw_cr3 s)) va \<noteq> None)"

lemma user_byte_Done: "mapped_below size' s \<Longrightarrow> va < size' \<Longrightarrow> user_byte va s = Done (ubyte s va) s"
  by (auto simp: user_byte_def user_addr_def mapped_below_def ubyte_def kern_defs split: option.splits)

lemma user_bytes_Done:
  "mapped_below size' s \<Longrightarrow> unat va + n \<le> unat size' \<Longrightarrow> user_bytes n va s = Done (map (\<lambda>i. ubyte s (va + of_nat i)) [0..<n]) s"
proof (induction n arbitrary: va)
  case (Suc n)
  have lt: "va < size'" using Suc.prems(2) by (simp add: word_less_nat_alt)
  have u: "unat (va + 1) = unat va + 1" using Suc.prems(2) unat_lt32 [of size'] unat_add_of_nat [of va 1] by simp
  have "user_bytes n (va + 1) s = Done (map (\<lambda>i. ubyte s (va + 1 + of_nat i)) [0..<n]) s"
    using Suc.prems u by (intro Suc.IH) simp_all
  moreover have "[0..<Suc n] = 0 # map Suc [0..<n]" by (simp add: upt_conv_Cons map_Suc_upt)
  ultimately show ?case
    using user_byte_Done [OF Suc.prems(1) lt] by (simp add: kern_defs comp_def add.assoc del: upt_Suc)
qed (simp add: kern_defs)

lemma fetchint_Done:
  assumes p: "in_proc p s" and m: "mapped_below (sz (proc_at p s)) s" and k: "sz (proc_at p s) \<le> KERNBASE"
  shows "fetchint a s = Done (if unat a + 4 \<le> unat (sz (proc_at p s)) then Some (dec32 (map (\<lambda>i. ubyte s (a + of_nat i)) [0..<4])) else None) s"
proof -
  let ?z = "sz (proc_at p s)"
  have z: "unat ?z \<le> 2 ^ 31" using k by (simp add: word_le_nat_alt KERNBASE_def)
  have "(a \<ge> ?z \<or> a + 4 > ?z) \<longleftrightarrow> \<not> unat a + 4 \<le> unat ?z"
  proof (cases "a < ?z")
    case True
    then have "unat (a + 4) = unat a + 4" using z unat_add_of_nat [of a 4] by (simp add: word_less_nat_alt)
    then show ?thesis using True by (auto simp: word_less_nat_alt word_le_nat_alt)
  next
    case False
    then show ?thesis by (simp add: word_less_nat_alt word_le_nat_alt)
  qed
  then show ?thesis
    using p user_bytes_Done [OF m, of a 4] by (simp add: fetchint_def kern_defs curproc_Done)
qed

lemma fetchstr_loop_Done:
  "mapped_below size' s \<Longrightarrow> unat a + n \<le> unat size' \<Longrightarrow>
    fetchstr_loop n a s = Done (if 0 \<in> set (map (\<lambda>i. ubyte s (a + of_nat i)) [0..<n])
      then Some (cut0 (map (\<lambda>i. ubyte s (a + of_nat i)) [0..<n])) else None) s"
proof (induction n arbitrary: a)
  case (Suc n)
  have lt: "a < size'" using Suc.prems(2) by (simp add: word_less_nat_alt)
  have u: "unat (a + 1) = unat a + 1" using Suc.prems(2) unat_lt32 [of size'] unat_add_of_nat [of a 1] by simp
  let ?f = "\<lambda>i. ubyte s (a + of_nat i)"
  have "[0..<Suc n] = 0 # map Suc [0..<n]" by (simp add: upt_conv_Cons map_Suc_upt)
  then have e: "map ?f [0..<Suc n] = ubyte s a # map (\<lambda>i. ubyte s (a + 1 + of_nat i)) [0..<n]"
    by (simp add: comp_def add.assoc del: upt_Suc)
  have "fetchstr_loop n (a + 1) s = Done (if 0 \<in> set (map (\<lambda>i. ubyte s (a + 1 + of_nat i)) [0..<n])
      then Some (cut0 (map (\<lambda>i. ubyte s (a + 1 + of_nat i)) [0..<n])) else None) s"
    using Suc.prems u by (intro Suc.IH) simp_all
  then show ?case
    unfolding e using user_byte_Done [OF Suc.prems(1) lt] by (auto simp: kern_defs)
qed (simp add: kern_defs)

text \<open>A string fetched from the process, or the absence of one.\<close>

definition ustring :: "'x kmach_scheme \<Rightarrow> uint \<Rightarrow> uint \<Rightarrow> uchar list option \<Rightarrow> bool" where
  "ustring s size' a r \<longleftrightarrow> (case r of
     Some str \<Rightarrow> unat a + length str < unat size' \<and> (\<forall>i < length str. str ! i \<noteq> 0 \<and> ubyte s (a + of_nat i) = str ! i) \<and>
       ubyte s (a + of_nat (length str)) = 0
   | None \<Rightarrow> (\<forall>v. a \<le> v \<and> v < size' \<longrightarrow> ubyte s v \<noteq> 0))"

lemma cut0_found:
  assumes "0 \<in> set xs"
  shows "length (cut0 xs) < length xs" "i < length (cut0 xs) \<Longrightarrow> cut0 xs ! i = xs ! i \<and> xs ! i \<noteq> 0" "xs ! length (cut0 xs) = 0"
proof -
  obtain ys zs where xs: "xs = ys @ 0 # zs" "0 \<notin> set ys" using assms by (auto dest: split_list_first)
  have "takeWhile (\<lambda>c. c \<noteq> 0) (ys @ 0 # zs) = ys" using xs(2) by (induction ys) auto
  then have "cut0 xs = ys" unfolding cut0_def xs(1) .
  then show "length (cut0 xs) < length xs" "i < length (cut0 xs) \<Longrightarrow> cut0 xs ! i = xs ! i \<and> xs ! i \<noteq> 0" "xs ! length (cut0 xs) = 0"
    using xs by (auto simp: nth_append in_set_conv_nth)
qed

lemma fetchstr_Done:
  assumes p: "in_proc p s" and m: "mapped_below (sz (proc_at p s)) s"
  shows "\<exists>r. fetchstr a s = Done r s \<and> ustring s (sz (proc_at p s)) a r"
proof (cases "a < sz (proc_at p s)")
  case True
  let ?z = "sz (proc_at p s)"
  let ?n = "unat ?z - unat a" let ?f = "\<lambda>i. ubyte s (a + of_nat i)"
  have n: "unat a + ?n = unat ?z" using True by (simp add: word_less_nat_alt)
  have fs: "fetchstr a s = fetchstr_loop ?n a s" using True p by (simp add: fetchstr_def kern_defs curproc_Done not_le)
  show ?thesis
  proof (cases "0 \<in> set (map ?f [0..<?n])")
    case z: True
    note c = cut0_found [OF z]
    have "fetchstr a s = Done (Some (cut0 (map ?f [0..<?n]))) s" unfolding fs using fetchstr_loop_Done [OF m, of a ?n] n z by simp
    moreover have "ustring s ?z a (Some (cut0 (map ?f [0..<?n])))"
      unfolding ustring_def option.case using c n by auto
    ultimately show ?thesis by blast
  next
    case False
    have "ustring s ?z a None"
      unfolding ustring_def option.case
    proof (intro allI impI, elim conjE)
      fix v assume v: "a \<le> v" "v < ?z"
      then have "v = a + of_nat (unat v - unat a)" by (simp add: word_le_nat_alt of_nat_diff)
      moreover have "unat v - unat a < ?n" using v by (simp add: word_le_nat_alt word_less_nat_alt)
      ultimately obtain i where "v = a + of_nat i" "i < ?n" by blast
      then show "ubyte s v \<noteq> 0" using False by force
    qed
    moreover have "fetchstr a s = Done None s" unfolding fs using fetchstr_loop_Done [OF m, of a ?n] n False by simp
    ultimately show ?thesis by blast
  qed
next
  case False
  then have "fetchstr a s = Done None s" using p by (simp add: fetchstr_def kern_defs curproc_Done not_less)
  moreover have "ustring s (sz (proc_at p s)) a None" using False by (auto simp: ustring_def)
  ultimately show ?thesis by blast
qed

lemma argptr_Done:
  assumes p: "in_proc p s" and k: "sz (proc_at p s) \<le> KERNBASE" and l: "is_int32 len" and a: "argint j s = Done (Some a) s"
  shows "argptr j len s = Done (if 0 \<le> len \<and> a < sz (proc_at p s) \<and> unat a + nat len \<le> unat (sz (proc_at p s)) then Some a else None) s"
proof -
  let ?z = "sz (proc_at p s)"
  have z: "unat ?z \<le> 2 ^ 31" using k by (simp add: word_le_nat_alt KERNBASE_def)
  have "(len < 0 \<or> a \<ge> ?z \<or> a + word_of_int len > ?z) \<longleftrightarrow> \<not> (0 \<le> len \<and> a < ?z \<and> unat a + nat len \<le> unat ?z)"
  proof (cases "0 \<le> len \<and> a < ?z")
    case True
    then have "word_of_int len = (of_nat (nat len) :: uint)" by simp
    moreover have "nat len < 2 ^ 31" using l by (auto simp: is_int32_def)
    then have "unat a + nat len < 2 ^ 32" using True z by (simp add: word_less_nat_alt)
    ultimately have "unat (a + word_of_int len) = unat a + nat len" using unat_add_of_nat by metis
    then show ?thesis using True by (auto simp: word_less_nat_alt word_le_nat_alt)
  next
    case False
    then show ?thesis by auto
  qed
  then show ?thesis using p a by (simp add: argptr_def kern_defs curproc_Done)
qed

text \<open>C12. The kernel accepts a system call argument only when it lies inside the process, and reads it correctly, for a process
  of at most 2 GB whose pages are mapped. A word is fetched exactly when its four bytes are below the size of the process; a
  buffer is accepted exactly when all of it is (no wrap-around lets it through); a string is accepted exactly when it ends
  with a zero byte below the size, and the bytes returned are those of the process.\<close>

theorem syscall_arguments_in_bounds:
  assumes "in_proc p s" "sz (proc_at p s) \<le> KERNBASE" "mapped_below (sz (proc_at p s)) s" "is_int32 len"
  shows "fetchint a s = Done (if unat a + 4 \<le> unat (sz (proc_at p s)) then Some (dec32 (map (\<lambda>i. ubyte s (a + of_nat i)) [0..<4])) else None) s \<and>
    (argint j s = Done (Some b) s \<longrightarrow>
      argptr j len s = Done (if 0 \<le> len \<and> b < sz (proc_at p s) \<and> unat b + nat len \<le> unat (sz (proc_at p s)) then Some b else None) s) \<and>
    (\<exists>r. fetchstr a s = Done r s \<and> ustring s (sz (proc_at p s)) a r)"
  using fetchint_Done [OF assms(1,3,2)] argptr_Done [OF assms(1,2,4)] fetchstr_Done [OF assms(1,3)] by blast

text \<open>A process of one page, mapped through one page table; the page starts with a string.\<close>

definition one_page_ram :: mem where
  "one_page_ram = store32 0x803FF000 0x00200007 (store32 0x80200000 0x00300007 (store_bytes 0x80300000 [104, 105, 0, 0] (\<lambda>_. 0)))"

definition one_page_proc :: kproc where
  "one_page_proc = (upd_proc 0 (\<lambda>q. q\<lparr>sz := 4096\<rparr>) (boot ()))\<lparr>ram := one_page_ram, hw_cr3 := 0x3FF000\<rparr>"

lemma small_va: "va < 4096 \<Longrightarrow> PDX va = 0 \<and> PTX va = 0 \<and> va AND 0xFFF = va" for va :: uint
proof -
  assume "va < 4096"
  then have u: "unat va < 4096" by (simp add: word_less_nat_alt)
  have "unat (drop_bit 12 va) = 0" "unat (drop_bit 22 va) = 0" using u by (simp_all add: drop_bit_eq_div unat_div)
  then have "drop_bit 12 va = 0" "drop_bit 22 va = 0" by (simp_all only: unat_eq_zero)
  moreover have "PGROUNDDOWN va = 0" using u by (simp add: PGROUNDDOWN_def and_not_4095 flip: unat_eq_zero)
  then have "va AND 0xFFF = va" using page_offset(1) [of va] by simp
  ultimately show ?thesis by (simp add: PDX_def PTX_def PDXSHIFT_def PTXSHIFT_def)
qed

lemma one_page_translate: "va < 4096 \<Longrightarrow> translate one_page_ram 0x803FF000 va = Some (0x80300000 + va)"
proof -
  assume "va < 4096"
  note v = small_va [OF this]
  have e: "load32 one_page_ram 0x803FF000 = 0x00200007" "load32 one_page_ram 0x80200000 = 0x00300007"
    unfolding one_page_ram_def by (rule load_store32) (simp add: load32_def store32_def)
  show ?thesis
    unfolding translate_def pte_of_def Let_def using v e
    by (simp add: PTE_P_def PTE_ADDR_def P2V_def KERNBASE_def)
qed

lemma one_page_proc_sel:
  "in_proc 0 one_page_proc" "sz (proc_at 0 one_page_proc) = 4096" "ram one_page_proc = one_page_ram" "hw_cr3 one_page_proc = 0x3FF000"
proof -
  show "in_proc 0 one_page_proc" "ram one_page_proc = one_page_ram" "hw_cr3 one_page_proc = 0x3FF000" by (simp_all add: one_page_proc_def)
  show "sz (proc_at 0 one_page_proc) = 4096" by (simp add: one_page_proc_def upd_proc_def demo_sel NPROC_def demo_procs_def)
qed

lemma one_page_mapped: "mapped_below 4096 one_page_proc"
  unfolding mapped_below_def using one_page_translate by (simp add: one_page_proc_sel P2V_def KERNBASE_def)

theorem syscall_arguments_in_bounds_witness:
  "in_proc 0 one_page_proc \<and> mapped_below 4096 one_page_proc \<and> fetchint 0 one_page_proc = Done (Some 0x6968) one_page_proc \<and>
   fetchint 4093 one_page_proc = Done None one_page_proc \<and> (\<exists>r. fetchstr 0 one_page_proc = Done r one_page_proc \<and> ustring one_page_proc 4096 0 r)"
proof -
  have k: "sz (proc_at 0 one_page_proc) \<le> KERNBASE" "mapped_below (sz (proc_at 0 one_page_proc)) one_page_proc" "is_int32 0"
    using one_page_mapped by (simp_all add: one_page_proc_sel KERNBASE_def is_int32_def)
  note B = syscall_arguments_in_bounds [OF one_page_proc_sel(1) k, unfolded one_page_proc_sel]
  have u: "ubyte one_page_proc va = one_page_ram (0x80300000 + va)" if "va < 4096" for va
    using one_page_translate [OF that] by (simp add: ubyte_def one_page_proc_sel P2V_def KERNBASE_def)
  have "map (\<lambda>i. ubyte one_page_proc (0 + of_nat i)) [0..<4] = [104, 105, 0, 0]"
    by (simp add: u upt_rec one_page_ram_def store32_def store_bytes_def)
  then show ?thesis
    using B [of 0] B [of 4093] one_page_proc_sel(1) one_page_mapped by (simp add: dec32_def)
qed

end
