(* ===== verification/Syscall.thy ===== *)
theory Syscall
  imports Sysfile
begin

text \<open>
  The remaining system calls, \<^verbatim>\<open>src/sysproc.c\<close>, the dispatch of \<^verbatim>\<open>src/syscall.c\<close>, and the trap handler of
  \<^verbatim>\<open>src/trap.c\<close>. The table \<^verbatim>\<open>syscalls\<close> is a list of function names, \<open>sys_run\<close> the call through it. The local variable
  \<^verbatim>\<open>id\<close> of the container calls is not initialised when the argument cannot be fetched, so that case is undefined.
\<close>

subsection \<open>Process calls\<close>

definition my :: "(proc \<Rightarrow> 'a) \<Rightarrow> ('x kproc_scheme, 'a) kern" where
  "my fld = bnd curproc (\<lambda>p. gets (\<lambda>s. fld (proc_at p s)))"

text \<open>\<^verbatim>\<open>argint\<close> whose result is not tested.\<close>

definition argint_unchecked :: "nat \<Rightarrow> ('x kproc_scheme, int) kern" where
  "argint_unchecked n = with_arg (argint n) (undef ''uninitialised argument'') (\<lambda>v. ret (sint v))"

definition sys_create_container :: "('x kproc_scheme, int) kern" where
  "sys_create_container = createContainer"

definition sys_destroy_container :: "('x kproc_scheme, int) kern" where
  "sys_destroy_container = bnd (argint_unchecked 0) (\<lambda>cid.
     if cid < 0 \<or> cid \<ge> int NCONT then undef ''containers''
     else bnd (gets (\<lambda>s. containers (ctable s) ! nat cid)) (\<lambda>c.
       sq (if c = 0 then cprintf (''This is id is already non-existant'' @ [CHR 0x0A]) []
           else modify (\<lambda>s. s\<lparr>ctable := (ctable s)\<lparr>containers := (containers (ctable s))[nat cid := 0]\<rparr>\<rparr>)) (
       sq (destroyContainer cid) (ret 0))))"

definition sys_join_container :: "('x kproc_scheme, int) kern" where
  "sys_join_container = bnd (argint_unchecked 0) (\<lambda>cid. bnd (my pid) (\<lambda>pd. sq (addProcessToContainer pd cid) (ret 0)))"

definition sys_leave_container :: "('x kproc_scheme, int) kern" where
  "sys_leave_container = bnd (my pid) (\<lambda>pd. sq (removeProcessFromContainer pd) (ret 0))"

definition sys_ps :: "('x kproc_scheme, int) kern" where
  "sys_ps = bnd (my pid) (\<lambda>pd. bnd (my containerID) (\<lambda>cid. sq (psHelper pd cid) (ret 0)))"

definition sys_list_containers :: "('x kproc_scheme, int) kern" where
  "sys_list_containers = sq listContainersHelper (ret 0)"

definition sys_container_malloc :: "('x kproc_scheme, int) kern" where
  "sys_container_malloc = bnd (argint_unchecked 0) (\<lambda>numBytes. bnd (my pid) (\<lambda>pd. sq (container_malloc numBytes pd) (ret 0)))"

definition sys_scheduler_log_on :: "('x kproc_scheme, int) kern" where
  "sys_scheduler_log_on = sq (modify (\<lambda>s. s\<lparr>ctable := (ctable s)\<lparr>schedulerLog := 1\<rparr>\<rparr>)) (ret 0)"

definition sys_scheduler_log_off :: "('x kproc_scheme, int) kern" where
  "sys_scheduler_log_off = sq (modify (\<lambda>s. s\<lparr>ctable := (ctable s)\<lparr>schedulerLog := 0\<rparr>\<rparr>)) (ret 0)"

definition sys_memory_log_on :: "('x kproc_scheme, int) kern" where
  "sys_memory_log_on = sq (modify (\<lambda>s. s\<lparr>ctable := (ctable s)\<lparr>memoryLog := 1\<rparr>\<rparr>)) (ret 0)"

definition sys_memory_log_off :: "('x kproc_scheme, int) kern" where
  "sys_memory_log_off = sq (modify (\<lambda>s. s\<lparr>ctable := (ctable s)\<lparr>memoryLog := 0\<rparr>\<rparr>)) (ret 0)"

definition sys_fork :: "('x kfile_scheme, int) kern" where
  "sys_fork = fork"

definition sys_exit :: "('x kfile_scheme, int) kern" where
  "sys_exit = sq (exit :: ('x kfile_scheme, unit) kern) (ret 0)"

definition sys_wait :: "('x kproc_scheme, int) kern" where
  "sys_wait = wait"

definition sys_kill :: "('x kproc_scheme, int) kern" where
  "sys_kill = with_arg (argint 0) (ret (-1)) (\<lambda>pd. kill (sint pd))"

definition sys_getpid :: "('x kproc_scheme, int) kern" where
  "sys_getpid = my pid"

definition sys_getcid :: "('x kproc_scheme, int) kern" where
  "sys_getcid = gtcid"

definition sys_sbrk :: "('x kfile_scheme, int) kern" where
  "sys_sbrk = with_arg (argint 0) (ret (-1)) (\<lambda>n.
     bnd (my sz) (\<lambda>addr. bnd (growproc (sint n)) (\<lambda>r.
     if r < 0 then ret (-1) else ret (sint addr))))"

definition sys_sleep_loop :: "uint \<Rightarrow> uint \<Rightarrow> ('x kfile_scheme, int) kern" where
  "sys_sleep_loop ticks0 n = bnd (gets ticks) (\<lambda>t.
     if t - ticks0 < n then
       bnd (my killed) (\<lambda>k.
       if k then sq (release Lk_ticks) (ret (-1)) else sleep Chan_ticks Lk_ticks)
     else sq (release Lk_ticks) (ret 0))"

definition sys_sleep :: "('x kfile_scheme, int) kern" where
  "sys_sleep = with_arg (argint 0) (ret (-1)) (\<lambda>n.
     sq (acquire Lk_ticks) (bnd (gets ticks) (\<lambda>ticks0. sys_sleep_loop ticks0 n)))"

definition sys_sleep_resume :: "nat \<Rightarrow> bool \<Rightarrow> uint \<Rightarrow> uint \<Rightarrow> ('x kfile_scheme, int) kern" where
  "sys_sleep_resume p en ticks0 n = sq (sleep_resume p en Lk_ticks) (sys_sleep_loop ticks0 n)"

definition sys_uptime :: "('x kfile_scheme, int) kern" where
  "sys_uptime = sq (acquire Lk_ticks) (bnd (gets ticks) (\<lambda>xticks. sq (release Lk_ticks) (ret (sint xticks))))"

subsection \<open>Dispatch\<close>

datatype sysfn = Sys_fork | Sys_exit | Sys_wait | Sys_pipe | Sys_read | Sys_kill | Sys_exec | Sys_fstat | Sys_chdir
  | Sys_dup | Sys_getpid | Sys_sbrk | Sys_sleep | Sys_uptime | Sys_open | Sys_write | Sys_mknod | Sys_unlink | Sys_link
  | Sys_mkdir | Sys_close | Sys_create_container | Sys_join_container | Sys_leave_container | Sys_destroy_container
  | Sys_ps | Sys_list_containers | Sys_container_malloc | Sys_memory_log_on | Sys_memory_log_off
  | Sys_scheduler_log_on | Sys_scheduler_log_off | Sys_getcid

text \<open>The table by system call number; number 0 has no entry.\<close>

definition syscalls :: "sysfn option list" where
  "syscalls = [None, Some Sys_fork, Some Sys_exit, Some Sys_wait, Some Sys_pipe, Some Sys_read, Some Sys_kill, Some Sys_exec,
     Some Sys_fstat, Some Sys_chdir, Some Sys_dup, Some Sys_getpid, Some Sys_sbrk, Some Sys_sleep, Some Sys_uptime,
     Some Sys_open, Some Sys_write, Some Sys_mknod, Some Sys_unlink, Some Sys_link, Some Sys_mkdir, Some Sys_close,
     Some Sys_create_container, Some Sys_join_container, Some Sys_leave_container, Some Sys_destroy_container,
     Some Sys_ps, Some Sys_list_containers, Some Sys_container_malloc, Some Sys_memory_log_on, Some Sys_memory_log_off,
     Some Sys_scheduler_log_on, Some Sys_scheduler_log_off, Some Sys_getcid]"

primrec sys_run :: "sysfn \<Rightarrow> ('x kfile_scheme, int) kern" where
  "sys_run Sys_fork = sys_fork" | "sys_run Sys_exit = sys_exit" | "sys_run Sys_wait = sys_wait" | "sys_run Sys_pipe = sys_pipe"
| "sys_run Sys_read = sys_read" | "sys_run Sys_kill = sys_kill" | "sys_run Sys_exec = sys_exec" | "sys_run Sys_fstat = sys_fstat"
| "sys_run Sys_chdir = sys_chdir" | "sys_run Sys_dup = sys_dup" | "sys_run Sys_getpid = sys_getpid" | "sys_run Sys_sbrk = sys_sbrk"
| "sys_run Sys_sleep = sys_sleep" | "sys_run Sys_uptime = sys_uptime" | "sys_run Sys_open = sys_open" | "sys_run Sys_write = sys_write"
| "sys_run Sys_mknod = sys_mknod" | "sys_run Sys_unlink = sys_unlink" | "sys_run Sys_link = sys_link" | "sys_run Sys_mkdir = sys_mkdir"
| "sys_run Sys_close = sys_close" | "sys_run Sys_create_container = sys_create_container"
| "sys_run Sys_join_container = sys_join_container" | "sys_run Sys_leave_container = sys_leave_container"
| "sys_run Sys_destroy_container = sys_destroy_container" | "sys_run Sys_ps = sys_ps"
| "sys_run Sys_list_containers = sys_list_containers" | "sys_run Sys_container_malloc = sys_container_malloc"
| "sys_run Sys_memory_log_on = sys_memory_log_on" | "sys_run Sys_memory_log_off = sys_memory_log_off"
| "sys_run Sys_scheduler_log_on = sys_scheduler_log_on" | "sys_run Sys_scheduler_log_off = sys_scheduler_log_off"
| "sys_run Sys_getcid = sys_getcid"

definition syscall :: "('x kfile_scheme, unit) kern" where
  "syscall = bnd curproc (\<lambda>p. bnd (gets (proc_at p)) (\<lambda>q.
     bnd (tf_get (tf q) Tf_eax) (\<lambda>eax. let num = sint eax in
     if num > 0 \<and> num < int (length syscalls) \<and> syscalls ! nat num \<noteq> None then
       bnd (case syscalls ! nat num of Some f \<Rightarrow> sys_run f | None \<Rightarrow> ret (-1)) (\<lambda>r.
       bnd (gets (\<lambda>s. tf (proc_at p s))) (\<lambda>t. tf_set t Tf_eax (word_of_int r)))
     else
       sq (cprintf (''%d %s: unknown sys call %d'' @ [CHR 0x0A]) [Arg (pid q), Str (Some (pname q)), Arg num]) (
       bnd (gets (\<lambda>s. tf (proc_at p s))) (\<lambda>t. tf_set t Tf_eax (-1))))))"

subsection \<open>Traps\<close>

definition T_SYSCALL :: uint where "T_SYSCALL = 64"
definition IRQ_TIMER :: uint where "IRQ_TIMER = 0"
definition IRQ_SPURIOUS :: uint where "IRQ_SPURIOUS = 31"

definition lapiceoi :: "('x kfile_scheme, unit) kern" where
  "lapiceoi = modify (\<lambda>s. s\<lparr>eois := eois s + 1\<rparr>)"

definition timer_tick :: "('x kfile_scheme, unit) kern" where
  "timer_tick = bnd cpuid (\<lambda>c. whenM (c = 0) (
     sq (acquire Lk_ticks) (
     sq (modify (\<lambda>s. s\<lparr>ticks := ticks s + 1\<rparr>)) (
     sq (wakeup Chan_ticks) (release Lk_ticks)))))"

text \<open>The \<^verbatim>\<open>switch\<close>. The interrupt of the disk does nothing for the in-memory disk.\<close>

definition trap_switch :: "uint \<Rightarrow> uint \<Rightarrow> ('x kfile_scheme, unit) kern" where
  "trap_switch t trapno =
    (if trapno = T_IRQ0 + IRQ_TIMER then sq timer_tick lapiceoi
     else if trapno = T_IRQ0 + IRQ_IDE then lapiceoi
     else if trapno = T_IRQ0 + IRQ_IDE + 1 then ret ()
     else if trapno = T_IRQ0 + IRQ_KBD then sq kbdintr lapiceoi
     else if trapno = T_IRQ0 + IRQ_COM1 then sq uartintr lapiceoi
     else
       bnd (tf_get t Tf_cs) (\<lambda>cs. bnd (tf_get t Tf_eip) (\<lambda>eip. bnd cpuid (\<lambda>c.
       if trapno = T_IRQ0 + 7 \<or> trapno = T_IRQ0 + IRQ_SPURIOUS then
         sq (cprintf (''cpu%d: spurious interrupt at %x:%x'' @ [CHR 0x0A]) [Arg (int c), Arg (uint (cs AND 0xFFFF)), Arg (sint eip)]) lapiceoi
       else bnd (gets hw_cr2) (\<lambda>cr2. bnd myproc (\<lambda>r. case r of
           None \<Rightarrow>
             sq (cprintf (''unexpected trap %d from cpu %d eip %x (cr2=0x%x)'' @ [CHR 0x0A])
                  [Arg (sint trapno), Arg (int c), Arg (sint eip), Arg (sint cr2)]) (panic ''trap'')
         | Some p \<Rightarrow>
             if cs AND 3 = 0 then
               sq (cprintf (''unexpected trap %d from cpu %d eip %x (cr2=0x%x)'' @ [CHR 0x0A])
                    [Arg (sint trapno), Arg (int c), Arg (sint eip), Arg (sint cr2)]) (panic ''trap'')
             else bnd (gets (proc_at p)) (\<lambda>q. bnd (tf_get t Tf_err) (\<lambda>err.
               sq (cprintf (''pid %d %s: trap %d err %d on cpu %d eip 0x%x addr 0x%x--kill proc'' @ [CHR 0x0A])
                    [Arg (pid q), Str (Some (pname q)), Arg (sint trapno), Arg (sint err), Arg (int c), Arg (sint eip), Arg (sint cr2)])
                  (modify (upd_proc p (\<lambda>q. q\<lparr>killed := True\<rparr>)))))))))))"

definition exit_if_killed :: "uint \<Rightarrow> ('x kfile_scheme, unit) kern" where
  "exit_if_killed cs = bnd myproc (\<lambda>r. case r of
       None \<Rightarrow> ret ()
     | Some p \<Rightarrow> bnd (gets (\<lambda>s. killed (proc_at p s))) (\<lambda>k. whenM (k \<and> cs AND 3 = DPL_USER) exit))"

definition trap :: "uint \<Rightarrow> ('x kfile_scheme, unit) kern" where
  "trap t = bnd (tf_get t Tf_trapno) (\<lambda>trapno. bnd (tf_get t Tf_cs) (\<lambda>cs.
     if trapno = T_SYSCALL then
       bnd (my killed) (\<lambda>k. sq (whenM k exit) (
       bnd curproc (\<lambda>p. sq (modify (upd_proc p (\<lambda>q. q\<lparr>tf := t\<rparr>))) (
       sq syscall (
       bnd (my killed) (\<lambda>k. whenM k exit))))))
     else
       sq (trap_switch t trapno) (
       sq (exit_if_killed cs) (
       sq (bnd myproc (\<lambda>r. case r of
            None \<Rightarrow> ret ()
          | Some p \<Rightarrow> bnd (gets (\<lambda>s. pstate (proc_at p s))) (\<lambda>st.
              whenM (st = RUNNING \<and> trapno = T_IRQ0 + IRQ_TIMER) yield)))
          (exit_if_killed cs)))))"

text \<open>After a clock tick took the processor away, the process continues here.\<close>

definition trap_resume :: "bool \<Rightarrow> uint \<Rightarrow> ('x kfile_scheme, unit) kern" where
  "trap_resume en cs = sq (yield_resume en) (exit_if_killed cs)"

end
