(* ===== verification/Typed.thy ===== *)
theory Typed
  imports Syscall
begin

text \<open>
  Every kernel operation keeps the kernel's data well-typed: the arrays have their declared lengths and every pointer that
  is stored in a table (open files, current directories, parents, inodes of files, links of the buffer list) points into
  the table it refers to. In the model an access outside an array is mostly silent, so this is what shows that
  the tables mean what the source means by them.

  The proofs use the judgement \<open>keeps\<close>, whose rules follow the shape of the program text: an operation is done by its
  definition and the facts about the operations it calls, which are collected in \<open>keeps_op\<close>.
\<close>

subsection \<open>Well-typed kernel data\<close>

named_theorems keeps_op \<open>operations that keep the kernel typed\<close>

definition tab :: "nat \<Rightarrow> ('a \<Rightarrow> bool) \<Rightarrow> 'a list \<Rightarrow> bool" where
  "tab n P xs \<longleftrightarrow> length xs = n \<and> (\<forall>x \<in> set xs. P x)"

definition ptr :: "nat \<Rightarrow> nat option \<Rightarrow> bool" where
  "ptr n r \<longleftrightarrow> (\<forall>i. r = Some i \<longrightarrow> i < n)"

definition cpu_typed :: "cpu \<Rightarrow> bool" where
  "cpu_typed c \<longleftrightarrow> ptr NPROC (cpu_proc c)"

definition proc_typed :: "proc \<Rightarrow> bool" where
  "proc_typed q \<longleftrightarrow> tab NOFILE (ptr NFILE) (ofile q) \<and> ptr NINODE (cwd q) \<and> ptr NPROC (parent q)"

definition con_typed :: "container \<Rightarrow> bool" where
  "con_typed c \<longleftrightarrow> length (page (pgTable c)) = NPAGE"

definition buf_typed :: "buf \<Rightarrow> bool" where
  "buf_typed b \<longleftrightarrow> b_next b \<le> NBUF \<and> b_prev b \<le> NBUF \<and> length (data b) = BSIZE"

definition inode_typed :: "inode \<Rightarrow> bool" where
  "inode_typed x \<longleftrightarrow> length (addrs x) = NDIRECT + 1"

definition file_typed :: "file_struct \<Rightarrow> bool" where
  "file_typed f \<longleftrightarrow> ptr NINODE (f_ip f)"

definition typed :: "nat \<Rightarrow> 'x kfile_scheme \<Rightarrow> bool" where
  "typed n s \<longleftrightarrow> tab n cpu_typed (cpus s) \<and>
     tab NPROC proc_typed (procs (ptable s)) \<and> ptr NPROC (initproc (ptable s)) \<and>
     tab NCONT con_typed (container (ctable s)) \<and> length (containers (ctable s)) = NCONT \<and>
     tab (Suc NBUF) buf_typed (bcache s) \<and> (\<forall>b \<in> set (memdisk s). length b = BSIZE) \<and>
     length (lh_block (lh (the_log s))) = LOGSIZE \<and> (\<forall>p. length (pdata (pipes s p)) = PIPESIZE) \<and>
     tab NINODE inode_typed (icache s) \<and> length (ibuf (the_input s)) = INPUT_BUF \<and> length (the_devsw s) = NDEV \<and>
     tab NFILE file_typed (ftable s)"

lemma tab_update: "tab n P xs \<Longrightarrow> (i < n \<Longrightarrow> P x) \<Longrightarrow> tab n P (xs[i := x])"
  by (cases "i < length xs") (auto simp: tab_def list_update_beyond dest!: set_update_subset_insert [THEN subsetD])

lemma tab_nth: "tab n P xs \<Longrightarrow> i < n \<Longrightarrow> P (xs ! i)"
  by (simp add: tab_def)

lemma ptr_simps [simp]: "ptr n None" "ptr n (Some i) \<longleftrightarrow> i < n"
  by (simp_all add: ptr_def)

text \<open>Updates of components the invariant does not mention.\<close>

lemma typed_frame [simp]:
  "typed n (s\<lparr>hw_if := b\<rparr>) \<longleftrightarrow> typed n s" "typed n (upd_lock lk g s) \<longleftrightarrow> typed n s" "typed n (s\<lparr>ram := m\<rparr>) \<longleftrightarrow> typed n s"
  "typed n (s\<lparr>kmem := a\<rparr>) \<longleftrightarrow> typed n s" "typed n (s\<lparr>hw_cr3 := v\<rparr>) \<longleftrightarrow> typed n s" "typed n (s\<lparr>cons := c\<rparr>) \<longleftrightarrow> typed n s"
  "typed n (upd_slock i l s) \<longleftrightarrow> typed n s" "typed n (s\<lparr>the_sb := x\<rparr>) \<longleftrightarrow> typed n s" "typed n (s\<lparr>dwrites := w\<rparr>) \<longleftrightarrow> typed n s"
  "typed n (s\<lparr>kbd_shift := v\<rparr>) \<longleftrightarrow> typed n s" "typed n (s\<lparr>kbd_bytes := q\<rparr>) \<longleftrightarrow> typed n s" "typed n (s\<lparr>uart_bytes := q\<rparr>) \<longleftrightarrow> typed n s"
  "typed n (s\<lparr>ticks := v\<rparr>) \<longleftrightarrow> typed n s" "typed n (s\<lparr>eois := k\<rparr>) \<longleftrightarrow> typed n s" "typed n (s\<lparr>forkret_first := b\<rparr>) \<longleftrightarrow> typed n s"
  "typed n (s\<lparr>ptable := (ptable s)\<lparr>nextpid := z\<rparr>\<rparr>) \<longleftrightarrow> typed n s" "typed n (s\<lparr>ctable := (ctable s)\<lparr>schedulerLog := z\<rparr>\<rparr>) \<longleftrightarrow> typed n s"
  "typed n (s\<lparr>ctable := (ctable s)\<lparr>memoryLog := z\<rparr>\<rparr>) \<longleftrightarrow> typed n s"
  "typed n (s\<lparr>ctable := (ctable s)\<lparr>containers := (containers (ctable s))[i := z]\<rparr>\<rparr>) \<longleftrightarrow> typed n s"
  by (simp_all add: typed_def upd_lock_def upd_slock_def)

lemma upd_typed:
  "typed n s \<Longrightarrow> (\<And>x. cpu_typed x \<Longrightarrow> cpu_typed (f x)) \<Longrightarrow> typed n (upd_cpu i f s)"
  "typed n s \<Longrightarrow> (\<And>x. proc_typed x \<Longrightarrow> proc_typed (g x)) \<Longrightarrow> typed n (upd_proc i g s)"
  "typed n s \<Longrightarrow> (\<And>x. con_typed x \<Longrightarrow> con_typed (h x)) \<Longrightarrow> typed n (upd_con i h s)"
  "typed n s \<Longrightarrow> (\<And>x. buf_typed x \<Longrightarrow> buf_typed (b x)) \<Longrightarrow> typed n (upd_buf i b s)"
  "typed n s \<Longrightarrow> (\<And>x. inode_typed x \<Longrightarrow> inode_typed (j x)) \<Longrightarrow> typed n (upd_inode i j s)"
  "typed n s \<Longrightarrow> (\<And>x. file_typed x \<Longrightarrow> file_typed (k x)) \<Longrightarrow> typed n (upd_file i k s)"
  by (auto simp: typed_def upd_cpu_def upd_proc_def upd_con_def upd_buf_def upd_inode_def upd_file_def intro!: tab_update dest: tab_nth)

lemmas typed_ok = cpu_typed_def proc_typed_def con_typed_def buf_typed_def inode_typed_def file_typed_def

lemma typedD [simp]:
  "typed n s \<Longrightarrow> i < n \<Longrightarrow> ptr NPROC (cpu_proc (cpus s ! i))"
  "typed n s \<Longrightarrow> i < NPROC \<Longrightarrow> ptr NINODE (cwd (procs (ptable s) ! i))"
  "typed n s \<Longrightarrow> i < NPROC \<Longrightarrow> ptr NPROC (parent (procs (ptable s) ! i))"
  "typed n s \<Longrightarrow> i < NPROC \<Longrightarrow> tab NOFILE (ptr NFILE) (ofile (procs (ptable s) ! i))"
  "typed n s \<Longrightarrow> ptr NPROC (initproc (ptable s))"
  "typed n s \<Longrightarrow> i \<le> NBUF \<Longrightarrow> length (data (bcache s ! i)) = BSIZE"
  "typed n s \<Longrightarrow> i \<le> NBUF \<Longrightarrow> b_next (bcache s ! i) \<le> NBUF"
  "typed n s \<Longrightarrow> i \<le> NBUF \<Longrightarrow> b_prev (bcache s ! i) \<le> NBUF"
  "typed n s \<Longrightarrow> i < NINODE \<Longrightarrow> length (addrs (icache s ! i)) = NDIRECT + 1"
  "typed n s \<Longrightarrow> i < NFILE \<Longrightarrow> ptr NINODE (f_ip (ftable s ! i))"
  "typed n s \<Longrightarrow> i < length (memdisk s) \<Longrightarrow> length (memdisk s ! i) = BSIZE"
  "typed n s \<Longrightarrow> length (procs (ptable s)) = NPROC" "typed n s \<Longrightarrow> length (icache s) = NINODE" "typed n s \<Longrightarrow> length (ftable s) = NFILE"
  "typed n s \<Longrightarrow> length (cpus s) = n"
  by (auto simp: typed_def cpu_typed_def proc_typed_def buf_typed_def inode_typed_def file_typed_def tab_def)

lemma typed_ptrs:
  "typed n s \<Longrightarrow> a < NPROC \<Longrightarrow> cwd (procs (ptable s) ! a) = Some i \<Longrightarrow> i < NINODE"
  "typed n s \<Longrightarrow> a < NPROC \<Longrightarrow> k < NOFILE \<Longrightarrow> ofile (procs (ptable s) ! a) ! k = Some i \<Longrightarrow> i < NFILE"
  using typedD(2) [of n s a] tab_nth [OF typedD(4), of n s a k] by auto

lemma first_index_bound: "first_index P xs = Some i \<Longrightarrow> i < length xs"
  by (simp add: first_index_Some)

subsection \<open>Processors, memory, console\<close>

lemma keeps_mycpu [keeps_op]: "keeps (typed n) mycpu (\<lambda>c. c < n)"
  unfolding mycpu_def by (rule keeps_rules | simp add: first_index_Some)+

lemma keeps_cli [keeps_op]: "keep (typed n) cli" "keep (typed n) sti"
  unfolding cli_def sti_def by (rule keeps_modify, simp)+

lemma keeps_pushcli [keeps_op]: "keep (typed n) pushcli"
  unfolding pushcli_def by (rule TrueI keeps_rules keeps_op keeps_modify upd_typed | assumption | simp add: typed_ok)+

lemma keeps_popcli [keeps_op]: "keep (typed n) popcli"
  unfolding popcli_def by (rule TrueI keeps_rules keeps_op keeps_modify upd_typed | assumption | simp add: typed_ok)+

lemma keeps_holding [keeps_op]: "keep (typed n) (holding lk)"
  unfolding holding_def by (rule TrueI keeps_rules keeps_op)+

lemma keeps_initlock [keeps_op]: "keep (typed n) (initlock lk nm)"
  unfolding initlock_def by (rule keeps_modify, simp)

lemma keeps_acquire [keeps_op]: "keep (typed n) (acquire lk)"
  unfolding acquire_def xchg_locked_def by (rule TrueI keeps_rules keeps_op keeps_modify | simp)+

lemma keeps_release [keeps_op]: "keep (typed n) (release lk)"
  unfolding release_def by (rule TrueI keeps_rules keeps_op keeps_modify | simp)+

lemma keeps_kfree [keeps_op]: "keep (typed n) (kfree v)"
  unfolding kfree_def by (rule TrueI keeps_rules keeps_op keeps_modify | simp)+

lemma keeps_kalloc [keeps_op]: "keep (typed n) kalloc"
  unfolding kalloc_def by (rule TrueI keeps_rules keeps_op keeps_modify | simp)+

lemma keeps_consputc [keeps_op]: "keep (typed n) (consputc c)"
  unfolding consputc_def by (rule TrueI keeps_rules keeps_op keeps_modify | simp)+

lemma keeps_puts [keeps_op]: "keep (typed n) (puts str)" "keep (typed n) (printint x b sg)"
  unfolding printint_def puts_def by (rule keeps_rules keeps_op)+

lemma keeps_carg:
  "(\<And>x. r = Arg x \<Longrightarrow> keeps I (m x) Q) \<Longrightarrow> (\<And>x. r = Str x \<Longrightarrow> keeps I (k x) Q) \<Longrightarrow> keeps I (case r of Arg x \<Rightarrow> m x | Str x \<Rightarrow> k x) Q"
  by (cases r) simp_all

lemma keeps_cprintf_loop [keeps_op]: "keep (typed n) (cprintf_loop fmt as :: ('x kfile_scheme, unit) kern)"
proof (induction fmt arbitrary: as rule: length_induct)
  case (1 fmt)
  then have IH: "keep (typed n) (cprintf_loop f as' :: ('x kfile_scheme, unit) kern)" if "length f < length fmt" for f as' using that by blast
  show ?case
  proof (cases fmt)
    case (Cons c rest)
    show ?thesis
      unfolding Cons cprintf_loop.simps
      by (rule TrueI keeps_rules keeps_op keeps_carg IH | simp add: Cons)+
  qed (simp add: keeps_ret)
qed

lemma keeps_cprintf [keeps_op]: "keep (typed n) (cprintf fmt as)"
  unfolding cprintf_def by (rule TrueI keeps_rules keeps_op)+

subsection \<open>Processes and containers\<close>

lemma keeps_myproc [keeps_op]: "keeps (typed n) myproc (ptr NPROC)"
  unfolding myproc_def by (rule TrueI keeps_rules keeps_op | simp)+

lemma keeps_curproc [keeps_op]: "keeps (typed n) curproc (\<lambda>p. p < NPROC)"
  unfolding curproc_def by (rule TrueI keeps_rules keeps_op | simp)+

lemma keeps_allocproc [keeps_op]: "keeps (typed n) allocproc (ptr NPROC)"
  unfolding allocproc_def by (rule TrueI keeps_rules keeps_op keeps_modify upd_typed | assumption | simp add: typed_ok first_index_Some)+

lemma keeps_gtcid [keeps_op]: "keep (typed n) gtcid"
  unfolding gtcid_def by (rule TrueI keeps_rules keeps_op)+

lemma keeps_sched [keeps_op]: "keeps (typed n) sched Q"
  unfolding sched_def by (rule TrueI keeps_rules keeps_op)+

lemma keeps_yield [keeps_op]: "keep (typed n) yield"
  unfolding yield_def by (rule TrueI keeps_rules keeps_op keeps_modify upd_typed | assumption | simp add: typed_ok)+

lemma keeps_sleep [keeps_op]: "keeps (typed n) (sleep ch lk) Q"
  unfolding sleep_def by (rule TrueI keeps_rules keeps_op keeps_modify upd_typed | assumption | simp add: typed_ok)+

lemma keeps_wakeup1 [keeps_op]: "keep (typed n) (wakeup1 ch)"
  unfolding wakeup1_def by (rule TrueI keeps_rules keeps_op keeps_modify upd_typed | assumption | simp add: typed_ok)+

lemma keeps_wakeup [keeps_op]: "keep (typed n) (wakeup ch)"
  unfolding wakeup_def by (rule keeps_rules keeps_op)+

lemma keeps_kill [keeps_op]: "keep (typed n) (kill pd)"
  unfolding kill_def by (rule TrueI keeps_rules keeps_op keeps_modify upd_typed | assumption | simp add: typed_ok)+

lemma keeps_procdump [keeps_op]: "keep (typed n) procdump"
  unfolding procdump_def by (rule TrueI keeps_rules keeps_op)+

lemma keeps_containers [keeps_op]:
  "keep (typed n) (psHelper a b)" "keep (typed n) (addProcessToContainer a b)" "keep (typed n) (removeProcessFromContainer a)"
  "keep (typed n) listContainersHelper" "keep (typed n) (destroyContainer c)"
  unfolding psHelper_def addProcessToContainer_def removeProcessFromContainer_def listContainersHelper_def destroyContainer_def
  by (rule TrueI keeps_rules keeps_op keeps_modify upd_typed | assumption | simp add: typed_ok)+

lemma keeps_container_malloc [keeps_op]: "keep (typed n) (container_malloc a b)"
  unfolding container_malloc_def container_malloc_slot_def upd_page_def
  by (rule TrueI keeps_rules keeps_op keeps_modify upd_typed | assumption | simp add: typed_ok)+

lemma keeps_createContainer_loop [keeps_op]: "keep (typed n) (createContainer_loop is)"
  by (induction "is") (unfold createContainer_loop.simps, (rule TrueI keeps_rules keeps_op keeps_modify upd_typed | assumption | simp add: typed_ok)+)

lemma keeps_createContainer [keeps_op]: "keep (typed n) createContainer"
  unfolding createContainer_def by (rule keeps_rules keeps_op)+

lemma keeps_switchuvm [keeps_op]: "keep (typed n) (switchuvm p)"
  unfolding switchuvm_def by (rule TrueI keeps_rules keeps_op keeps_modify upd_typed | assumption | simp add: typed_ok)+

lemma keeps_sleeplock [keeps_op]:
  "keep (typed n) (initsleeplock k nm)" "keep (typed n) (acquiresleep k)" "keep (typed n) (releasesleep k)" "keep (typed n) (holdingsleep k)"
  unfolding initsleeplock_def acquiresleep_def acquiresleep_loop_def releasesleep_def holdingsleep_def
  by (rule TrueI keeps_rules keeps_op keeps_modify | simp)+

subsection \<open>Blocks\<close>

lemma typed_memdisk: "typed n s \<Longrightarrow> length d = BSIZE \<Longrightarrow> typed n (s\<lparr>memdisk := (memdisk s)[i := d], dwrites := w\<rparr>)"
  by (auto simp: typed_def dest!: set_update_subset_insert [THEN subsetD])

lemma keeps_iderw [keeps_op]:
  assumes "i \<le> NBUF"
  shows "keep (typed n) (iderw i)"
proof -
  have "typed n (upd_buf i (\<lambda>x. x\<lparr>b_valid := True\<rparr>) (upd_buf i (\<lambda>b. b\<lparr>data := memdisk s ! unat (blockno b)\<rparr>) s))"
    if s: "typed n s" and l: "unat (blockno (buf_at i s)) < length (memdisk s)" for s :: "'a kfile_scheme"
  proof -
    have "upd_buf i (\<lambda>b. b\<lparr>data := memdisk s ! unat (blockno b)\<rparr>) s = upd_buf i (\<lambda>b. b\<lparr>data := memdisk s ! unat (blockno (buf_at i s))\<rparr>) s"
      by (simp add: upd_buf_def)
    then show ?thesis using s l by (auto intro!: upd_typed simp: typed_ok)
  qed
  moreover have "typed n (upd_buf i (\<lambda>x. x\<lparr>b_valid := True\<rparr>) ((upd_buf i (\<lambda>x. x\<lparr>b_dirty := False\<rparr>) s)
      \<lparr>memdisk := (memdisk s)[k := data (buf_at i s)], dwrites := w\<rparr>))" if s: "typed n s" for s :: "'a kfile_scheme" and k w
  proof -
    have "typed n ((upd_buf i (\<lambda>x. x\<lparr>b_dirty := False\<rparr>) s)\<lparr>memdisk := (memdisk (upd_buf i (\<lambda>x. x\<lparr>b_dirty := False\<rparr>) s))[k := data (buf_at i s)], dwrites := w\<rparr>)"
      using s assms by (intro typed_memdisk upd_typed) (auto simp: typed_ok)
    then show ?thesis by (intro upd_typed) (auto simp: typed_ok upd_buf_def)
  qed
  ultimately show ?thesis
    unfolding iderw_def
    by (intro keeps_bnd [OF keeps_sleeplock(4)] keeps_if keeps_panic) (auto simp: keeps_def kern_defs upd_buf_def)
qed

lemma keeps_bget_cached [keeps_op]: "b \<le> NBUF \<Longrightarrow> keeps (typed n) (bget_cached k b dev bno) (ptr NBUF)"
proof (induction k arbitrary: b)
  case (Suc k)
  then show ?case unfolding bget_cached.simps by (intro keeps_rules Suc.IH) (auto simp: HEAD_def)
qed (simp add: keeps_undef)

lemma keeps_bget_free [keeps_op]: "b \<le> NBUF \<Longrightarrow> keeps (typed n) (bget_free k b) (ptr NBUF)"
proof (induction k arbitrary: b)
  case (Suc k)
  then show ?case unfolding bget_free.simps by (intro keeps_rules Suc.IH) (auto simp: HEAD_def)
qed (simp add: keeps_undef)

lemma keeps_bget [keeps_op]: "keeps (typed n) (bget dev bno) (\<lambda>b. b < NBUF)"
  unfolding bget_def
  by (rule TrueI keeps_rules keeps_op keeps_modify upd_typed | assumption | simp add: typed_ok HEAD_def)+

lemma keeps_bread [keeps_op]: "keeps (typed n) (bread dev bno) (\<lambda>b. b < NBUF)"
  unfolding bread_def by (rule TrueI keeps_rules keeps_op | simp)+

lemma keeps_bwrite [keeps_op]: "b < NBUF \<Longrightarrow> keep (typed n) (bwrite b)"
  unfolding bwrite_def by (rule TrueI keeps_rules keeps_op keeps_modify upd_typed | assumption | simp add: typed_ok)+

lemma keeps_lru [keeps_op]: "b < NBUF \<Longrightarrow> keep (typed n) (lru_unlink b)" "b < NBUF \<Longrightarrow> keep (typed n) (lru_push b)"
  unfolding lru_unlink_def lru_push_def by (rule TrueI keeps_rules keeps_op keeps_modify upd_typed | assumption | simp add: typed_ok HEAD_def)+

lemma keeps_brelse [keeps_op]: "b < NBUF \<Longrightarrow> keep (typed n) (brelse b)"
  unfolding brelse_def by (rule TrueI keeps_rules keeps_op keeps_modify upd_typed | assumption | simp add: typed_ok)+

subsection \<open>Log and pipes\<close>

lemma upd_typed_more:
  "typed n s \<Longrightarrow> (\<And>l. length (lh_block (lh l)) = LOGSIZE \<Longrightarrow> length (lh_block (lh (f l))) = LOGSIZE) \<Longrightarrow> typed n (the_log_update f s)"
  "typed n s \<Longrightarrow> (\<And>x. length (pdata x) = PIPESIZE \<Longrightarrow> length (pdata (g x)) = PIPESIZE) \<Longrightarrow> typed n (upd_pipe p g s)"
  unfolding typed_def upd_pipe_def by simp_all

lemma typed_lh [simp]: "typed n s \<Longrightarrow> length (lh_block (lh (the_log s))) = LOGSIZE"
  unfolding typed_def by simp

lemma keeps_readsb [keeps_op]: "keep (typed n) (readsb dev)"
  unfolding readsb_def by (rule TrueI keeps_rules keeps_op | assumption)+

lemma keeps_lh_entry [keeps_op]: "keeps (typed n) (lh_entry i) (\<lambda>_. i < LOGSIZE)"
  unfolding lh_entry_def by (rule keeps_rules | simp)+

lemma keeps_set_entry [keeps_op]: "keep (typed n) (set_entry i b)"
  unfolding set_entry_def by (rule TrueI keeps_rules keeps_modify upd_typed_more | assumption | simp)+

lemma length_put_block [simp]:
  "length d = BSIZE \<Longrightarrow> off + 4 \<le> 512 \<Longrightarrow> length (put32 off v d) = BSIZE"
  "length d = BSIZE \<Longrightarrow> off + 2 \<le> 512 \<Longrightarrow> length (put16 off w d) = BSIZE"
  "length d = BSIZE \<Longrightarrow> off + length bs \<le> 512 \<Longrightarrow> length (put_bytes off bs d) = BSIZE"
  by (simp_all add: BSIZE_def)

lemma keeps_install_trans [keeps_op]: "keep (typed n) install_trans" "keep (typed n) write_log"
  unfolding install_trans_def write_log_def
  by (rule TrueI keeps_rules keeps_op keeps_modify upd_typed | assumption | simp add: typed_ok)+

lemma keeps_read_head [keeps_op]: "keep (typed n) read_head"
  unfolding read_head_def
  by (rule TrueI keeps_rules keeps_op keeps_modify upd_typed_more | assumption | simp)+

lemma keeps_write_head [keeps_op]: "keep (typed n) write_head"
  unfolding write_head_def
  by (rule TrueI keeps_rules keeps_op keeps_modify upd_typed | assumption | simp add: typed_ok LOGSIZE_def MAXOPBLOCKS_def)+

lemma keeps_log [keeps_op]:
  "keep (typed n) recover_from_log" "keep (typed n) (initlog dev)" "keep (typed n) begin_op" "keep (typed n) commit"
  "keep (typed n) end_op" "keep (typed n) (log_write b)"
  unfolding recover_from_log_def initlog_def begin_op_def begin_op_loop_def commit_def end_op_def log_write_def
  by (rule TrueI keeps_rules keeps_op keeps_modify upd_typed upd_typed_more | assumption | simp add: typed_ok)+

lemma keeps_pipeclose [keeps_op]: "keep (typed n) (pipeclose p w)"
  unfolding pipeclose_def
  by (rule TrueI keeps_rules keeps_op keeps_modify upd_typed_more | assumption | simp)+

lemma keeps_pipewrite_loop [keeps_op]: "keep (typed n) (pipewrite_loop p bs k)"
  by (induction bs)
    (unfold pipewrite_loop.simps, (rule TrueI keeps_rules keeps_op keeps_modify upd_typed_more | assumption | simp)+)

lemma keeps_piperead_copy [keeps_op]: "keep (typed n) (piperead_copy p k)"
  by (induction k)
    (unfold piperead_copy.simps, (rule TrueI keeps_rules keeps_op keeps_modify upd_typed_more | assumption | simp)+)

lemma keeps_pipe [keeps_op]: "keep (typed n) (pipewrite p bs k)" "keep (typed n) (piperead p k)"
  unfolding pipewrite_def piperead_def piperead_loop_def
  by (rule TrueI keeps_rules keeps_op keeps_modify upd_typed_more | assumption | simp)+

subsection \<open>Inodes\<close>

lemma upd_data_typed: "(\<And>d. length d = BSIZE \<Longrightarrow> length (f d) = BSIZE) \<Longrightarrow> keep (typed n) (upd_data b f)"
  by (intro keeps_modify upd_typed) (auto simp: typed_ok)

lemma keeps_bzero [keeps_op]: "keep (typed n) (bzero dev b)"
  unfolding bzero_def by (rule TrueI keeps_rules keeps_op upd_data_typed | assumption | simp)+

lemma keeps_balloc_loop [keeps_op]: "keep (typed n) (balloc_loop dev bs)"
  by (induction bs)
    (unfold balloc_loop.simps, (rule TrueI keeps_rules keeps_op upd_data_typed | assumption | simp)+)

lemma keeps_balloc [keeps_op]: "keep (typed n) (balloc dev)"
  unfolding balloc_def by (rule TrueI keeps_rules keeps_op)+

lemma keeps_bfree [keeps_op]: "keep (typed n) (bfree dev b)"
  unfolding bfree_def by (rule TrueI keeps_rules keeps_op upd_data_typed keeps_modify | assumption | simp)+

lemma keeps_iget [keeps_op]: "keeps (typed n) (iget dev inum) (\<lambda>ip. ip < NINODE)"
  unfolding iget_def by (rule TrueI keeps_rules keeps_op keeps_modify upd_typed | assumption | (simp add: typed_ok; fail) | (drule first_index_bound, simp))+

lemma dinode_off_less: "dinode_off i + sizeof_dinode \<le> 512"
proof -
  have "unat i mod 8 < 8" by simp
  then show ?thesis by (simp add: dinode_off_def sizeof_dinode_def NDIRECT_def IPB_def BSIZE_def)
qed

lemma dinode_put [simp]:
  "length d = BSIZE \<Longrightarrow> length (put_bytes (dinode_off i) (replicate sizeof_dinode z) d) = BSIZE"
  "length d = BSIZE \<Longrightarrow> length (put16 (dinode_off i) ty d) = BSIZE"
  using dinode_off_less [of i] by (simp_all add: sizeof_dinode_def)

lemma length_concat_enc32: "length (concat (map enc32 xs)) = 4 * length xs"
  by (induction xs) simp_all

lemma dinode_enc [simp]:
  "length d = BSIZE \<Longrightarrow> length (addrs x) = NDIRECT + 1 \<Longrightarrow> length (enc_dinode (dinode_off i) x d) = BSIZE"
  using dinode_off_less [of i] by (simp add: enc_dinode_def put_addrs_def length_concat_enc32 sizeof_dinode_def)

lemma keeps_ialloc_loop [keeps_op]: "keeps (typed n) (ialloc_loop dev ty ns) (\<lambda>ip. ip < NINODE)"
  by (induction ns)
    (unfold ialloc_loop.simps, (rule TrueI keeps_rules keeps_op upd_data_typed | assumption | simp)+)

lemma keeps_ialloc [keeps_op]: "keeps (typed n) (ialloc dev ty) (\<lambda>ip. ip < NINODE)"
  unfolding ialloc_def by (rule TrueI keeps_rules keeps_op)+

lemma keeps_iupdate [keeps_op]: "ip < NINODE \<Longrightarrow> keep (typed n) (iupdate ip)"
  unfolding iupdate_def by (rule TrueI keeps_rules keeps_op upd_data_typed | assumption | clarsimp)+

lemma keeps_idup [keeps_op]: "ip < NINODE \<Longrightarrow> keeps (typed n) (idup ip) (\<lambda>ip. ip < NINODE)"
  unfolding idup_def by (rule TrueI keeps_rules keeps_op keeps_modify upd_typed | assumption | simp add: typed_ok)+

lemma keeps_ilock [keeps_op]: "keep (typed n) (ilock r)"
  unfolding ilock_def ilock_load_def
  by (rule TrueI keeps_rules keeps_op keeps_modify upd_typed | assumption | simp add: typed_ok dec_dinode_def)+

lemma keeps_iunlock [keeps_op]: "keep (typed n) (iunlock r)"
  unfolding iunlock_def by (rule TrueI keeps_rules keeps_op | assumption)+

lemma keeps_bmap [keeps_op]: "keep (typed n) (bmap ip bn)"
  unfolding bmap_def
  by (rule TrueI keeps_rules keeps_op keeps_modify upd_typed upd_data_typed | assumption | simp add: typed_ok NINDIRECT_def BSIZE_def)+

lemma keeps_itrunc [keeps_op]: "ip < NINODE \<Longrightarrow> keep (typed n) (itrunc ip)"
  unfolding itrunc_def
  by (rule TrueI keeps_rules keeps_op keeps_modify upd_typed | assumption | simp add: typed_ok)+

lemma keeps_iput [keeps_op]: "ip < NINODE \<Longrightarrow> keep (typed n) (iput ip)"
  unfolding iput_def iput_locked_def
  by (rule TrueI keeps_rules keeps_op keeps_modify upd_typed | assumption | simp add: typed_ok)+

lemma keeps_iunlockput [keeps_op]: "ip < NINODE \<Longrightarrow> keep (typed n) (iunlockput ip)"
  unfolding iunlockput_def by (rule TrueI keeps_rules keeps_op | assumption)+

subsection \<open>Devices, files, directories\<close>

lemma typed_input: "typed n s \<Longrightarrow> length (ibuf x) = INPUT_BUF \<Longrightarrow> typed n (s\<lparr>the_input := x\<rparr>)"
  unfolding typed_def by simp

lemma typed_ibuf [simp]: "typed n s \<Longrightarrow> length (ibuf (the_input s)) = INPUT_BUF"
  unfolding typed_def by simp

lemma keeps_getc [keeps_op]: "keep (typed n) kbdgetc" "keep (typed n) uartgetc"
  unfolding kbdgetc_def uartgetc_def
  by (rule TrueI keeps_rules keeps_modify | simp)+

lemma keeps_kill_line [keeps_op]: "keep (typed n) (kill_line k)"
  by (induction k)
    (unfold kill_line.simps, (rule TrueI keeps_rules keeps_op keeps_modify typed_input | assumption | simp)+)

lemma keeps_console_char [keeps_op]: "keep (typed n) (console_char c)"
  unfolding console_char_def
  by (rule TrueI keeps_rules keeps_op keeps_modify typed_input | assumption | simp)+

lemma keeps_consoleintr_loop [keeps_op]: "keep (typed n) getc \<Longrightarrow> keep (typed n) (consoleintr_loop k getc d)"
  by (induction k arbitrary: d)
    (unfold consoleintr_loop.simps, (rule TrueI keeps_rules keeps_op | assumption)+)

lemma keeps_console [keeps_op]:
  "keep (typed n) kbdintr" "keep (typed n) uartintr" "keep (typed n) (consolewrite ip bs k)"
  unfolding kbdintr_def uartintr_def consoleintr_def consolewrite_def
  by (rule TrueI keeps_rules keeps_op | assumption)+

lemma keeps_consoleread_end [keeps_op]: "keep (typed n) (consoleread_end ip tg k acc)"
  unfolding consoleread_end_def by (rule TrueI keeps_rules keeps_op | assumption)+

lemma keeps_consoleread_loop [keeps_op]: "keep (typed n) (consoleread_loop ip tg acc k)"
  by (induction k arbitrary: acc)
    (unfold consoleread_loop.simps, (rule TrueI keeps_rules keeps_op keeps_modify typed_input | assumption | simp)+)

lemma keeps_consoleread [keeps_op]: "keep (typed n) (consoleread ip k)"
  unfolding consoleread_def by (rule TrueI keeps_rules keeps_op | assumption)+

lemma keeps_devfn:
  "(r = Fn_consoleread \<Longrightarrow> keeps I a Q) \<Longrightarrow> (r = Fn_consolewrite \<Longrightarrow> keeps I b Q) \<Longrightarrow> keeps I (case r of Fn_consoleread \<Rightarrow> a | Fn_consolewrite \<Rightarrow> b) Q"
  by (cases r) simp_all

lemma keeps_dev_call [keeps_op]: "keep (typed n) (dev_read_call f ip k)" "keep (typed n) (dev_write_call f ip bs k)"
  unfolding dev_read_call_def dev_write_call_def by (rule TrueI keeps_rules keeps_op keeps_devfn | assumption)+

lemma keeps_readi_loop [keeps_op]: "keep (typed n) (readi_loop ip off k :: ('x kfile_scheme, uchar list) kern)"
proof (induction k arbitrary: off rule: less_induct)
  case (less k)
  show ?case
    apply (subst readi_loop.simps)
    by (rule TrueI keeps_rules keeps_op less.IH | assumption | simp add: BSIZE_def)+
qed

lemma keeps_readi [keeps_op]: "keep (typed n) (readi ip off k)"
  unfolding readi_def by (rule TrueI keeps_rules keeps_op | assumption)+

lemma put_chunk: "length d = BSIZE \<Longrightarrow> length (put_bytes (x mod BSIZE) (take (min k (BSIZE - x mod BSIZE)) bs) d) = BSIZE"
proof -
  have "x mod BSIZE < BSIZE" by (simp add: BSIZE_def)
  then show "length d = BSIZE \<Longrightarrow> ?thesis" by simp
qed

lemma keeps_writei_loop [keeps_op]: "keep (typed n) (writei_loop ip off bs :: ('x kfile_scheme, unit) kern)"
proof (induction bs arbitrary: off rule: length_induct)
  case (1 bs)
  then have IH: "keep (typed n) (writei_loop ip off bs' :: ('x kfile_scheme, unit) kern)" if "length bs' < length bs" for off bs' using that by blast
  show ?case
    apply (subst writei_loop.simps)
    by (rule TrueI keeps_rules keeps_op upd_data_typed IH put_chunk | assumption | simp add: BSIZE_def)+
qed

lemma keeps_writei [keeps_op]: "ip < NINODE \<Longrightarrow> keep (typed n) (writei ip src off k)"
  unfolding writei_def by (rule TrueI keeps_rules keeps_op keeps_modify upd_typed | assumption | simp add: typed_ok)+

lemma keeps_read_dirent [keeps_op]: "keep (typed n) (read_dirent msg dp off)"
  unfolding read_dirent_def by (rule TrueI keeps_rules keeps_op | assumption)+

definition entry_ptr :: "(nat \<times> 'b) option \<Rightarrow> bool" where
  "entry_ptr r \<longleftrightarrow> (\<forall>ip off. r = Some (ip, off) \<longrightarrow> ip < NINODE)"

lemma keeps_dirlookup_loop [keeps_op]: "keeps (typed n) (dirlookup_loop dp name offs) entry_ptr"
  by (induction offs)
    (unfold dirlookup_loop.simps, (rule TrueI keeps_rules keeps_op | assumption | simp add: entry_ptr_def)+)

lemma keeps_dirlookup [keeps_op]: "keeps (typed n) (dirlookup dp name) entry_ptr"
  unfolding dirlookup_def by (rule TrueI keeps_rules keeps_op | assumption)+

lemma keeps_empty_dirent [keeps_op]: "keep (typed n) (empty_dirent dp off offs)"
  by (induction offs arbitrary: off)
    (unfold empty_dirent.simps, (rule TrueI keeps_rules keeps_op | assumption)+)

lemma keeps_dirlink [keeps_op]: "dp < NINODE \<Longrightarrow> keep (typed n) (dirlink dp name inum)"
  unfolding dirlink_def by (rule TrueI keeps_rules keeps_op | assumption | simp add: entry_ptr_def)+

lemma keeps_namex_loop [keeps_op]:
  "ip < NINODE \<Longrightarrow> keeps (typed n) (namex_loop path par name ip :: ('x kfile_scheme, nat option \<times> uchar list) kern) (\<lambda>r. ptr NINODE (fst r))"
proof (induction path arbitrary: name ip rule: length_induct)
  case (1 path)
  then have IH: "keeps (typed n) (namex_loop p' par name' i :: ('x kfile_scheme, nat option \<times> uchar list) kern) (\<lambda>r. ptr NINODE (fst r))"
    if "length p' < length path" "i < NINODE" for p' name' i using that by blast
  show ?case
    apply (subst namex_loop.simps)
    by (rule TrueI keeps_rules keeps_op IH | assumption | simp add: "1.prems" entry_ptr_def skipelem_shorter)+
qed

lemma keeps_namex [keeps_op]: "keeps (typed n) (namex path par name) (\<lambda>r. ptr NINODE (fst r))"
  unfolding namex_def by (rule keeps_rules keeps_op | assumption | simp | (rule typed_ptrs, assumption+))+

lemma keeps_namei [keeps_op]: "keeps (typed n) (namei path) (ptr NINODE)"
  unfolding namei_def by (rule TrueI keeps_rules keeps_op | assumption | simp)+

lemma keeps_nameiparent [keeps_op]: "keeps (typed n) (nameiparent path name) (\<lambda>r. ptr NINODE (fst r))"
  unfolding nameiparent_def by (rule keeps_namex)

subsection \<open>Virtual memory\<close>

lemma keeps_walkpgdir [keeps_op]: "keep (typed n) (walkpgdir pd va alloc)"
  unfolding walkpgdir_def by (rule TrueI keeps_rules keeps_op keeps_modify | assumption | simp)+

lemma keeps_mappages_loop [keeps_op]: "keep (typed n) (mappages_loop pd k a pa perm)"
  by (induction k arbitrary: a pa)
    (unfold mappages_loop.simps, (rule TrueI keeps_rules keeps_op keeps_modify | assumption | simp)+)

lemma keeps_mappages [keeps_op]: "keep (typed n) (mappages pd va l pa perm)"
  unfolding mappages_def by (rule TrueI keeps_rules keeps_op)+

lemma keeps_deallocuvm_loop [keeps_op]: "keep (typed n) (deallocuvm_loop pd old a :: ('x kfile_scheme, unit) kern)"
proof (induction "2 ^ 32 - unat a" arbitrary: a rule: less_induct)
  case less
  have IH: "keep (typed n) (deallocuvm_loop pd old a' :: ('x kfile_scheme, unit) kern)" if "a < a'" for a'
  proof (rule less)
    have "unat a < unat a'" "unat a' < 2 ^ 32" using that unat_lt32 [of a'] by (simp_all add: word_less_nat_alt)
    then show "2 ^ 32 - unat a' < 2 ^ 32 - unat a" by linarith
  qed
  show ?case
    apply (subst deallocuvm_loop.simps)
    by (rule TrueI keeps_rules keeps_op keeps_modify IH | assumption | simp)+
qed

lemma keeps_freevm [keeps_op]: "keep (typed n) (deallocuvm pd old new)" "keep (typed n) (freevm pd)"
  unfolding freevm_def deallocuvm_def by (rule TrueI keeps_rules keeps_op | assumption)+

lemma keeps_setupkvm_loop [keeps_op]: "keep (typed n) (setupkvm_loop pd ks)"
  by (induction ks)
    (unfold setupkvm_loop.simps, (rule TrueI keeps_rules keeps_op | assumption)+)

lemma keeps_setupkvm [keeps_op]: "keep (typed n) setupkvm"
  unfolding setupkvm_def by (rule TrueI keeps_rules keeps_op keeps_modify | assumption | simp)+

lemma keeps_allocuvm_loop [keeps_op]: "keep (typed n) (allocuvm_loop pd old new as)"
  by (induction as)
    (unfold allocuvm_loop.simps, (rule TrueI keeps_rules keeps_op keeps_modify | assumption | simp)+)

lemma keeps_copyuvm_loop [keeps_op]: "keep (typed n) (copyuvm_loop pd d is)"
  by (induction "is")
    (unfold copyuvm_loop.simps, (rule TrueI keeps_rules keeps_op keeps_modify | assumption | simp)+)

lemma keeps_vm [keeps_op]:
  "keep (typed n) (allocuvm pd old new)" "keep (typed n) (copyuvm pd k)" "keep (typed n) (clearpteu pd va)" "keep (typed n) (uva2ka pd va)"
  "keep (typed n) (inituvm pd bs)"
  unfolding allocuvm_def copyuvm_def clearpteu_def uva2ka_def inituvm_def
  by (rule TrueI keeps_rules keeps_op keeps_modify | assumption | simp)+

lemma keeps_copyout [keeps_op]: "keep (typed n) (copyout pd va bs :: ('x kfile_scheme, int) kern)"
proof (induction bs arbitrary: va rule: length_induct)
  case (1 bs)
  then have IH: "keep (typed n) (copyout pd va bs' :: ('x kfile_scheme, int) kern)" if "length bs' < length bs" for va bs' using that by blast
  show ?case
    apply (subst copyout.simps)
    by (rule TrueI keeps_rules keeps_op keeps_modify IH | assumption | simp add: page_offset(2))+
qed

subsection \<open>Open files\<close>

lemma keeps_deref [keeps_op]: "ptr NINODE r \<Longrightarrow> keeps I (deref r) (\<lambda>i. i < NINODE)"
  unfolding deref_def by (cases r) (simp_all add: keeps_undef keeps_ret)

lemma keeps_filetype:
  "(r = FD_NONE \<Longrightarrow> keeps I a Q) \<Longrightarrow> (r = FD_PIPE \<Longrightarrow> keeps I b Q) \<Longrightarrow> (r = FD_INODE \<Longrightarrow> keeps I c Q) \<Longrightarrow>
    keeps I (case r of FD_NONE \<Rightarrow> a | FD_PIPE \<Rightarrow> b | FD_INODE \<Rightarrow> c) Q"
  by (cases r) simp_all

lemma keeps_filealloc [keeps_op]: "keeps (typed n) filealloc (ptr NFILE)"
  unfolding filealloc_def
  by (rule TrueI keeps_rules keeps_op keeps_modify upd_typed | assumption | (simp add: typed_ok; fail) | (drule first_index_bound, simp))+

lemma keeps_filedup [keeps_op]: "f < NFILE \<Longrightarrow> keeps (typed n) (filedup f) (\<lambda>f. f < NFILE)"
  unfolding filedup_def by (rule TrueI keeps_rules keeps_op keeps_modify upd_typed | assumption | simp add: typed_ok)+

lemma keeps_fileclose [keeps_op]: "f < NFILE \<Longrightarrow> keep (typed n) (fileclose f)"
  unfolding fileclose_def
  by (rule TrueI keeps_rules keeps_filetype keeps_op keeps_modify upd_typed | assumption | simp add: typed_ok)+

lemma keeps_file [keeps_op]: "f < NFILE \<Longrightarrow> keep (typed n) (filestat f)" "f < NFILE \<Longrightarrow> keep (typed n) (fileread f k)"
  unfolding filestat_def fileread_def
  by (rule TrueI keeps_rules keeps_filetype keeps_op keeps_modify upd_typed | assumption | simp add: typed_ok)+

lemma keeps_filewrite_loop [keeps_op]: "f < NFILE \<Longrightarrow> keep (typed n) (filewrite_loop f bs i :: ('x kfile_scheme, int) kern)"
proof (induction bs arbitrary: i rule: length_induct)
  case (1 bs)
  then have IH: "keep (typed n) (filewrite_loop f bs' i' :: ('x kfile_scheme, int) kern)" if "length bs' < length bs" for i' bs' using that by blast
  show ?case
    apply (subst filewrite_loop.simps)
    by (rule TrueI keeps_rules keeps_op keeps_modify upd_typed IH | assumption | simp add: typed_ok write_max_def MAXOPBLOCKS_def "1.prems")+
qed

lemma keeps_filewrite [keeps_op]: "f < NFILE \<Longrightarrow> keep (typed n) (filewrite f bs k)"
  unfolding filewrite_def by (rule TrueI keeps_rules keeps_filetype keeps_op | assumption)+

subsection \<open>Processes\<close>

lemma keeps_tf [keeps_op]: "keep (typed n) (tf_get t f)" "keep (typed n) (tf_set t f v)"
  unfolding tf_get_def tf_set_def by (rule TrueI keeps_rules keeps_modify | simp)+

lemma keeps_loaduvm_loop [keeps_op]: "keep (typed n) (loaduvm_loop pd a ip off k is)"
  by (induction "is")
    (unfold loaduvm_loop.simps, (rule TrueI keeps_rules keeps_op keeps_modify | assumption | simp)+)

lemma keeps_loaduvm [keeps_op]: "keep (typed n) (loaduvm pd a ip off k)"
  unfolding loaduvm_def by (rule TrueI keeps_rules keeps_op)+

lemma keeps_exec_bad [keeps_op]: "ptr NINODE r \<Longrightarrow> keep (typed n) (exec_bad pd r)"
  unfolding exec_bad_def by (rule TrueI keeps_rules keeps_op | assumption | simp)+

lemma keeps_exec_load [keeps_op]: "keep (typed n) (exec_load pd ip off is k)"
  by (induction "is" arbitrary: k)
    (unfold exec_load.simps, (rule TrueI keeps_rules keeps_op | assumption)+)

lemma keeps_exec_args [keeps_op]: "keep (typed n) (exec_args pd sp k args)"
  by (induction args arbitrary: sp k)
    (unfold exec_args.simps, (rule TrueI keeps_rules keeps_op | assumption)+)

lemma keeps_exec [keeps_op]: "keep (typed n) (exec path argv)"
  unfolding exec_def
  by (rule TrueI keeps_rules keeps_op keeps_modify upd_typed | assumption | simp add: typed_ok)+

lemma keeps_growproc [keeps_op]: "keep (typed n) (growproc k)"
  unfolding growproc_def by (rule TrueI keeps_rules keeps_op keeps_modify upd_typed | assumption | simp add: typed_ok)+

lemma proc_typed_fd: "proc_typed x \<Longrightarrow> ptr NFILE r \<Longrightarrow> proc_typed (x\<lparr>ofile := (ofile x)[i := r]\<rparr>)"
  by (simp add: proc_typed_def tab_update)

lemma keeps_fork [keeps_op]: "keep (typed n) fork"
  unfolding fork_def
  by (rule TrueI keeps_rules keeps_op keeps_modify upd_typed proc_typed_fd | assumption | (simp add: typed_ok; fail) | (rule typed_ptrs, assumption, assumption, simp, assumption))+

lemma keeps_wakeup1_proc [keeps_op]: "keep (typed n) (wakeup1_proc r)"
  unfolding wakeup1_proc_def by (rule TrueI keeps_rules keeps_op)+

lemma keeps_exit [keeps_op]: "keeps (typed n) exit Q"
  unfolding exit_def
  by (rule TrueI keeps_rules keeps_op keeps_modify upd_typed proc_typed_fd | assumption | (simp add: typed_ok; fail) | (rule typed_ptrs, assumption, assumption, simp, assumption))+

lemma keeps_wait_scan [keeps_op]: "keep (typed n) (wait_scan p is h)"
  by (induction "is" arbitrary: h)
    (unfold wait_scan.simps, (rule TrueI keeps_rules keeps_op keeps_modify upd_typed | assumption | simp add: typed_ok)+)

lemma keeps_wait [keeps_op]: "keep (typed n) wait"
  unfolding wait_def wait_loop_def by (rule TrueI keeps_rules keeps_op | assumption)+

lemma keeps_iinit [keeps_op]: "keep (typed n) (iinit dev)"
  unfolding iinit_def by (rule TrueI keeps_rules keeps_op keeps_modify | assumption | simp)+

lemma keeps_forkret [keeps_op]: "keep (typed n) forkret"
  unfolding forkret_def by (rule TrueI keeps_rules keeps_op keeps_modify | assumption | simp)+

subsection \<open>System calls\<close>

lemma keeps_user_byte [keeps_op]: "keep (typed n) (user_addr va)" "keep (typed n) (user_byte va)"
  unfolding user_byte_def user_addr_def by (rule TrueI keeps_rules keeps_op)+

lemma keeps_user_bytes [keeps_op]: "keep (typed n) (user_bytes k va)"
  by (induction k arbitrary: va)
    (unfold user_bytes.simps, (rule TrueI keeps_rules keeps_op | assumption)+)

lemma keeps_user_store [keeps_op]: "keep (typed n) (user_store va bs)"
  by (induction bs arbitrary: va)
    (unfold user_store.simps, (rule TrueI keeps_rules keeps_op keeps_modify | assumption | simp)+)

lemma keeps_fetchstr_loop [keeps_op]: "keep (typed n) (fetchstr_loop k a)"
  by (induction k arbitrary: a)
    (unfold fetchstr_loop.simps, (rule TrueI keeps_rules keeps_op | assumption)+)

lemma keeps_args [keeps_op]:
  "keep (typed n) (fetchint a)" "keep (typed n) (fetchstr a)" "keep (typed n) (argint k)" "keep (typed n) (argptr k l)" "keep (typed n) (argstr k)"
  unfolding argptr_def argstr_def argint_def fetchint_def fetchstr_def by (rule TrueI keeps_rules keeps_op | assumption)+

lemma keeps_with_arg:
  "keeps I m P \<Longrightarrow> keeps I e Q \<Longrightarrow> (\<And>a. P (Some a) \<Longrightarrow> keeps I (k a) Q) \<Longrightarrow> keeps I (with_arg m e k) Q"
  unfolding with_arg_def by (rule keeps_bnd, assumption) (auto split: option.split)

lemma keeps_argfd [keeps_op]: "keeps (typed n) (argfd k) (\<lambda>r. \<forall>fd f. r = Some (fd, f) \<longrightarrow> f < NFILE)"
proof -
  have fd: "unat (v :: uint) < NOFILE" if "\<not> (sint v < 0 \<or> int NOFILE \<le> sint v)" for v
  proof -
    have v: "0 \<le> sint v" "sint v < 16" using that by (simp_all add: NOFILE_def)
    then have "uint v = sint v" by (simp add: uint_sint take_bit_int_eq_self)
    then show ?thesis using v by (simp add: unat_eq_nat_uint NOFILE_def)
  qed
  show ?thesis
    unfolding argfd_def
    by (rule TrueI keeps_with_arg keeps_rules keeps_op | assumption | (simp; fail) | (clarsimp, erule typed_ptrs(2), assumption, rule fd, simp, assumption))+
qed

lemma keeps_fdalloc [keeps_op]: "f < NFILE \<Longrightarrow> keep (typed n) (fdalloc f)"
  unfolding fdalloc_def by (rule TrueI keeps_rules keeps_op keeps_modify upd_typed proc_typed_fd | assumption | simp)+

lemma keeps_sys_fd [keeps_op]:
  "keep (typed n) sys_dup" "keep (typed n) sys_read" "keep (typed n) sys_write" "keep (typed n) sys_close" "keep (typed n) sys_fstat"
  unfolding sys_dup_def sys_read_def sys_write_def sys_close_def sys_fstat_def
  by (rule TrueI keeps_with_arg keeps_rules keeps_op keeps_modify upd_typed proc_typed_fd | assumption | simp)+

lemma keeps_upd_nlink [keeps_op]: "ip < NINODE \<Longrightarrow> keep (typed n) (upd_nlink ip g)"
  unfolding upd_nlink_def by (rule TrueI keeps_rules keeps_op keeps_modify upd_typed | assumption | simp add: typed_ok)+

lemma keeps_bad [keeps_op]: "ip < NINODE \<Longrightarrow> keep (typed n) (link_bad ip)" "ip < NINODE \<Longrightarrow> keep (typed n) (unlink_bad ip)"
  unfolding link_bad_def unlink_bad_def by (rule TrueI keeps_rules keeps_op | assumption)+

lemma keeps_sys_link [keeps_op]: "keep (typed n) sys_link"
  unfolding sys_link_def
  by (rule TrueI keeps_with_arg keeps_rules keeps_op | assumption | simp)+

lemma keeps_isdirempty_loop [keeps_op]: "keep (typed n) (isdirempty_loop dp offs)"
  by (induction offs)
    (unfold isdirempty_loop.simps, (rule TrueI keeps_rules keeps_op | assumption)+)

lemma keeps_isdirempty [keeps_op]: "keep (typed n) (isdirempty dp)"
  unfolding isdirempty_def by (rule TrueI keeps_rules keeps_op)+

lemma keeps_sys_unlink [keeps_op]: "keep (typed n) sys_unlink"
  unfolding sys_unlink_def
  by (rule TrueI keeps_with_arg keeps_rules keeps_op | assumption | simp add: entry_ptr_def)+

lemma keeps_create [keeps_op]: "keeps (typed n) (create path ty ma mi) (ptr NINODE)"
  unfolding create_def
  by (rule TrueI keeps_rules keeps_op keeps_modify upd_typed | assumption | simp add: entry_ptr_def typed_ok)+

lemma keeps_sys_open [keeps_op]: "keep (typed n) sys_open"
  unfolding sys_open_def
  by (rule TrueI keeps_with_arg keeps_rules keeps_op keeps_modify upd_typed | assumption | simp add: typed_ok)+

lemma keeps_sys_dirs [keeps_op]: "keep (typed n) sys_mkdir" "keep (typed n) sys_mknod" "keep (typed n) sys_chdir"
  unfolding sys_mkdir_def sys_mknod_def sys_chdir_def
  by (rule TrueI keeps_with_arg keeps_rules keeps_op keeps_modify upd_typed | assumption | simp add: typed_ok)+

lemma keeps_exec_argv [keeps_op]: "keep (typed n) (exec_argv k a)"
  by (induction k arbitrary: a)
    (unfold exec_argv.simps, (rule TrueI keeps_with_arg keeps_rules keeps_op | assumption)+)

lemma keeps_sys_exec [keeps_op]: "keep (typed n) sys_exec"
  unfolding sys_exec_def by (rule TrueI keeps_with_arg keeps_rules keeps_op | assumption)+

lemma typed_pipe_init: "typed n s \<Longrightarrow> length (pdata x) = PIPESIZE \<Longrightarrow> typed n (s\<lparr>pipes := (pipes s)(p := x)\<rparr>)"
  unfolding typed_def by simp

lemma keeps_pipealloc_bad [keeps_op]:
  "ptr NFILE r \<Longrightarrow> ptr NFILE w \<Longrightarrow> keeps (typed n) (pipealloc_bad r w) (\<lambda>(_, r, w). ptr NFILE r \<and> ptr NFILE w)"
  unfolding pipealloc_bad_def by (rule TrueI keeps_rules keeps_op | assumption | simp)+

lemma keeps_pipealloc [keeps_op]: "keeps (typed n) pipealloc (\<lambda>(_, r, w). ptr NFILE r \<and> ptr NFILE w)"
  unfolding pipealloc_def
  by (rule TrueI keeps_rules keeps_op keeps_modify upd_typed typed_pipe_init | assumption | simp add: typed_ok)+

lemma keeps_sys_pipe [keeps_op]: "keep (typed n) sys_pipe"
  unfolding sys_pipe_def
  by (rule TrueI keeps_with_arg keeps_rules keeps_op keeps_modify upd_typed proc_typed_fd | assumption | simp)+

lemma keeps_my [keeps_op]: "keep (typed n) (my f)" "keep (typed n) (argint_unchecked k)"
  unfolding my_def argint_unchecked_def by (rule TrueI keeps_with_arg keeps_rules keeps_op)+

lemma keeps_sys_containers [keeps_op]:
  "keep (typed n) sys_create_container" "keep (typed n) sys_destroy_container" "keep (typed n) sys_join_container"
  "keep (typed n) sys_leave_container" "keep (typed n) sys_ps" "keep (typed n) sys_list_containers" "keep (typed n) sys_container_malloc"
  "keep (typed n) sys_scheduler_log_on" "keep (typed n) sys_scheduler_log_off" "keep (typed n) sys_memory_log_on" "keep (typed n) sys_memory_log_off"
  unfolding sys_create_container_def sys_destroy_container_def sys_join_container_def sys_leave_container_def sys_ps_def
    sys_list_containers_def sys_container_malloc_def sys_scheduler_log_on_def sys_scheduler_log_off_def sys_memory_log_on_def sys_memory_log_off_def
  by (rule TrueI keeps_rules keeps_op keeps_modify | assumption | simp)+

lemma keeps_sys_procs [keeps_op]:
  "keep (typed n) sys_fork" "keep (typed n) sys_exit" "keep (typed n) sys_wait" "keep (typed n) sys_kill" "keep (typed n) sys_getpid"
  "keep (typed n) sys_getcid" "keep (typed n) sys_sbrk" "keep (typed n) sys_sleep" "keep (typed n) sys_uptime"
  unfolding sys_fork_def sys_exit_def sys_wait_def sys_kill_def sys_getpid_def sys_getcid_def sys_sbrk_def sys_sleep_def sys_sleep_loop_def sys_uptime_def
  by (rule TrueI keeps_with_arg keeps_rules keeps_op keeps_modify | assumption | simp)+

lemma keeps_sys_run [keeps_op]: "keep (typed n) (sys_run f)"
  by (cases f) (simp_all add: keeps_op)

lemma keeps_syscall [keeps_op]: "keep (typed n) syscall"
  unfolding syscall_def by (rule TrueI keeps_rules keeps_op | assumption)+

lemma keeps_trap [keeps_op]: "keep (typed n) (trap t)"
  unfolding trap_def trap_switch_def exit_if_killed_def timer_tick_def lapiceoi_def cpuid_def
  by (rule TrueI keeps_rules keeps_op keeps_modify upd_typed | assumption | simp add: typed_ok)+

text \<open>C3. Every trap (system call, interrupt, fault) and every system call keeps the kernel's data well-typed, on every path on
  which the handler returns or gives up the processor: each table and array keeps its declared length, and every stored
  pointer (current process, open files, current directories, parents, inodes of open files, links of the
  buffer list) points into the table it refers to.\<close>

theorem kernel_stays_typed:
  assumes "typed n s"
  shows "(\<forall>s'. trap t s = Done () s' \<or> trap t s = Switches s' \<longrightarrow> typed n s') \<and>
    (\<forall>r s'. sys_run f s = Done r s' \<or> sys_run f s = Switches s' \<longrightarrow> typed n s')"
  using keepsD [OF keeps_trap [of n t] assms] keepsD [OF keeps_sys_run [of n f] assms] by auto

lemma file_boot_typed: "typed 1 (file_boot log_disk)"
proof -
  have "\<forall>b \<in> set log_disk. length b = BSIZE" by (rule log_disk_facts(2))
  moreover have "\<forall>q \<in> set demo_procs. proc_typed q"
    by (auto simp: demo_procs_def proc_typed_def blank_proc_def tab_def NOFILE_def)
  moreover have "length demo_procs = NPROC" by (rule demo_sel(3))
  moreover have "tab (Suc NBUF) buf_typed (replicate (Suc NBUF) zero_buf)"
    by (auto simp: tab_def buf_typed_def zero_buf_def simp del: replicate_Suc)
  moreover have "tab NCONT con_typed (map blank_container [0..<20])"
    by (auto simp: tab_def con_typed_def blank_container_def NCONT_def NPAGE_def)
  ultimately show ?thesis
    unfolding typed_def file_boot_def bio_boot_def
    by (simp add: boot_def kproc.defs demo_def settled_def me_def cpu_idx_def first_index_def del: replicate_Suc)
       (simp add: tab_def cpu_typed_def NPROC_def NCONT_def boot_log_def inode_typed_def file_typed_def blank_inode_def blank_file_def)
qed

theorem kernel_stays_typed_witness:
  "typed 1 (file_boot log_disk) \<and> (\<exists>s'. sys_run Sys_uptime (file_boot log_disk) = Done 7 s' \<and> typed 1 s')"
proof -
  have "in_proc 0 (file_boot log_disk)" "ticks (file_boot log_disk) = 7"
    by (simp_all add: file_boot_def bio_boot_def) (simp add: boot_def kproc.defs)
  then have "sys_run Sys_uptime (file_boot log_disk) = Done 7 (file_boot log_disk)"
    by (simp add: sys_uptime_def kern_defs acquire_Done release_Done)
  then show ?thesis using kernel_stays_typed [OF file_boot_typed, of 0 Sys_uptime] file_boot_typed by blast
qed

end
