(* ===== verification/Ulib.thy ===== *)
theory Ulib
  imports Console
begin

text \<open>
  The library of the user programs, \<^verbatim>\<open>src/ulib.c\<close> and \<^verbatim>\<open>src/printf.c\<close>. The memory routines work on byte memory like
  those of the kernel; a routine that only ends at a zero byte is a partial function. \<^verbatim>\<open>gets\<close> reads
  from the bytes that descriptor 0 still delivers. \<^verbatim>\<open>printf\<close> is the text that it writes, one byte per call of \<^verbatim>\<open>write\<close>;
  an argument that is missing or of the wrong kind is \<open>None\<close>. \<^verbatim>\<open>stat\<close>, three system calls in a row, is left out.
\<close>

subsection \<open>Memory and strings\<close>

partial_function (option) strcpy :: "uint \<Rightarrow> uint \<Rightarrow> mem \<Rightarrow> mem option" where
  "strcpy s t m = (let m' = m(s := m t) in if m t \<noteq> 0 then strcpy (s + 1) (t + 1) m' else Some m')"

partial_function (option) strcmp :: "uint \<Rightarrow> uint \<Rightarrow> mem \<Rightarrow> int option" where
  "strcmp p q m = (if m p \<noteq> 0 \<and> m p = m q then strcmp (p + 1) (q + 1) m else Some (Word.uint (m p) - Word.uint (m q)))"

definition strlen_user :: "uint \<Rightarrow> mem \<Rightarrow> int option" where
  "strlen_user s m = strlen_loop s m 0"

definition memset_user :: "uint \<Rightarrow> uint \<Rightarrow> uint \<Rightarrow> mem \<Rightarrow> mem" where
  "memset_user dst c n m = stosb (unat n) dst (ucast c) m"

definition memmove_user :: "uint \<Rightarrow> uint \<Rightarrow> int \<Rightarrow> mem \<Rightarrow> mem" where
  "memmove_user dst src n m = copy_up (nat n) src dst m"

text \<open>\<^verbatim>\<open>strchr\<close> on the characters from the pointer on: the distance to the first match, which comes before any zero byte.\<close>

definition strchr :: "string \<Rightarrow> char \<Rightarrow> nat option" where
  "strchr cs c = first_index (\<lambda>d. d = c) (takeWhile (\<lambda>d. d \<noteq> CHR 0x00) cs)"

fun gets_loop :: "nat \<Rightarrow> string \<Rightarrow> string \<times> string" where
  "gets_loop 0 inp = ([], inp)"
| "gets_loop (Suc k) [] = ([], [])"
| "gets_loop (Suc k) (c # inp) = (if c = CHR 0x0A \<or> c = CHR 0x0D then ([c], inp)
     else let (l, inp) = gets_loop k inp in (c # l, inp))"

definition gets_line :: "nat \<Rightarrow> string \<Rightarrow> string \<times> string" where
  "gets_line mx inp = gets_loop (mx - 1) inp"

abbreviation is_digit :: "char \<Rightarrow> bool" where
  "is_digit c \<equiv> (48 :: int) \<le> of_char c \<and> of_char c \<le> (57 :: int)"

fun atoi_loop :: "int \<Rightarrow> string \<Rightarrow> int" where
  "atoi_loop n [] = n"
| "atoi_loop n (c # cs) = (if is_digit c then atoi_loop (int32 (n * 10 + of_char c - 48)) cs else n)"

definition atoi :: "string \<Rightarrow> int" where
  "atoi s = atoi_loop 0 s"

subsection \<open>printf\<close>

definition user_digits :: string where
  "user_digits = ''0123456789ABCDEF''"

definition printint_user :: "int \<Rightarrow> uint \<Rightarrow> bool \<Rightarrow> string" where
  "printint_user xx base sg = printint_chars user_digits xx base sg"

fun printf_loop :: "bool \<Rightarrow> string \<Rightarrow> carg list \<Rightarrow> string option" where
  "printf_loop st [] ap = Some []"
| "printf_loop False (c # fmt) ap = (if c = CHR ''%'' then printf_loop True fmt ap else map_option ((#) c) (printf_loop False fmt ap))"
| "printf_loop True (c # fmt) ap =
    (if c = CHR ''d'' then (case ap of
        Arg n # ap \<Rightarrow> map_option ((@) (printint_user n 10 True)) (printf_loop False fmt ap)
      | _ \<Rightarrow> None)
     else if c = CHR ''x'' \<or> c = CHR ''p'' then (case ap of
        Arg n # ap \<Rightarrow> map_option ((@) (printint_user n 16 False)) (printf_loop False fmt ap)
      | _ \<Rightarrow> None)
     else if c = CHR ''s'' then (case ap of
        Str t # ap \<Rightarrow> map_option ((@) (case t of None \<Rightarrow> ''(null)'' | Some t \<Rightarrow> t)) (printf_loop False fmt ap)
      | _ \<Rightarrow> None)
     else if c = CHR ''c'' then (case ap of
        Arg n # ap \<Rightarrow> map_option ((#) (char_of n)) (printf_loop False fmt ap)
      | _ \<Rightarrow> None)
     else if c = CHR ''%'' then map_option ((#) c) (printf_loop False fmt ap)
     else map_option (\<lambda>t. CHR ''%'' # c # t) (printf_loop False fmt ap))"

definition printf :: "string \<Rightarrow> carg list \<Rightarrow> string option" where
  "printf fmt ap = printf_loop False fmt ap"

subsection \<open>Lines\<close>

lemma gets_loop_splits:
  "gets_loop k inp = (l, rest) \<Longrightarrow> inp = l @ rest \<and> length l \<le> k \<and> (\<forall>c \<in> set (butlast l). c \<noteq> CHR 0x0A \<and> c \<noteq> CHR 0x0D)"
proof (induction k inp arbitrary: l rule: gets_loop.induct)
  case (3 k c inp)
  obtain l' r where e: "gets_loop k inp = (l', r)" by force
  show ?case
  proof (cases "c = CHR 0x0A \<or> c = CHR 0x0D")
    case False
    then have "l = c # l'" "rest = r" using 3(2) e by simp_all
    then show ?thesis using 3(1) [OF False, of l'] e False by simp
  qed (use 3(2) in auto)
qed auto

lemma gets_line_shorter: "gets_line mx inp = (l, rest) \<Longrightarrow> l \<noteq> [] \<Longrightarrow> length rest < length inp"
  using gets_loop_splits [of "mx - 1" inp l rest] by (auto simp: gets_line_def)

subsection \<open>Strings\<close>

lemma strcmp_str_at:
  "k < n \<Longrightarrow> m (p + of_nat k) = 0 \<Longrightarrow> \<exists>r. strcmp p q m = Some r \<and> (r = 0 \<longleftrightarrow> str_at m p n = str_at m q n)"
proof (induction k arbitrary: p q n)
  case 0
  then obtain n' where "n = Suc n'" by (cases n) auto
  then show ?case using 0 by (subst strcmp.simps) (auto simp: str_at_Suc uint_byte_eq)
next
  case (Suc k)
  then obtain n' where n: "n = Suc n'" "k < n'" by (cases n) auto
  have "m (p + 1 + of_nat k) = 0" using Suc.prems(2) by (simp add: algebra_simps)
  from Suc.IH [OF n(2) this, of "q + 1"] show ?case using n(1) by (subst strcmp.simps) (auto simp: str_at_Suc uint_byte_eq)
qed

lemma strcpy_copy_up:
  "m (t + of_nat k) = 0 \<Longrightarrow> \<forall>i < k. m (t + of_nat i) \<noteq> 0 \<Longrightarrow> apart s (Suc k) t (Suc k) \<Longrightarrow> strcpy s t m = Some (copy_up (Suc k) t s m)"
proof (induction k arbitrary: s t m)
  case 0
  then show ?case by (subst strcpy.simps) simp
next
  case (Suc k)
  let ?m = "m(s := m t)"
  have "s + of_nat 0 \<noteq> t + of_nat (Suc i)" if "i < Suc k" for i using Suc.prems(3) that unfolding apart_def by blast
  then have e: "?m (t + 1 + of_nat i) = m (t + of_nat (Suc i))" if "i < Suc k" for i using that by (auto simp: algebra_simps)
  have "strcpy (s + 1) (t + 1) ?m = Some (copy_up (Suc k) (t + 1) (s + 1) ?m)"
    using Suc.prems e by (intro Suc.IH apart_Suc) auto
  moreover have "m t \<noteq> 0" using Suc.prems(2) by force
  ultimately show ?case by (subst strcpy.simps) simp
qed

lemma strcpy_copies:
  assumes "m (t + of_nat k) = 0" "\<forall>i < k. m (t + of_nat i) \<noteq> 0" "apart s (Suc k) t (Suc k)" "Suc k \<le> 2 ^ 32"
  shows "\<exists>m'. strcpy s t m = Some m' \<and> (\<forall>x. m' x = (if unat (x - s) < Suc k then m (t + (x - s)) else m x))"
  using strcpy_copy_up [of m t k s] copy_up_apply [of "Suc k" s t m] assms by (auto simp: apart_def)

subsection \<open>Numbers\<close>

context digit_table
begin

lemma loop_small_digits: "set (digit_loop digits base x) \<subseteq> set (take (unat base) digits)"
proof (induction "unat x" arbitrary: x rule: less_induct)
  case less
  have m: "unat x mod unat base < unat base" "unat base \<le> length digits" using table by auto
  then have d: "digits ! (unat x mod unat base) \<in> set (take (unat base) digits)"
    by (metis length_take min.absorb2 nth_mem nth_take)
  have "unat (x div base) < unat x" if "unat base \<le> unat x" using that table by (simp add: div_base)
  then have "set (digit_loop digits base (x div base)) \<subseteq> set (take (unat base) digits)" if "unat base \<le> unat x"
    using that less by blast
  then show ?case using d by (subst loop_step) auto
qed

end

interpretation udec: digit_table user_digits 10
  by unfold_locales (simp_all add: user_digits_def)

interpretation uhex: digit_table user_digits 16
  by unfold_locales (simp_all add: user_digits_def)

lemma user_digit: "c \<in> set (take 10 user_digits) \<Longrightarrow> is_digit c \<and> of_char c - 48 = int (digit_val user_digits c)"
proof -
  assume "c \<in> set (take 10 user_digits)"
  then have "c \<in> set ''0123456789''" by (simp add: user_digits_def)
  then have "c = CHR ''0'' \<or> c = CHR ''1'' \<or> c = CHR ''2'' \<or> c = CHR ''3'' \<or> c = CHR ''4'' \<or> c = CHR ''5'' \<or> c = CHR ''6'' \<or> c = CHR ''7'' \<or> c = CHR ''8'' \<or> c = CHR ''9''"
    by simp
  then show ?thesis by (elim disjE) (simp_all add: user_digits_def digit_val_def)
qed

lemma foldl_grows: "a \<le> foldl (\<lambda>a c. 10 * a + f c) (a :: nat) cs"
proof (induction cs arbitrary: a)
  case (Cons c cs)
  have "a \<le> 10 * a + f c" by simp
  also have "\<dots> \<le> foldl (\<lambda>a c. 10 * a + f c) (10 * a + f c) cs" by (rule Cons)
  finally show ?case by simp
qed simp

lemma atoi_loop_digits:
  assumes "set ds \<subseteq> set (take 10 user_digits)" "foldl (\<lambda>a c. 10 * a + digit_val user_digits c) a ds < 2 ^ 31"
    "rest = [] \<or> \<not> is_digit (hd rest)"
  shows "atoi_loop (int a) (ds @ rest) = int (foldl (\<lambda>a c. 10 * a + digit_val user_digits c) a ds)"
  using assms
proof (induction ds arbitrary: a)
  case Nil
  then show ?case by (cases rest) auto
next
  case (Cons c ds)
  note c = user_digit [of c]
  have "10 * a + digit_val user_digits c < 2 ^ 31" using Cons.prems(2) foldl_grows [of "10 * a + digit_val user_digits c" "digit_val user_digits" ds] by simp
  then have "int32 (int a * 10 + of_char c - 48) = int (10 * a + digit_val user_digits c)" using c Cons.prems(1) by (subst int32_id) (auto simp: is_int32_def)
  moreover have "atoi_loop (int (10 * a + digit_val user_digits c)) (ds @ rest) =
      int (foldl (\<lambda>a c. 10 * a + digit_val user_digits c) (10 * a + digit_val user_digits c) ds)"
    using Cons.prems by (intro Cons.IH) auto
  moreover have "is_digit c" using c Cons.prems(1) by simp
  ultimately show ?case by (simp only: append_Cons atoi_loop.simps if_True simp_thms foldl_Cons)
qed

text \<open>Numbers survive the trip through text: for every non-negative C int, atoi applied to what printf prints for %d, followed by anything
  that does not continue the number, returns it.\<close>

lemma user_number_roundtrip:
  assumes "0 \<le> n" "n < 2 ^ 31" "rest = [] \<or> \<not> is_digit (hd rest)"
  shows "\<exists>t. printf ''%d'' [Arg n] = Some t \<and> atoi (t @ rest) = n"
proof -
  define x where "x = (word_of_int n :: uint)"
  have x: "int (unat x) = n" using assms by (simp add: x_def unat_eq_nat_uint uint_word_of_int)
  let ?t = "rev (digit_loop user_digits 10 x)"
  have v: "foldl (\<lambda>a c. 10 * a + digit_val user_digits c) 0 ?t = unat x" using udec.loop_val [of x] by (simp add: num_val_def)
  have "printf ''%d'' [Arg n] = Some ?t" using assms(1) by (simp add: printf_def printint_user_def printint_chars_def x_def)
  moreover have "int (unat x) < int (2 ^ 31)" using x assms(2) by simp
  then have "unat x < 2 ^ 31" by (simp only: of_nat_less_iff)
  then have "atoi (?t @ rest) = n"
    using atoi_loop_digits [of ?t 0 rest] udec.loop_small_digits [of x] v x assms(2,3) by (simp add: atoi_def)
  ultimately show ?thesis by blast
qed

lemma user_number_roundtrip_example:
  "\<exists>t. printf ''%d'' [Arg 2147483647] = Some t \<and> atoi (t @ '' items'') = 2147483647"
  using user_number_roundtrip [of 2147483647 "'' items''"] by simp

end
