(* ===== verification/Grep.thy ===== *)
theory Grep
  imports Ulib
begin

text \<open>
  The pattern matcher of the user program \<^verbatim>\<open>src/grep.c\<close> and its loop over the lines of a file. A C string is the
  list of its characters before the terminating zero.
\<close>

subsection \<open>The matcher\<close>

function matchhere :: "string \<Rightarrow> string \<Rightarrow> bool" and matchstar :: "char \<Rightarrow> string \<Rightarrow> string \<Rightarrow> bool" where
  "matchhere re tx =
    (if re = [] then True
     else if 1 < length re \<and> re ! 1 = CHR ''*'' then matchstar (re ! 0) (drop 2 re) tx
     else if re ! 0 = CHR ''$'' \<and> length re = 1 then tx = []
     else if tx \<noteq> [] \<and> (re ! 0 = CHR ''.'' \<or> re ! 0 = hd tx) then matchhere (tl re) (tl tx)
     else False)"
| "matchstar c re tx =
    (if matchhere re tx then True
     else if tx \<noteq> [] \<and> (hd tx = c \<or> c = CHR ''.'') then matchstar c re (tl tx)
     else False)"
  by pat_completeness auto
termination
  by (relation "measure (\<lambda>x. case x of Inl (re, tx) \<Rightarrow> 2 * (length re + length tx)
      | Inr (c, re, tx) \<Rightarrow> 2 * (length re + length tx) + 1)") (auto simp: neq_Nil_conv)

declare matchhere.simps [simp del] matchstar.simps [simp del]

fun match_from :: "string \<Rightarrow> string \<Rightarrow> bool" where
  "match_from re tx = (if matchhere re tx then True else case tx of [] \<Rightarrow> False | _ # tx' \<Rightarrow> match_from re tx')"

declare match_from.simps [simp del]

definition match :: "string \<Rightarrow> string \<Rightarrow> bool" where
  "match re tx = (if re \<noteq> [] \<and> hd re = CHR ''^'' then matchhere (tl re) tx else match_from re tx)"

subsection \<open>The loop over the input\<close>

text \<open>The inner loop: every complete line at the front of \<open>p\<close> is tested and written if it matches; the result is
  the output and the bytes behind the last newline. \<^verbatim>\<open>strchr\<close> stops at a zero byte.\<close>

function grep_lines :: "string \<Rightarrow> string \<Rightarrow> string \<Rightarrow> string \<times> string" where
  "grep_lines pat p out = (case strchr p (CHR 0x0A) of
      None \<Rightarrow> (out, p)
    | Some q \<Rightarrow> grep_lines pat (drop (Suc q) p) (if match pat (take q p) then out @ take (Suc q) p else out))"
  by pat_completeness auto
termination
  by (relation "measure (\<lambda>(pat, p, out). length p)")
     (auto simp: strchr_def first_index_Some dest!: less_le_trans [OF _ length_takeWhile_le])

declare grep_lines.simps [simp del]

text \<open>What \<^verbatim>\<open>read\<close> returns on a descriptor: the input is the list of the pieces in which it arrives, one
  piece for a file, one for each write to a pipe.\<close>

fun read_fd :: "nat \<Rightarrow> string list \<Rightarrow> string \<times> string list" where
  "read_fd k [] = ([], [])"
| "read_fd k (c # cs) = (take k c, if length c \<le> k then cs else drop k c # cs)"

definition sizeof_buf :: nat where "sizeof_buf = 1024"

lemma read_fd_less: "read_fd k inp = (bs, inp') \<Longrightarrow> bs \<noteq> [] \<Longrightarrow> sum_list (map length inp') < sum_list (map length inp)"
  by (cases inp) (auto split: if_splits)

function grep_loop :: "string \<Rightarrow> string \<Rightarrow> string list \<Rightarrow> string \<Rightarrow> string" where
  "grep_loop pat buf inp out = (case read_fd (sizeof_buf - length buf - 1) inp of (bs, inp') \<Rightarrow>
     if bs = [] then out
     else case grep_lines pat (buf @ bs) out of (out', p) \<Rightarrow>
       grep_loop pat (if length p = length (buf @ bs) then [] else p) inp' out')"
  by pat_completeness auto
termination
  by (relation "measure (\<lambda>(pat, buf, inp, out). sum_list (map length inp))") (auto dest: read_fd_less [OF sym])

declare grep_loop.simps [simp del]

definition grep :: "string \<Rightarrow> string list \<Rightarrow> string" where
  "grep pat inp = grep_loop pat [] inp []"

subsection \<open>What a pattern means\<close>

text \<open>A pattern is a sequence of items, each one character, any character, or a repetition of one of them, and
  possibly an anchor at the end. The language of the items is what a match may consist of.\<close>

datatype item = Single char | Star char

definition atom :: "char \<Rightarrow> char set" where
  "atom c = (if c = CHR ''.'' then UNIV else {c})"

fun items :: "string \<Rightarrow> item list \<times> bool" where
  "items [] = ([], False)"
| "items [c] = (if c = CHR ''$'' then ([], True) else ([Single c], False))"
| "items (c # d # re) = (if d = CHR ''*'' then apfst (Cons (Star c)) (items re) else apfst (Cons (Single c)) (items (d # re)))"

fun lang :: "item list \<Rightarrow> string set" where
  "lang [] = {[]}"
| "lang (Single c # is) = {d # u | d u. d \<in> atom c \<and> u \<in> lang is}"
| "lang (Star c # is) = {v @ u | v u. set v \<subseteq> atom c \<and> u \<in> lang is}"

definition at_start :: "string \<Rightarrow> string \<Rightarrow> bool" where
  "at_start re tx \<longleftrightarrow> (\<exists>u v. tx = u @ v \<and> u \<in> lang (fst (items re)) \<and> (snd (items re) \<longrightarrow> v = []))"

definition found :: "string \<Rightarrow> string \<Rightarrow> bool" where
  "found re tx \<longleftrightarrow> (if re \<noteq> [] \<and> hd re = CHR ''^'' then at_start (tl re) tx
     else \<exists>pre rest. tx = pre @ rest \<and> at_start re rest)"

lemma at_start_Nil [simp]: "at_start [] tx"
  by (simp add: at_start_def)

lemma at_start_end [simp]: "at_start [CHR ''$''] tx \<longleftrightarrow> tx = []"
  by (auto simp: at_start_def)

lemma prefix_single:
  "(\<exists>u v. tx = u @ v \<and> u \<in> lang (Single c # is) \<and> P v) \<longleftrightarrow> (\<exists>d tx'. tx = d # tx' \<and> d \<in> atom c \<and> (\<exists>u v. tx' = u @ v \<and> u \<in> lang is \<and> P v))"
  (is "?l \<longleftrightarrow> ?r")
proof
  assume ?r
  then obtain d u v where "tx = (d # u) @ v" "d \<in> atom c" "u \<in> lang is" "P v" by auto
  then show ?l by (intro exI [of _ "d # u"] exI [of _ v]) simp
next
  assume ?l
  then obtain u v where "tx = u @ v" "u \<in> lang (Single c # is)" "P v" by blast
  then show ?r by (auto simp del: append_eq_append_conv append_eq_append_conv2) blast
qed

lemma prefix_star:
  "(\<exists>u v. tx = u @ v \<and> u \<in> lang (Star c # is) \<and> P v) \<longleftrightarrow> (\<exists>w tx'. tx = w @ tx' \<and> set w \<subseteq> atom c \<and> (\<exists>u v. tx' = u @ v \<and> u \<in> lang is \<and> P v))"
  (is "?l \<longleftrightarrow> ?r")
proof
  assume ?r
  then obtain w u v where "tx = (w @ u) @ v" "set w \<subseteq> atom c" "u \<in> lang is" "P v" by auto
  then show ?l by (intro exI [of _ "w @ u"] exI [of _ v]) auto
next
  assume ?l
  then obtain u v where "tx = u @ v" "u \<in> lang (Star c # is)" "P v" by blast
  then obtain x y where "tx = x @ (y @ v)" "set x \<subseteq> atom c" "y \<in> lang is" "P v" by auto
  then show ?r by blast
qed

lemma at_start_char:
  assumes "c \<noteq> CHR ''$'' \<or> re \<noteq> []" "re = [] \<or> hd re \<noteq> CHR ''*''"
  shows "at_start (c # re) tx \<longleftrightarrow> (\<exists>d tx'. tx = d # tx' \<and> d \<in> atom c \<and> at_start re tx')"
proof -
  have "items (c # re) = apfst (Cons (Single c)) (items re)" using assms by (cases re) auto
  then show ?thesis unfolding at_start_def by (simp only: fst_apfst snd_apfst prefix_single)
qed

lemma at_start_star: "at_start (c # CHR ''*'' # re) tx \<longleftrightarrow> (\<exists>v w. tx = v @ w \<and> set v \<subseteq> atom c \<and> at_start re w)"
proof -
  have "items (c # CHR ''*'' # re) = apfst (Cons (Star c)) (items re)" by simp
  then show ?thesis unfolding at_start_def by (simp only: fst_apfst snd_apfst prefix_star)
qed

lemma star_unfold:
  "(\<exists>v w. tx = v @ w \<and> set v \<subseteq> A \<and> P w) \<longleftrightarrow> P tx \<or> (tx \<noteq> [] \<and> hd tx \<in> A \<and> (\<exists>v w. tl tx = v @ w \<and> set v \<subseteq> A \<and> P w))"
  (is "?l \<longleftrightarrow> ?r")
proof
  assume ?l
  then obtain v w where v: "tx = v @ w" "set v \<subseteq> A" "P w" by blast
  then show ?r by (cases v) auto
next
  assume ?r
  then consider "P tx" | v w where "tx = hd tx # v @ w" "hd tx \<in> A" "set v \<subseteq> A" "P w" by (cases tx) auto
  then show ?l
  proof cases
    case 1
    then show ?thesis by (intro exI [of _ "[]"] exI [of _ tx]) simp
  next
    case (2 v w)
    then show ?thesis by (intro exI [of _ "hd tx # v"] exI [of _ w]) simp
  qed
qed

lemma matchhere_iff:
  "matchhere re tx \<longleftrightarrow> at_start re tx" 
  "matchstar c re tx \<longleftrightarrow> (\<exists>v w. tx = v @ w \<and> set v \<subseteq> atom c \<and> at_start re w)"
proof (induction re tx and c re tx rule: matchhere_matchstar.induct)
  case (1 re tx)
  show ?case
  proof (cases re)
    case (Cons c re')
    note re = Cons
    show ?thesis
    proof (cases "re' \<noteq> [] \<and> hd re' = CHR ''*''")
      case True
      then obtain r where r: "re' = CHR ''*'' # r" by (cases re') auto
      show ?thesis using 1(1) re r by (subst matchhere.simps) (simp add: at_start_star)
    next
      case False
      then have n: "\<not> (1 < length re \<and> re ! 1 = CHR ''*'')" "re \<noteq> []" using re by (cases re'; simp)+
      show ?thesis
      proof (cases "c = CHR ''$'' \<and> re' = []")
        case True
        then show ?thesis using re by (subst matchhere.simps) simp
      next
        case F: False
        have "at_start re tx \<longleftrightarrow> tx \<noteq> [] \<and> (c = CHR ''.'' \<or> c = hd tx) \<and> at_start re' (tl tx)"
          unfolding re using F False by (subst at_start_char) (auto simp: atom_def neq_Nil_conv)
        then show ?thesis using 1(2) [OF n(2,1)] n re F by (subst matchhere.simps) auto
      qed
    qed
  qed (simp add: matchhere.simps)
next
  case (2 c re tx)
  show ?case using 2 by (subst matchstar.simps) (subst star_unfold, auto simp: atom_def)
qed

lemma match_from_iff: "match_from re tx \<longleftrightarrow> (\<exists>pre rest. tx = pre @ rest \<and> at_start re rest)"
proof (induction tx)
  case Nil
  show ?case by (subst match_from.simps) (simp add: matchhere_iff)
next
  case (Cons a tx)
  have "(\<exists>pre rest. a # tx = pre @ rest \<and> at_start re rest) \<longleftrightarrow> at_start re (a # tx) \<or> (\<exists>pre rest. tx = pre @ rest \<and> at_start re rest)"
    using star_unfold [of "a # tx" UNIV "at_start re"] by simp
  then show ?case using Cons by (subst match_from.simps) (simp add: matchhere_iff)
qed

lemma match_found: "match re tx \<longleftrightarrow> found re tx"
  by (simp only: match_def found_def matchhere_iff match_from_iff)

subsection \<open>The lines of a text\<close>

definition NL :: char where "NL = CHR 0x0A"

text \<open>The complete lines of a text, without their newlines, and what follows the last one.\<close>

fun split_lines :: "string \<Rightarrow> string list \<times> string" where
  "split_lines [] = ([], [])"
| "split_lines (c # cs) = (case split_lines cs of (ls, r) \<Rightarrow>
     if c = NL then ([] # ls, r) else case ls of [] \<Rightarrow> ([], c # r) | l # ls' \<Rightarrow> ((c # l) # ls', r))"

definition print_lines :: "string list \<Rightarrow> string" where
  "print_lines ls = concat (map (\<lambda>l. l @ [NL]) ls)"

lemma split_no_newline: "NL \<notin> set cs \<Longrightarrow> split_lines cs = ([], cs)"
  by (induction cs) auto

lemma split_line: "NL \<notin> set l \<Longrightarrow> split_lines (l @ NL # cs) = (l # fst (split_lines cs), snd (split_lines cs))"
  by (induction l) (auto split: prod.splits)

text \<open>Every text is lines followed by a rest without newline.\<close>

lemma text_cases:
  obtains (rest) "NL \<notin> set cs" | (line) l cs' where "cs = l @ NL # cs'" "NL \<notin> set l"
  using split_list_first [of NL cs] by blast

lemma split_append:
  "split_lines (a @ b) = (fst (split_lines a) @ fst (split_lines (snd (split_lines a) @ b)), snd (split_lines (snd (split_lines a) @ b)))"
proof (induction "length a" arbitrary: a rule: less_induct)
  case less
  show ?case
  proof (cases a rule: text_cases)
    case rest
    then show ?thesis by (simp add: split_no_newline)
  next
    case (line l cs')
    then have "length cs' < length a" by simp
    from less [OF this] show ?thesis using line by (simp add: split_line)
  qed
qed

lemma split_rest: "NL \<notin> set (snd (split_lines cs))"
proof (induction "length cs" arbitrary: cs rule: less_induct)
  case less
  then show ?case by (cases cs rule: text_cases) (auto simp: split_no_newline split_line)
qed

lemma split_rest_le: "length (snd (split_lines cs)) \<le> length cs"
  by (induction cs) (auto split: prod.splits list.splits)

lemma split_rest_set: "set (snd (split_lines cs)) \<subseteq> set cs"
  by (induction cs) (auto split: prod.splits list.splits)

lemma split_rest_same: "length (snd (split_lines cs)) = length cs \<Longrightarrow> NL \<notin> set cs"
proof (cases cs rule: text_cases)
  case (line l cs')
  assume "length (snd (split_lines cs)) = length cs"
  with line split_rest_le [of cs'] show ?thesis by (simp add: split_line)
qed simp

lemma strchr_NL:
  assumes "CHR 0x00 \<notin> set p"
  shows "NL \<notin> set p \<Longrightarrow> strchr p NL = None" "p = l @ NL # cs \<Longrightarrow> NL \<notin> set l \<Longrightarrow> strchr p NL = Some (length l)"
proof -
  have t: "takeWhile (\<lambda>d. d \<noteq> CHR 0x00) p = p" using assms by (induction p) auto
  show "NL \<notin> set p \<Longrightarrow> strchr p NL = None" by (auto simp: strchr_def t first_index_None)
  show "p = l @ NL # cs \<Longrightarrow> NL \<notin> set l \<Longrightarrow> strchr p NL = Some (length l)"
    unfolding strchr_def t by (auto simp: first_index_Some nth_append dest: nth_mem)
qed

lemma grep_lines_split:
  "CHR 0x00 \<notin> set p \<Longrightarrow> grep_lines pat p out = (out @ print_lines (filter (match pat) (fst (split_lines p))), snd (split_lines p))"
proof (induction "length p" arbitrary: p out rule: less_induct)
  case less
  show ?case
  proof (cases p rule: text_cases)
    case rest
    then show ?thesis using strchr_NL(1) [OF less.prems rest]
      by (subst grep_lines.simps) (simp add: split_no_newline print_lines_def flip: NL_def)
  next
    case (line l cs)
    then have "length cs < length p" "CHR 0x00 \<notin> set cs" using less.prems by auto
    from less.hyps [OF this] show ?thesis using strchr_NL(2) [OF less.prems line] line
      by (subst grep_lines.simps) (simp add: split_line print_lines_def flip: NL_def)
  qed
qed

lemma split_short: "\<forall>l \<in> set (fst (split_lines (cs @ r))). length l < n \<Longrightarrow> NL \<notin> set cs \<Longrightarrow> n \<le> length cs \<Longrightarrow> NL \<notin> set r"
proof
  assume a: "\<forall>l \<in> set (fst (split_lines (cs @ r))). length l < n" "NL \<notin> set cs" "n \<le> length cs" "NL \<in> set r"
  then obtain l r' where "r = l @ NL # r'" "NL \<notin> set l" using split_list_first [of NL r] by blast
  then have "cs @ l \<in> set (fst (split_lines (cs @ r)))" using a(2) split_line [of "cs @ l" r'] by simp
  then show False using a(1,3) by fastforce
qed


lemma grep_loop_eof: "grep_loop pat buf [] out = out"
  by (subst grep_loop.simps) simp

lemma grep_loop_lines:
  assumes "NL \<notin> set buf" "length buf < sizeof_buf - 1" "CHR 0x00 \<notin> set (buf @ r)"
    "\<forall>l \<in> set (fst (split_lines (buf @ r))). length l < sizeof_buf - 1"
  shows "grep_loop pat buf [r] out = out @ print_lines (filter (match pat) (fst (split_lines (buf @ r))))"
  using assms
proof (induction "length r" arbitrary: r buf out rule: less_induct)
  case less
  let ?k = "sizeof_buf - length buf - 1"
  define bs where "bs = take ?k r"
  define r' where "r' = drop ?k r"
  define q where "q = snd (split_lines (buf @ bs))"
  define out1 where "out1 = out @ print_lines (filter (match pat) (fst (split_lines (buf @ bs))))"
  have r: "r = bs @ r'" by (simp add: bs_def r'_def)
  have gl: "grep_lines pat (buf @ bs) out = (out1, q)"
    unfolding out1_def q_def using less.prems(3) r by (intro grep_lines_split) auto
  show ?case
  proof (cases "r = []")
    case True
    then show ?thesis using less.prems(1) by (subst grep_loop.simps) (simp add: split_no_newline print_lines_def)
  next
    case False
    then have k: "0 < ?k" "bs \<noteq> []" using less.prems(2) by (auto simp: bs_def)
    define buf' where "buf' = (if length q = length (buf @ bs) then [] else q)"
    have step: "grep_loop pat buf [r] out = grep_loop pat buf' (if length r \<le> ?k then [] else [r']) out1"
    proof -
      have "read_fd ?k [r] = (bs, if length r \<le> ?k then [] else [r'])" by (simp add: bs_def r'_def)
      then show ?thesis using k(2) by (subst grep_loop.simps) (simp only: gl prod.case buf'_def if_False)
    qed
    show ?thesis
    proof (cases "length r \<le> ?k")
      case True
      then have "bs = r" by (simp add: bs_def)
      then show ?thesis using step True by (simp add: out1_def grep_loop_eof)
    next
      case F: False
      then have len: "length (buf @ bs) = sizeof_buf - 1" using less.prems(2) by (simp add: bs_def)
      have b: "NL \<notin> set buf'" "length buf' < sizeof_buf - 1"
        using split_rest [of "buf @ bs"] split_rest_le [of "buf @ bs"] len less.prems(2) by (auto simp: buf'_def q_def)
      have sp: "split_lines (buf @ r) = (fst (split_lines (buf @ bs)) @ fst (split_lines (q @ r')), snd (split_lines (q @ r')))"
        using split_append [of "buf @ bs" r'] by (simp add: r q_def)
      have same: "fst (split_lines (buf' @ r')) = fst (split_lines (q @ r'))"
      proof (cases "length q = length (buf @ bs)")
        case True
        then have n: "NL \<notin> set (buf @ bs)" using split_rest_same [of "buf @ bs"] by (simp add: q_def)
        then have "NL \<notin> set r'" using less.prems(4) len r by (intro split_short [of "buf @ bs" r' "sizeof_buf - 1"]) simp_all
        then show ?thesis using n True by (simp add: buf'_def q_def split_no_newline)
      qed (simp add: buf'_def)
      have "grep_loop pat buf' [r'] out1 = out1 @ print_lines (filter (match pat) (fst (split_lines (buf' @ r'))))"
      proof (rule less.hyps)
        show "length r' < length r" using k F by (simp add: r'_def)
        show "CHR 0x00 \<notin> set (buf' @ r')" using less.prems(3) r split_rest_set [of "buf @ bs"] by (auto simp: buf'_def q_def)
        show "\<forall>l \<in> set (fst (split_lines (buf' @ r'))). length l < sizeof_buf - 1"
          using less.prems(4) sp same by simp
      qed (use b in auto)
      then show ?thesis using step F same sp by (simp add: out1_def print_lines_def)
    qed
  qed
qed


text \<open>C20. \<^verbatim>\<open>grep\<close> on a file prints the lines in which the pattern is found, in order and complete: its
  recursive matcher and its buffer of 1024 bytes are equivalent to splitting the text into lines and asking, for
  each, whether the language of the pattern has a word that starts there. A line must fit the buffer, the file
  has no zero bytes, and text behind the last newline is never printed.\<close>

theorem grep_prints_matching_lines:
  assumes "CHR 0x00 \<notin> set contents" "\<forall>l \<in> set (fst (split_lines contents)). length l \<le> 1022"
  shows "grep pat [contents] = print_lines (filter (found pat) (fst (split_lines contents)))"
proof -
  have "match pat = found pat" by (simp add: match_found fun_eq_iff)
  moreover have "\<forall>l \<in> set (fst (split_lines contents)). length l < 1023" using assms(2) by fastforce
  ultimately show ?thesis using assms(1) grep_loop_lines [of "[]" contents pat "[]"] by (simp add: grep_def sizeof_buf_def)
qed

theorem grep_prints_matching_lines_witness:
  "grep ''b*c$'' [''abbc'' @ [NL] @ ''bd'' @ [NL] @ ''c'' @ [NL]] = ''abbc'' @ [NL] @ ''c'' @ [NL] \<and>
   print_lines (filter (found ''b*c$'') [''abbc'', ''bd'', ''c'']) = ''abbc'' @ [NL] @ ''c'' @ [NL]"
proof -
  let ?t = "''abbc'' @ [NL] @ ''bd'' @ [NL] @ ''c'' @ [NL]"
  have "split_lines ?t = ([''abbc'', ''bd'', ''c''], [])" "CHR 0x00 \<notin> set ?t" by (simp_all add: NL_def)
  moreover have "grep ''b*c$'' [?t] = ''abbc'' @ [NL] @ ''c'' @ [NL]" by code_simp
  ultimately show ?thesis using grep_prints_matching_lines [of ?t "''b*c$''"] by simp
qed

text \<open>Input that arrives in pieces is another matter: a piece that ends inside a line is dropped when no newline
  is in the buffer.\<close>

lemma grep_drops_split_line: "grep ''ab'' [''a'', ''b'' @ [NL]] = [] \<and> grep ''ab'' [''ab'' @ [NL]] = ''ab'' @ [NL]"
  by code_simp

end
