(* ===== verification/Shell.thy ===== *)
theory Shell
  imports Ulib Sysfile
begin

text \<open>
  The shell, \<^verbatim>\<open>src/sh.c\<close>: its parser and what it makes of a parsed command. The line is the list of its characters before the
  terminating zero; pointers into it are positions, the end \<^verbatim>\<open>es\<close> is its length. A word of the line is
  the pair of the positions \<^verbatim>\<open>q\<close> and \<^verbatim>\<open>eq\<close>.

  The four parsing functions call each other without a bound; the model gives them fuel, which \<open>parsecmd\<close>
  supplies according to the length of the line, and the theorems show that it is enough.
\<close>

subsection \<open>Tokens\<close>

type_synonym word_at = "nat \<times> nat"

definition whitespace :: string where
  "whitespace = [CHR '' '', CHR 0x09, CHR 0x0D, CHR 0x0A, CHR 0x0B]"

definition symbols :: string where
  "symbols = ''<|>&;()''"

definition at :: "string \<Rightarrow> nat \<Rightarrow> char" where
  "at b i = (if i < length b then b ! i else CHR 0x00)"

function skip_white :: "string \<Rightarrow> nat \<Rightarrow> nat" where
  "skip_white b i = (if i < length b \<and> strchr whitespace (at b i) \<noteq> None then skip_white b (Suc i) else i)"
  by pat_completeness auto
termination
  by (relation "measure (\<lambda>(b, i). length b - i)") auto

function skip_word :: "string \<Rightarrow> nat \<Rightarrow> nat" where
  "skip_word b i = (if i < length b \<and> strchr whitespace (at b i) = None \<and> strchr symbols (at b i) = None
     then skip_word b (Suc i) else i)"
  by pat_completeness auto
termination
  by (relation "measure (\<lambda>(b, i). length b - i)") auto

declare skip_white.simps [simp del] skip_word.simps [simp del]

text \<open>The token kind, its bounds, and the position behind the white space that follows it.\<close>

definition gettoken :: "string \<Rightarrow> nat \<Rightarrow> char \<times> nat \<times> nat \<times> nat" where
  "gettoken b ps =
    (let q = skip_white b ps; c = at b q in
     let (ret, s) =
       (if c = CHR 0x00 then (c, q)
        else if c \<in> set ''|();&<'' then (c, Suc q)
        else if c = CHR ''>'' then (if at b (Suc q) = CHR ''>'' then (CHR ''+'', Suc (Suc q)) else (c, Suc q))
        else (CHR ''a'', skip_word b q))
     in (ret, q, s, skip_white b s))"

definition peek :: "string \<Rightarrow> nat \<Rightarrow> string \<Rightarrow> nat \<times> bool" where
  "peek b ps toks = (let s = skip_white b ps in (s, at b s \<noteq> CHR 0x00 \<and> strchr toks (at b s) \<noteq> None))"

lemma strchr_None: "strchr cs c = None \<longleftrightarrow> c \<notin> set (takeWhile (\<lambda>d. d \<noteq> CHR 0x00) cs)"
  by (auto simp: strchr_def first_index_None)

lemma strchr_white: "strchr whitespace c \<noteq> None \<longleftrightarrow> c \<in> set whitespace"
  by (simp add: strchr_None) (simp add: whitespace_def)

lemma strchr_symbols: "strchr symbols c \<noteq> None \<longleftrightarrow> c \<in> set symbols"
  by (simp add: strchr_None) (simp add: symbols_def)

lemma strchr_word: "strchr whitespace c = None \<longleftrightarrow> c \<notin> set whitespace" "strchr symbols c = None \<longleftrightarrow> c \<notin> set symbols"
  using strchr_white strchr_symbols by metis+

lemma skip_white_bounds: "i \<le> skip_white b i" "i \<le> length b \<Longrightarrow> skip_white b i \<le> length b"
proof (induction b i rule: skip_white.induct)
  case (1 b i)
  { case 1 then show ?case using "1.IH" by (subst skip_white.simps) (auto dest: Suc_leD) next
    case 2 then show ?case using "1.IH" by (subst skip_white.simps) auto }
qed

lemma skip_word_bounds: "i \<le> skip_word b i" "i \<le> length b \<Longrightarrow> skip_word b i \<le> length b"
proof (induction b i rule: skip_word.induct)
  case (1 b i)
  { case 1 then show ?case using "1.IH" by (subst skip_word.simps) (auto dest: Suc_leD) next
    case 2 then show ?case using "1.IH" by (subst skip_word.simps) auto }
qed

lemma at_bound: "at b i \<noteq> CHR 0x00 \<Longrightarrow> i < length b"
  by (auto simp: at_def split: if_splits)

lemma skip_word_Suc: "at b i \<noteq> CHR 0x00 \<Longrightarrow> at b i \<notin> set whitespace \<Longrightarrow> at b i \<notin> set symbols \<Longrightarrow> Suc i \<le> skip_word b i"
  using skip_word_bounds(1) [of "Suc i" b] at_bound [of b i] strchr_white strchr_symbols
  by (subst skip_word.simps) auto

lemma nul_white: "CHR 0x00 \<notin> set whitespace" "CHR 0x00 \<notin> set symbols"
  by (simp_all add: whitespace_def symbols_def)

lemma skip_white_stop: "at b (skip_white b i) \<notin> set whitespace"
proof (induction b i rule: skip_white.induct)
  case (1 b i)
  show ?case
  proof (cases "i < length b \<and> strchr whitespace (at b i) \<noteq> None")
    case True
    then show ?thesis using 1 by (subst skip_white.simps) simp
  next
    case False
    then have "at b i \<notin> set whitespace" using nul_white(1) unfolding strchr_white by (auto simp: at_def)
    then show ?thesis unfolding skip_white.simps [of b i] if_not_P [OF False] .
  qed
qed

text \<open>Every token moves on, except the end of the line.\<close>

lemma gettoken_moves:
  assumes "gettoken b i = (tok, q, e, j)" "i \<le> length b"
  shows "i \<le> q" "q \<le> e" "e \<le> j" "j \<le> length b" "tok \<noteq> CHR 0x00 \<Longrightarrow> q < e"
proof -
  let ?q = "skip_white b i"
  have q: "i \<le> ?q" "?q \<le> length b" using skip_white_bounds assms(2) by auto
  note w = skip_white_stop [of b i]
  have m: "c \<notin> set ''|();&<'' \<Longrightarrow> c \<noteq> CHR ''>'' \<Longrightarrow> c \<notin> set symbols" for c by (auto simp: symbols_def)
  have e: "q = ?q \<and> j = skip_white b e \<and> (tok \<noteq> CHR 0x00 \<longrightarrow> ?q < e) \<and> ?q \<le> e \<and> e \<le> length b"
  proof (cases "at b ?q = CHR 0x00")
    case True
    then show ?thesis using assms(1) q by (auto simp: gettoken_def Let_def)
  next
    case c: False
    then have l: "Suc ?q \<le> length b" using at_bound by force
    consider (sym) "at b ?q \<in> set ''|();&<''" | (gt) "at b ?q \<notin> set ''|();&<''" "at b ?q = CHR ''>''"
      | (w) "at b ?q \<notin> set ''|();&<''" "at b ?q \<noteq> CHR ''>''" by blast
    then show ?thesis
    proof cases
      case sym
      then show ?thesis using assms(1) l c unfolding gettoken_def Let_def if_not_P [OF c] if_P [OF sym] by auto
    next
      case gt
      then show ?thesis using assms(1) l at_bound [of b "Suc ?q"]
        unfolding gettoken_def Let_def if_not_P [OF c] if_not_P [OF gt(1)] if_P [OF gt(2)] by (auto split: if_splits)
    next
      case word: w
      then show ?thesis using assms(1) skip_word_Suc [OF c w m [OF word]] skip_word_bounds(2) [OF q(2)]
        unfolding gettoken_def Let_def if_not_P [OF c] if_not_P [OF word(1)] if_not_P [OF word(2)] by auto
    qed
  qed
  then show "i \<le> q" "q \<le> e" "e \<le> j" "j \<le> length b" "tok \<noteq> CHR 0x00 \<Longrightarrow> q < e"
    using q skip_white_bounds [of e b] by auto
qed


subsection \<open>Commands\<close>

text \<open>A command over words: positions in the line while it is parsed, strings once it is read.\<close>

datatype 'w cmd = Execcmd "'w list" | Redircmd "'w cmd" 'w uint nat
  | Pipecmd "'w cmd" "'w cmd" | Listcmd "'w cmd" "'w cmd" | Backcmd "'w cmd"

text \<open>The functions that allocate a node.\<close>

definition execcmd :: "'w cmd" where "execcmd = Execcmd []"
definition redircmd :: "'w cmd \<Rightarrow> 'w \<Rightarrow> uint \<Rightarrow> nat \<Rightarrow> 'w cmd" where "redircmd c f m d = Redircmd c f m d"
definition pipecmd :: "'w cmd \<Rightarrow> 'w cmd \<Rightarrow> 'w cmd" where "pipecmd l r = Pipecmd l r"
definition listcmd :: "'w cmd \<Rightarrow> 'w cmd \<Rightarrow> 'w cmd" where "listcmd l r = Listcmd l r"
definition backcmd :: "'w cmd \<Rightarrow> 'w cmd" where "backcmd c = Backcmd c"

lemmas nodes [simp] = execcmd_def redircmd_def pipecmd_def listcmd_def backcmd_def

definition MAXARGS :: nat where "MAXARGS = 10"

text \<open>The result of a parsing function: the command and the position reached, the message of a panic, or no fuel left.\<close>

datatype 'a parsed = Parsed 'a | Panics string | NoFuel

primrec pbind :: "'a parsed \<Rightarrow> ('a \<Rightarrow> 'b parsed) \<Rightarrow> 'b parsed" where
  "pbind (Parsed x) f = f x"
| "pbind (Panics e) f = Panics e"
| "pbind NoFuel f = NoFuel"

lemma pbind_cong [fundef_cong]: "m = m' \<Longrightarrow> (\<And>x. m' = Parsed x \<Longrightarrow> f x = f' x) \<Longrightarrow> pbind m f = pbind m' f'"
  by (cases m') auto

lemma peek_moves:
  assumes "peek b i toks = (j, r)"
  shows "i \<le> j" "i \<le> length b \<Longrightarrow> j \<le> length b" "r \<Longrightarrow> j < length b" "j = skip_white b i" "r \<longleftrightarrow> at b j \<noteq> CHR 0x00 \<and> strchr toks (at b j) \<noteq> None"
  using assms skip_white_bounds at_bound by (auto simp: peek_def Let_def)

lemma skip_white_twice [simp]: "skip_white b (skip_white b i) = skip_white b i"
  using skip_white_stop [of b i] strchr_white by (subst skip_white.simps) auto

lemma peek_gettoken:
  assumes "peek b i toks = (j, True)" "gettoken b j = (tok, q, e, k)"
  shows "j < k" "k \<le> length b"
proof -
  note p = peek_moves [OF assms(1)]
  have "tok \<noteq> CHR 0x00" using assms(2) p(4,5) unfolding gettoken_def Let_def by (auto split: if_splits)
  then show "j < k" "k \<le> length b" using gettoken_moves [OF assms(2)] p(3) by auto
qed

lemma gettoken_less:
  assumes "(tok, q, e, j) = gettoken b i" "tok \<noteq> CHR 0x00"
  shows "i < j" "j \<le> length b" "i \<le> q" "q < e" "e \<le> j"
proof -
  have "at b (skip_white b i) \<noteq> CHR 0x00" using assms unfolding gettoken_def Let_def by (auto split: if_splits)
  then have "i \<le> length b" using at_bound skip_white_bounds(1) [of i b] by force
  then show "i < j" "j \<le> length b" "i \<le> q" "q < e" "e \<le> j" using gettoken_moves [OF assms(1) [symmetric]] assms(2) by auto
qed

lemma redir_less:
  assumes "(j, True) = peek b i toks" "(tok, q, e, k) = gettoken b j" "(a, q', e', l) = gettoken b k"
  shows "length b - l < length b - i" "i < l" "l \<le> length b"
  using peek_moves(1,3) [OF assms(1) [symmetric]] peek_gettoken [OF assms(1,2) [symmetric]] gettoken_moves [OF assms(3) [symmetric]] by auto

text \<open>The loop \<^verbatim>\<open>while(peek(ps, es, "<>"))\<close> of \<^verbatim>\<open>parseredirs\<close>.\<close>

function parseredirs :: "word_at cmd \<Rightarrow> string \<Rightarrow> nat \<Rightarrow> (word_at cmd \<times> nat) parsed" where
  "parseredirs c b ps = (let (ps, r) = peek b ps ''<>'' in
     if r then
       (let (tok, _, _, ps) = gettoken b ps in
        let (a, q, eq, ps) = gettoken b ps in
        if a \<noteq> CHR ''a'' then Panics ''missing file for redirection''
        else if tok = CHR ''<'' then parseredirs (redircmd c (q, eq) O_RDONLY 0) b ps
        else parseredirs (redircmd c (q, eq) (O_WRONLY OR O_CREATE) 1) b ps)
     else Parsed (c, ps))"
  by pat_completeness auto
termination
  by (relation "measure (\<lambda>(c, b, i). length b - i)") (auto intro: redir_less)

declare parseredirs.simps [simp del]

definition moved :: "string \<Rightarrow> nat \<Rightarrow> (word_at cmd \<times> nat) parsed \<Rightarrow> bool" where
  "moved b i r \<longleftrightarrow> (case r of NoFuel \<Rightarrow> False | Panics e \<Rightarrow> True | Parsed (c, j) \<Rightarrow> i \<le> j \<and> (i \<le> length b \<longrightarrow> j \<le> length b))"

lemma moved_simps [simp]: "moved b i (Parsed (c, j)) \<longleftrightarrow> i \<le> j \<and> (i \<le> length b \<longrightarrow> j \<le> length b)" "moved b i (Panics e)" "\<not> moved b i NoFuel"
  by (simp_all add: moved_def)

lemma moved_trans: "moved b j r \<Longrightarrow> i \<le> j \<Longrightarrow> j \<le> length b \<Longrightarrow> moved b i r"
  by (auto simp: moved_def split: parsed.splits)

lemma parseredirs_moved: "moved b i (parseredirs c b i)"
proof (induction c b i rule: parseredirs.induct)
  case (1 c b i)
  obtain k r where p: "peek b i ''<>'' = (k, r)" by force
  obtain tok q e l where g: "gettoken b k = (tok, q, e, l)" by (metis prod_cases4)
  obtain a q' e' m where g': "gettoken b l = (a, q', e', m)" by (metis prod_cases4)
  note IH = "1.IH" [OF p [symmetric] refl _ g [symmetric] refl refl refl g' [symmetric] refl refl refl]
  show ?case
  proof (cases r)
    case True
    then have "(k, True) = peek b i ''<>''" using p by simp
    from redir_less [OF this g [symmetric] g' [symmetric]] have "moved b m r \<Longrightarrow> moved b i r" for r by (auto elim: moved_trans)
    then show ?thesis using IH True by (subst parseredirs.simps) (simp add: p g g')
  next
    case False
    then show ?thesis using peek_moves(1,2) [OF p] by (subst parseredirs.simps) (simp add: p)
  qed
qed

lemma arg_less:
  assumes "(j, r) = peek b i toks" "(tok, q, e, k) = gettoken b j" "tok \<noteq> CHR 0x00" "parseredirs c b k = Parsed (c', l)"
  shows "length b - l < length b - i"
  using peek_moves(1) [OF assms(1) [symmetric]] gettoken_less [OF assms(2,3)] parseredirs_moved [of b k c] assms(4) by auto

text \<open>A word is stored in the command that \<^verbatim>\<open>parseexec\<close> created; redirections seen before it are wrapped around that
  command already.\<close>

fun add_arg :: "'w \<Rightarrow> 'w cmd \<Rightarrow> 'w cmd" where
  "add_arg w (Execcmd ws) = Execcmd (ws @ [w])"
| "add_arg w (Redircmd c f m d) = Redircmd (add_arg w c) f m d"
| "add_arg w c = c"

function parseexec_loop :: "nat \<Rightarrow> word_at cmd \<Rightarrow> string \<Rightarrow> nat \<Rightarrow> (word_at cmd \<times> nat) parsed" where
  "parseexec_loop argc c b ps = (let (ps, r) = peek b ps ''|)&;'' in
     if r then Parsed (c, ps)
     else let (tok, q, eq, ps) = gettoken b ps in
       if tok = CHR 0x00 then Parsed (c, ps)
       else if tok \<noteq> CHR ''a'' then Panics ''syntax''
       else if Suc argc \<ge> MAXARGS then Panics ''too many args''
       else pbind (parseredirs (add_arg (q, eq) c) b ps) (\<lambda>(c, ps). parseexec_loop (Suc argc) c b ps))"
  by pat_completeness auto
termination
  by (relation "measure (\<lambda>(n, c, b, i). length b - i)")
     (auto intro: arg_less)

declare parseexec_loop.simps [simp del]

lemma back_less:
  assumes "(j, True) = peek b i toks" "(tok, q, e, k) = gettoken b j"
  shows "length b - k < length b - i" "i < k" "k \<le> length b"
  using peek_moves(1) [OF assms(1) [symmetric]] peek_gettoken [OF assms [symmetric]] by auto

text \<open>The loop \<^verbatim>\<open>while(peek(ps, es, "&"))\<close> of \<^verbatim>\<open>parseline\<close>.\<close>

function parseline_back :: "word_at cmd \<Rightarrow> string \<Rightarrow> nat \<Rightarrow> word_at cmd \<times> nat" where
  "parseline_back c b ps = (let (ps, r) = peek b ps ''&'' in
     if r then (let (_, _, _, ps) = gettoken b ps in parseline_back (backcmd c) b ps) else (c, ps))"
  by pat_completeness auto
termination
  by (relation "measure (\<lambda>(c, b, i). length b - i)") (auto intro: back_less)

declare parseline_back.simps [simp del]

fun parseline :: "nat \<Rightarrow> string \<Rightarrow> nat \<Rightarrow> (word_at cmd \<times> nat) parsed"
  and parsepipe :: "nat \<Rightarrow> string \<Rightarrow> nat \<Rightarrow> (word_at cmd \<times> nat) parsed"
  and parseblock :: "nat \<Rightarrow> string \<Rightarrow> nat \<Rightarrow> (word_at cmd \<times> nat) parsed"
  and parseexec :: "nat \<Rightarrow> string \<Rightarrow> nat \<Rightarrow> (word_at cmd \<times> nat) parsed" where
  "parseline 0 b ps = NoFuel"
| "parseline (Suc n) b ps = pbind (parsepipe n b ps) (\<lambda>(c, ps).
     let (c, ps) = parseline_back c b ps; (ps, r) = peek b ps '';'' in
     if r then (let (_, _, _, ps) = gettoken b ps in
       pbind (parseline n b ps) (\<lambda>(c', ps). Parsed (listcmd c c', ps)))
     else Parsed (c, ps))"
| "parsepipe 0 b ps = NoFuel"
| "parsepipe (Suc n) b ps = pbind (parseexec n b ps) (\<lambda>(c, ps).
     let (ps, r) = peek b ps ''|'' in
     if r then (let (_, _, _, ps) = gettoken b ps in
       pbind (parsepipe n b ps) (\<lambda>(c', ps). Parsed (pipecmd c c', ps)))
     else Parsed (c, ps))"
| "parseblock 0 b ps = NoFuel"
| "parseblock (Suc n) b ps = (let (ps, r) = peek b ps ''('' in
     if \<not> r then Panics ''parseblock''
     else let (_, _, _, ps) = gettoken b ps in
       pbind (parseline n b ps) (\<lambda>(c, ps).
         let (ps, r) = peek b ps '')'' in
         if \<not> r then Panics ''syntax - missing )''
         else let (_, _, _, ps) = gettoken b ps in parseredirs c b ps))"
| "parseexec 0 b ps = NoFuel"
| "parseexec (Suc n) b ps = (let (ps, r) = peek b ps ''('' in
     if r then parseblock n b ps
     else pbind (parseredirs execcmd b ps) (\<lambda>(c, ps). parseexec_loop 0 c b ps))"

text \<open>\<^verbatim>\<open>nulterminate\<close> stores a zero behind every word; the buffer \<open>m\<close> includes the terminating zero of the line.\<close>

primrec nulterminate :: "word_at cmd \<Rightarrow> string \<Rightarrow> string" where
  "nulterminate (Execcmd ws) m = fold (\<lambda>(q, eq) m. m[eq := CHR 0x00]) ws m"
| "nulterminate (Redircmd c f md d) m = (nulterminate c m)[snd f := CHR 0x00]"
| "nulterminate (Pipecmd l r) m = nulterminate r (nulterminate l m)"
| "nulterminate (Listcmd l r) m = nulterminate r (nulterminate l m)"
| "nulterminate (Backcmd c) m = nulterminate c m"

text \<open>The command and the buffer that \<^verbatim>\<open>parsecmd\<close> leaves.\<close>

definition parsecmd :: "string \<Rightarrow> (word_at cmd \<times> string) parsed" where
  "parsecmd s = pbind (parseline (4 * length s + 4) s 0) (\<lambda>(c, ps).
     let (ps, _) = peek s ps [] in
     if ps \<noteq> length s then Panics ''syntax''
     else Parsed (c, nulterminate c (s @ [CHR 0x00])))"

subsection \<open>The parser returns, and the words it returns are words of the line\<close>

abbreviation word_char :: "char \<Rightarrow> bool" where
  "word_char c \<equiv> c \<notin> set whitespace \<and> c \<notin> set symbols"

definition is_word :: "string \<Rightarrow> word_at \<Rightarrow> bool" where
  "is_word b w \<longleftrightarrow> fst w < snd w \<and> snd w \<le> length b \<and> (\<forall>k. fst w \<le> k \<and> k < snd w \<longrightarrow> word_char (b ! k)) \<and>
     (snd w < length b \<longrightarrow> \<not> word_char (b ! snd w))"

definition redir_modes :: "(uint \<times> nat) set" where
  "redir_modes = {(O_RDONLY, 0), (O_WRONLY OR O_CREATE, 1)}"

primrec cmd_ok :: "('w \<Rightarrow> bool) \<Rightarrow> 'w cmd \<Rightarrow> bool" where
  "cmd_ok P (Execcmd ws) \<longleftrightarrow> length ws < MAXARGS \<and> (\<forall>w \<in> set ws. P w)"
| "cmd_ok P (Redircmd c f m d) \<longleftrightarrow> cmd_ok P c \<and> P f \<and> (m, d) \<in> redir_modes"
| "cmd_ok P (Pipecmd l r) \<longleftrightarrow> cmd_ok P l \<and> cmd_ok P r"
| "cmd_ok P (Listcmd l r) \<longleftrightarrow> cmd_ok P l \<and> cmd_ok P r"
| "cmd_ok P (Backcmd c) \<longleftrightarrow> cmd_ok P c"

lemma skip_word_chars: "i \<le> k \<Longrightarrow> k < skip_word b i \<Longrightarrow> word_char (b ! k)"
proof (induction b i rule: skip_word.induct)
  case (1 b i)
  show ?case
  proof (cases "i < length b \<and> strchr whitespace (at b i) = None \<and> strchr symbols (at b i) = None")
    case True
    then have "word_char (b ! i)" by (auto simp: at_def strchr_word)
    moreover have "k = i \<or> word_char (b ! k)" using "1.IH" [OF True] "1.prems" True by (subst (asm) (2) skip_word.simps) auto
    ultimately show ?thesis by auto
  next
    case False
    then show ?thesis using "1.prems" unfolding skip_word.simps [of b i] if_not_P [OF False] by simp
  qed
qed

lemma skip_word_stop: "skip_word b i < length b \<Longrightarrow> \<not> word_char (b ! skip_word b i)"
proof (induction b i rule: skip_word.induct)
  case (1 b i)
  show ?case
  proof (cases "i < length b \<and> strchr whitespace (at b i) = None \<and> strchr symbols (at b i) = None")
    case True
    then show ?thesis using 1 unfolding skip_word.simps [of b i] if_P [OF True] by simp
  next
    case False
    then show ?thesis using "1.prems" unfolding skip_word.simps [of b i] if_not_P [OF False] by (auto simp: at_def strchr_word)
  qed
qed

lemma gettoken_word:
  assumes "gettoken b i = (CHR ''a'', q, e, j)"
  shows "is_word b (q, e)"
proof -
  let ?c = "at b (skip_white b i)"
  have c: "?c \<noteq> CHR 0x00" "?c \<notin> set ''|();&<''" "?c \<noteq> CHR ''>''" "q = skip_white b i" "e = skip_word b q"
    using assms unfolding gettoken_def Let_def by (auto split: if_splits)
  then have "q < e" using gettoken_less(4) [OF assms [symmetric]] by simp
  moreover have "q < length b" using at_bound c(1,4) by simp
  ultimately show ?thesis
    using skip_word_chars [of q _ b] skip_word_stop [of b q] skip_word_bounds(2) [of q b] c(5) by (auto simp: is_word_def)
qed

text \<open>What a parsing function returns: it does not run out of fuel, stays in the line, and its words are words of the line.\<close>

definition parses :: "string \<Rightarrow> nat \<Rightarrow> (word_at cmd \<times> nat) parsed \<Rightarrow> bool" where
  "parses b i r \<longleftrightarrow> (case r of NoFuel \<Rightarrow> False | Panics e \<Rightarrow> True | Parsed (c, j) \<Rightarrow> i \<le> j \<and> j \<le> length b \<and> cmd_ok (is_word b) c)"

lemma parses_simps [simp]: "parses b i (Parsed (c, j)) \<longleftrightarrow> i \<le> j \<and> j \<le> length b \<and> cmd_ok (is_word b) c" "parses b i (Panics e)" "\<not> parses b i NoFuel"
  by (simp_all add: parses_def)

lemma parses_trans: "parses b j r \<Longrightarrow> i \<le> j \<Longrightarrow> parses b i r"
  by (auto simp: parses_def split: parsed.splits)

lemma parses_bind:
  "parses b i m \<Longrightarrow> (\<And>c j. m = Parsed (c, j) \<Longrightarrow> i \<le> j \<Longrightarrow> j \<le> length b \<Longrightarrow> cmd_ok (is_word b) c \<Longrightarrow> parses b i (f (c, j))) \<Longrightarrow> parses b i (pbind m f)"
  by (cases m) auto

text \<open>The number of arguments of the command inside the redirections.\<close>

fun nargs :: "'w cmd \<Rightarrow> nat" where
  "nargs (Execcmd ws) = length ws"
| "nargs (Redircmd c f m d) = nargs c"
| "nargs c = MAXARGS"

lemma add_arg_ok: "cmd_ok P c \<Longrightarrow> P w \<Longrightarrow> Suc (nargs c) < MAXARGS \<Longrightarrow> cmd_ok P (add_arg w c) \<and> nargs (add_arg w c) = Suc (nargs c)"
  by (induction w c rule: add_arg.induct) auto

lemma redir_modes [simp]: "(O_RDONLY, 0) \<in> redir_modes" "(O_WRONLY OR O_CREATE, 1) \<in> redir_modes" "(O_WRONLY OR O_CREATE, Suc 0) \<in> redir_modes"
  by (simp_all add: redir_modes_def)

lemma parseredirs_parses:
  "cmd_ok (is_word b) c \<Longrightarrow> i \<le> length b \<Longrightarrow> parses b i (parseredirs c b i)"
  "parseredirs c b i = Parsed (c', j) \<Longrightarrow> nargs c' = nargs c"
proof (induction c b i rule: parseredirs.induct)
  case (1 c b i)
  obtain k r where p: "peek b i ''<>'' = (k, r)" by force
  obtain tok q e l where g: "gettoken b k = (tok, q, e, l)" by (metis prod_cases4)
  obtain a q' e' m where g': "gettoken b l = (a, q', e', m)" by (metis prod_cases4)
  note IH1 = "1.IH"(1) [OF p [symmetric] refl _ g [symmetric] refl refl refl g' [symmetric] refl refl refl]
  note IH2 = "1.IH"(2) [OF p [symmetric] refl _ g [symmetric] refl refl refl g' [symmetric] refl refl refl]
  note IH3 = "1.IH"(3) [OF p [symmetric] refl _ g [symmetric] refl refl refl g' [symmetric] refl refl refl]
  note IH4 = "1.IH"(4) [OF p [symmetric] refl _ g [symmetric] refl refl refl g' [symmetric] refl refl refl]
  {
    case 1
    show ?case
    proof (cases r)
      case True
      then have "(k, True) = peek b i ''<>''" using p by simp
      note l = redir_less [OF this g [symmetric] g' [symmetric]]
      then have "parses b m r \<Longrightarrow> parses b i r" for r by (auto elim: parses_trans)
      moreover have "a = CHR ''a'' \<Longrightarrow> is_word b (q', e')" using gettoken_word g' by simp
      ultimately show ?thesis using IH1 IH3 True 1 l by (subst parseredirs.simps) (auto simp: p g g')
    next
      case False
      then show ?thesis using peek_moves(1,2) [OF p] 1 by (subst parseredirs.simps) (simp add: p)
    qed
  next
    case 2
    then show ?case using IH2 IH4 by (subst (asm) parseredirs.simps) (auto simp: p g g' split: if_splits)
  }
qed

lemma parseexec_loop_parses:
  "cmd_ok (is_word b) c \<Longrightarrow> nargs c = n \<Longrightarrow> i \<le> length b \<Longrightarrow> parses b i (parseexec_loop n c b i)"
proof (induction n c b i rule: parseexec_loop.induct)
  case (1 n c b i)
  obtain k r where p: "peek b i ''|)&;'' = (k, r)" by force
  obtain tok q e l where g: "gettoken b k = (tok, q, e, l)" by (metis prod_cases4)
  note k = peek_moves(1,2) [OF p]
  show ?case
  proof (cases "r \<or> tok = CHR 0x00 \<or> tok \<noteq> CHR ''a'' \<or> Suc n \<ge> MAXARGS")
    case True
    then show ?thesis using k 1(2-4) gettoken_moves [OF g] by (subst parseexec_loop.simps) (auto simp: p g)
  next
    case False
    then have tk: "tok = CHR ''a''" "\<not> r" "\<not> MAXARGS \<le> Suc n" by auto
    have ok: "cmd_ok (is_word b) (add_arg (q, e) c)" "nargs (add_arg (q, e) c) = Suc n"
      using add_arg_ok [of "is_word b" c "(q, e)"] 1(2,3) gettoken_word g tk by auto
    have l: "k < l" "l \<le> length b" using gettoken_less [OF g [symmetric]] tk(1) by auto
    have "parses b l (pbind (parseredirs (add_arg (q, e) c) b l) (\<lambda>(c, ps). parseexec_loop (Suc n) c b ps))"
    proof (rule parses_bind [OF parseredirs_parses(1) [OF ok(1) l(2)]], simp)
      fix c' j assume c': "parseredirs (add_arg (q, e) c) b l = Parsed (c', j)" "l \<le> j" "j \<le> length b" "cmd_ok (is_word b) c'"
      have "nargs c' = Suc n" using parseredirs_parses(2) [OF c'(1)] ok(2) by simp
      from 1(1) [OF p [symmetric] refl tk(2) g [symmetric] refl refl refl _ _ tk(3) c'(1) refl c'(4) this c'(3)]
      show "parses b l (parseexec_loop (Suc n) c' b j)" using c' tk by (auto elim: parses_trans)
    qed
    then show ?thesis using tk l k by (subst parseexec_loop.simps) (auto simp: p g elim: parses_trans)
  qed
qed

lemma parseline_back_ok:
  "parseline_back c b i = (c', j) \<Longrightarrow> cmd_ok P c \<Longrightarrow> i \<le> length b \<Longrightarrow> i \<le> j \<and> j \<le> length b \<and> cmd_ok P c'"
proof (induction c b i rule: parseline_back.induct)
  case (1 c b i)
  obtain k r where p: "peek b i ''&'' = (k, r)" by force
  obtain tok q e l where g: "gettoken b k = (tok, q, e, l)" by (metis prod_cases4)
  show ?case
  proof (cases r)
    case True
    then have "(k, True) = peek b i ''&''" using p by simp
    note l = back_less [OF this g [symmetric]]
    have "parseline_back (Backcmd c) b l = (c', j)" using "1.prems"(1) True by (subst (asm) parseline_back.simps) (simp add: p g)
    then have "l \<le> j \<and> j \<le> length b \<and> cmd_ok P c'" using "1.IH" [OF p [symmetric] refl True g [symmetric] refl refl refl] "1.prems"(2) l by simp
    then show ?thesis using l by simp
  next
    case False
    then show ?thesis using "1.prems" peek_moves(1,2) [OF p] by (subst (asm) parseline_back.simps) (simp add: p)
  qed
qed

lemma token_after_peek:
  assumes "peek b i toks = (k, True)" "gettoken b k = (tok, q, e, l)" "i \<le> length b"
  shows "i < l" "l \<le> length b"
  using back_less [OF assms(1) [symmetric] assms(2) [symmetric]] by auto

text \<open>The fuel: four calls for each character that is left.\<close>

lemma parse_total:
  assumes "i \<le> length b"
  shows "4 * (length b - i) + 4 \<le> n \<Longrightarrow> parses b i (parseline n b i)"
    "4 * (length b - i) + 3 \<le> n \<Longrightarrow> parses b i (parsepipe n b i)"
    "4 * (length b - i) + 1 \<le> n \<Longrightarrow> parses b i (parseblock n b i)"
    "4 * (length b - i) + 2 \<le> n \<Longrightarrow> parses b i (parseexec n b i)"
  using assms
proof (induction n arbitrary: i)
  case (Suc n)
  note IH = Suc.IH
  {
    case 1
    have "parses b i (parsepipe n b i)" using 1 by (intro IH(2)) auto
    then show ?case unfolding parseline.simps nodes
    proof (rule parses_bind)
      fix c j assume j: "i \<le> j" "j \<le> length b" "cmd_ok (is_word b) c"
      obtain c' k where bk: "parseline_back c b j = (c', k)" by force
      note k = parseline_back_ok [OF bk j(3,2)]
      obtain l r where p: "peek b k '';'' = (l, r)" by force
      obtain tok q e m where g: "gettoken b l = (tok, q, e, m)" by (metis prod_cases4)
      have "parses b i (pbind (parseline n b m) (\<lambda>(c'', ps). Parsed (Listcmd c' c'', ps)))" if r
      proof -
        have m: "k < m" "m \<le> length b" using token_after_peek [OF _ g] p that k by auto
        then have "parses b m (parseline n b m)" using 1 j(1) k by (intro IH(1)) auto
        then have "parses b m (pbind (parseline n b m) (\<lambda>(c'', ps). Parsed (Listcmd c' c'', ps)))"
          by (rule parses_bind) (use k in auto)
        then show ?thesis using m j(1) k by (auto elim: parses_trans)
      qed
      then show "parses b i (case (c, j) of (c, ps) \<Rightarrow> let (c, ps) = parseline_back c b ps; (ps, r) = peek b ps '';'' in
          if r then let (_, _, _, ps) = gettoken b ps in pbind (parseline n b ps) (\<lambda>(c', ps). Parsed (Listcmd c c', ps)) else Parsed (c, ps))"
        using peek_moves(1,2) [OF p] j(1) k by (simp add: bk p g)
    qed
  next
    case 2
    have "parses b i (parseexec n b i)" using 2 by (intro IH(4)) auto
    then show ?case unfolding parsepipe.simps nodes
    proof (rule parses_bind)
      fix c j assume j: "i \<le> j" "j \<le> length b" "cmd_ok (is_word b) c"
      obtain l r where p: "peek b j ''|'' = (l, r)" by force
      obtain tok q e m where g: "gettoken b l = (tok, q, e, m)" by (metis prod_cases4)
      have "parses b i (pbind (parsepipe n b m) (\<lambda>(c'', ps). Parsed (Pipecmd c c'', ps)))" if r
      proof -
        have m: "j < m" "m \<le> length b" using token_after_peek [OF _ g] p that j by auto
        then have "parses b m (parsepipe n b m)" using 2 j(1) by (intro IH(2)) auto
        then have "parses b m (pbind (parsepipe n b m) (\<lambda>(c'', ps). Parsed (Pipecmd c c'', ps)))"
          by (rule parses_bind) (use j in auto)
        then show ?thesis using m j(1) by (auto elim: parses_trans)
      qed
      then show "parses b i (case (c, j) of (c, ps) \<Rightarrow> let (ps, r) = peek b ps ''|'' in
          if r then let (_, _, _, ps) = gettoken b ps in pbind (parsepipe n b ps) (\<lambda>(c', ps). Parsed (Pipecmd c c', ps)) else Parsed (c, ps))"
        using peek_moves(1,2) [OF p] j by (simp add: p g)
    qed
  next
    case 3
    obtain l r where p: "peek b i ''('' = (l, r)" by force
    obtain tok q e m where g: "gettoken b l = (tok, q, e, m)" by (metis prod_cases4)
    have "parses b i (pbind (parseline n b m) (\<lambda>(c, ps). let (ps, r) = peek b ps '')'' in
         if \<not> r then Panics ''syntax - missing )'' else let (_, _, _, ps) = gettoken b ps in parseredirs c b ps))" if r
    proof -
      have m: "i < m" "m \<le> length b" using token_after_peek [OF _ g] p that 3 by auto
      then have "parses b m (parseline n b m)" using 3 by (intro IH(1)) auto
      then have "parses b m (pbind (parseline n b m) (\<lambda>(c, ps). let (ps, r) = peek b ps '')'' in
         if \<not> r then Panics ''syntax - missing )'' else let (_, _, _, ps) = gettoken b ps in parseredirs c b ps))"
      proof (rule parses_bind)
        fix c j assume j: "m \<le> j" "j \<le> length b" "cmd_ok (is_word b) c"
        obtain k r where p: "peek b j '')'' = (k, r)" by force
        obtain tok q e o' where g: "gettoken b k = (tok, q, e, o')" by (metis prod_cases4)
        have "parses b m (parseredirs c b o')" if r
          using token_after_peek [OF _ g j(2), of "'')''"] p that j(1) parses_trans [OF parseredirs_parses(1) [OF j(3)], of o' m] by auto
        then show "parses b m (case (c, j) of (c, ps) \<Rightarrow> let (ps, r) = peek b ps '')'' in
          if \<not> r then Panics ''syntax - missing )'' else let (_, _, _, ps) = gettoken b ps in parseredirs c b ps)"
          by (simp add: p g)
      qed
      then show ?thesis using m by (auto elim: parses_trans)
    qed
    then show ?case by (simp add: p g)
  next
    case 4
    obtain l r where p: "peek b i ''('' = (l, r)" by force
    note l = peek_moves(1,2) [OF p]
    show ?case
    proof (cases r)
      case True
      have "4 * (length b - l) + 1 \<le> n" "l \<le> length b" using 4 l by auto
      from IH(3) [OF this] show ?thesis using True l(1) by (simp add: p parses_trans)
    next
      case False
      have e: "parses b l (parseredirs (Execcmd []) b l)" using l 4 by (intro parseredirs_parses(1)) (auto simp: MAXARGS_def)
      have "parses b l (pbind (parseredirs (Execcmd []) b l) (\<lambda>(c, ps). parseexec_loop 0 c b ps))"
      proof (rule parses_bind [OF e], simp)
        fix c j assume c: "parseredirs (Execcmd []) b l = Parsed (c, j)" "l \<le> j" "j \<le> length b" "cmd_ok (is_word b) c"
        from parseredirs_parses(2) [OF c(1)] have "parses b j (parseexec_loop 0 c b j)" using c by (intro parseexec_loop_parses) auto
        then show "parses b l (parseexec_loop 0 c b j)" using c(2) by (rule parses_trans)
      qed
      then show ?thesis using False l(1) by (simp add: p parses_trans)
    qed
  }
qed auto

subsection \<open>The words as C strings\<close>

definition cstr :: "string \<Rightarrow> nat \<Rightarrow> string" where
  "cstr m q = takeWhile (\<lambda>c. c \<noteq> CHR 0x00) (drop q m)"

definition word_of :: "string \<Rightarrow> word_at \<Rightarrow> string" where
  "word_of b w = take (snd w - fst w) (drop (fst w) b)"

abbreviation ends :: "word_at cmd \<Rightarrow> nat set" where
  "ends c \<equiv> snd ` set_cmd c"

lemma nth_update: "k < length xs \<Longrightarrow> xs[i := v] ! k = (if i = k then v else xs ! k)"
  by (cases "i < length xs") (simp_all add: nth_list_update list_update_beyond)

lemma fold_nul: "length (fold (\<lambda>(q, eq) m. m[eq := CHR 0x00]) ws m) = length m"
  "k < length m \<Longrightarrow> fold (\<lambda>(q, eq) m. m[eq := CHR 0x00]) ws m ! k = (if k \<in> snd ` set ws then CHR 0x00 else m ! k)"
  by (induction ws arbitrary: m) (simp_all add: case_prod_beta nth_update)

lemma length_nulterminate [simp]: "length (nulterminate c m) = length m"
  by (induction c arbitrary: m) (simp_all add: fold_nul)

lemma nulterminate_nth:
  "k < length m \<Longrightarrow> nulterminate c m ! k = (if k \<in> ends c then CHR 0x00 else m ! k)"
  by (induction c arbitrary: m) (simp_all add: fold_nul nth_update image_Un)

lemma cmd_ok_iff_words: "cmd_ok P c \<Longrightarrow> w \<in> set_cmd c \<Longrightarrow> P w"
  by (induction c) auto

lemma takeWhile_prefix: "\<forall>k < n. P (xs ! k) \<Longrightarrow> n < length xs \<Longrightarrow> \<not> P (xs ! n) \<Longrightarrow> takeWhile P xs = take n xs"
proof (induction n arbitrary: xs)
  case (Suc n)
  then obtain x ys where "xs = x # ys" by (cases xs) auto
  then show ?case using Suc.prems Suc.IH [of ys] by fastforce
next
  case 0
  then show ?case by (cases xs) auto
qed

lemma nulterminate_words:
  assumes c: "cmd_ok (is_word b) c" and b: "CHR 0x00 \<notin> set b" and w: "w \<in> set_cmd c"
  shows "cstr (nulterminate c (b @ [CHR 0x00])) (fst w) = word_of b w"
proof -
  let ?m = "nulterminate c (b @ [CHR 0x00])"
  note n = nulterminate_nth [of _ "b @ [CHR 0x00]" c]
  note iw = cmd_ok_iff_words [OF c w, unfolded is_word_def]
  have inner: "?m ! k = b ! k \<and> b ! k \<noteq> CHR 0x00" if k: "fst w \<le> k" "k < snd w" for k
  proof -
    have "k \<notin> ends c"
    proof
      assume "k \<in> ends c"
      then obtain v where "v \<in> set_cmd c" "k = snd v" by auto
      then show False using cmd_ok_iff_words [OF c, of v] iw k by (auto simp: is_word_def)
    qed
    moreover have "k < length b" using k iw by simp
    moreover from this have "b ! k \<noteq> CHR 0x00" using b nth_mem by metis
    ultimately show ?thesis using n [of k] by (simp add: nth_append)
  qed
  have "takeWhile (\<lambda>c. c \<noteq> CHR 0x00) (drop (fst w) ?m) = take (snd w - fst w) (drop (fst w) ?m)"
    using inner n iw w by (intro takeWhile_prefix) auto
  also have "\<dots> = take (snd w - fst w) (drop (fst w) b)"
    using inner n iw by (intro nth_equalityI) auto
  finally show ?thesis by (simp add: cstr_def word_of_def)
qed

subsection \<open>Printing and reading back\<close>

text \<open>A command as text: every token is followed by a space. The number says where the command stands: 0 as a line, 1 left
  of \<open>;\<close>, 2 right of \<open>|\<close>, 3 left of \<open>|\<close> or under a redirection; what does not fit there is put in parentheses.\<close>

definition paren :: "bool \<Rightarrow> string \<Rightarrow> string" where
  "paren p s = (if p then ''( '' @ s @ '') '' else s)"

primrec show_cmd :: "nat \<Rightarrow> string cmd \<Rightarrow> string" where
  "show_cmd k (Execcmd ws) = concat (map (\<lambda>w. w @ '' '') ws)"
| "show_cmd k (Redircmd c f m d) = show_cmd 3 c @ (if d = 0 then ''< '' else ''> '') @ f @ '' ''"
| "show_cmd k (Pipecmd l r) = paren (2 < k) (show_cmd 3 l @ ''| '' @ show_cmd 2 r)"
| "show_cmd k (Listcmd l r) = paren (0 < k) (show_cmd 1 l @ ''; '' @ show_cmd 0 r)"
| "show_cmd k (Backcmd c) = paren (1 < k) (show_cmd 1 c @ ''& '')"

definition good_word :: "string \<Rightarrow> bool" where
  "good_word w \<longleftrightarrow> w \<noteq> [] \<and> CHR 0x00 \<notin> set w \<and> (\<forall>c \<in> set w. word_char c)"

text \<open>What may follow: nothing, or a character with this property.\<close>

fun begins :: "(char \<Rightarrow> bool) \<Rightarrow> string \<Rightarrow> bool" where
  "begins P [] \<longleftrightarrow> True"
| "begins P (c # r) \<longleftrightarrow> P c"

abbreviation nonwhite :: "string \<Rightarrow> bool" where
  "nonwhite \<equiv> begins (\<lambda>c. c \<notin> set whitespace)"

abbreviation follow :: "string \<Rightarrow> string \<Rightarrow> bool" where
  "follow cs \<equiv> begins (\<lambda>c. c \<in> set cs)"

abbreviation no_redir :: "string \<Rightarrow> bool" where
  "no_redir \<equiv> begins (\<lambda>c. c \<notin> set whitespace \<and> c \<notin> set ''<>'')"

lemma begins_mono: "begins P r \<Longrightarrow> (\<And>c. P c \<Longrightarrow> Q c) \<Longrightarrow> begins Q r"
  by (cases r) auto

lemma at_append [simp]: "at (p @ r) (length p) = at r 0" "at (p @ r) (length p + k) = at r k"
  by (simp_all add: at_def nth_append)

lemma at_Nil [simp]: "at [] k = CHR 0x00" and at_Cons [simp]: "at (c # r) 0 = c" "at (c # r) (Suc k) = at r k"
  by (simp_all add: at_def)

lemma skip_white_end [simp]: "skip_white p (length p) = length p" "at p (length p) = CHR 0x00"
  by (subst skip_white.simps) (simp_all add: at_def)

lemma skip_white_here: "nonwhite r \<Longrightarrow> skip_white (p @ r) (length p) = length p"
  by (cases r) (simp_all, subst skip_white.simps, simp add: strchr_word)

lemma space_white [simp]: "CHR '' '' \<in> set whitespace" by (simp add: whitespace_def)

lemma skip_space: "nonwhite r \<Longrightarrow> skip_white (p @ CHR '' '' # r) (length p) = Suc (length p)"
  using skip_white_here [of r "p @ [CHR '' '']"] strchr_white [of "CHR '' ''"] by (subst skip_white.simps) auto

lemma skip_word_here: "\<forall>c \<in> set w. word_char c \<Longrightarrow> skip_word (p @ w @ CHR '' '' # r) (length p) = length p + length w"
proof (induction w arbitrary: p)
  case Nil
  then show ?case by (subst skip_word.simps) (simp add: strchr_word)
next
  case (Cons c w)
  then show ?case using Cons.IH [of "p @ [c]"] by (subst skip_word.simps) (simp add: strchr_word)
qed

lemma gettoken_word_here:
  assumes "good_word w" "nonwhite r"
  shows "gettoken (p @ w @ CHR '' '' # r) (length p) = (CHR ''a'', length p, length p + length w, Suc (length p + length w))"
proof -
  obtain c v where w: "w = c # v" using assms(1) by (cases w) (auto simp: good_word_def)
  have c: "c \<noteq> CHR 0x00" "c \<notin> set whitespace" "c \<notin> set symbols" using assms(1) w by (auto simp: good_word_def)
  have s: "skip_white (p @ w @ CHR '' '' # r) (length p) = length p" using c w by (intro skip_white_here) simp
  have "c \<notin> set ''|();&<''" "c \<noteq> CHR ''>''" using c(3) by (auto simp: symbols_def)
  moreover have "skip_white ((p @ w) @ CHR '' '' # r) (length (p @ w)) = Suc (length (p @ w))" by (rule skip_space [OF assms(2)])
  moreover have "skip_word (p @ w @ CHR '' '' # r) (length p) = length p + length w"
    using assms(1) by (intro skip_word_here) (simp add: good_word_def)
  moreover have "at (p @ w @ CHR '' '' # r) (length p) = c" using w by simp
  ultimately show ?thesis using c(1) unfolding gettoken_def Let_def s by simp
qed

lemma sym_char: "c \<in> set ''|();&<>'' \<Longrightarrow> c \<noteq> CHR 0x00 \<and> c \<notin> set whitespace"
  by (auto simp: whitespace_def)

lemma gettoken_sym_here:
  assumes "c \<in> set ''|();&<>''" "nonwhite r"
  shows "gettoken (p @ c # CHR '' '' # r) (length p) = (c, length p, Suc (length p), Suc (Suc (length p)))"
proof -
  have s: "skip_white (p @ c # CHR '' '' # r) (length p) = length p" using sym_char [OF assms(1)] by (intro skip_white_here) simp
  have "skip_white ((p @ [c]) @ CHR '' '' # r) (length (p @ [c])) = Suc (length (p @ [c]))" by (rule skip_space [OF assms(2)])
  moreover have "at (p @ c # CHR '' '' # r) (Suc (length p)) = CHR '' ''" using at_append(2) [of p "c # CHR '' '' # r" 1] by simp
  ultimately show ?thesis using assms(1) sym_char [OF assms(1)] unfolding gettoken_def Let_def s by auto
qed

lemma peek_here:
  "nonwhite r \<Longrightarrow> peek (p @ r) (length p) toks = (length p, r \<noteq> [] \<and> hd r \<noteq> CHR 0x00 \<and> strchr toks (hd r) \<noteq> None)"
  by (cases r) (auto simp: peek_def Let_def skip_white_here)

lemma no_redir_nonwhite: "no_redir r \<Longrightarrow> nonwhite r"
  by (erule begins_mono) simp

lemma sym_nonwhite: "c \<in> set ''|();&<>'' \<Longrightarrow> nonwhite (c # r)"
  using sym_char [of c] by simp

lemma follow_no_redir: "follow ''|)&;'' r \<Longrightarrow> no_redir r"
  by (erule begins_mono) (use sym_char in auto)

type_synonym redir = "string \<times> uint \<times> nat"

definition show_redirs :: "redir list \<Rightarrow> string" where
  "show_redirs rs = concat (map (\<lambda>(f, m, d). (if d = 0 then ''< '' else ''> '') @ f @ '' '') rs)"

definition wrap :: "'w cmd \<Rightarrow> ('w \<times> uint \<times> nat) list \<Rightarrow> 'w cmd" where
  "wrap c rs = foldl (\<lambda>c (f, m, d). Redircmd c f m d) c rs"

definition redirs_ok :: "redir list \<Rightarrow> bool" where
  "redirs_ok rs \<longleftrightarrow> (\<forall>(f, m, d) \<in> set rs. good_word f \<and> (m, d) \<in> redir_modes)"

abbreviation read_cmd :: "string \<Rightarrow> word_at cmd \<Rightarrow> string cmd" where
  "read_cmd b \<equiv> map_cmd (word_of b)"

lemma good_word_hd: "good_word w \<Longrightarrow> w \<noteq> [] \<and> hd w \<noteq> CHR 0x00 \<and> word_char (hd w)"
  by (cases w) (auto simp: good_word_def)

lemma word_nonwhite: "good_word w \<Longrightarrow> nonwhite (w @ r)"
  using good_word_hd [of w] by (cases w) auto

lemma word_of_here [simp]: "word_of (p @ w @ r) (length p, length p + length w) = w"
  by (simp add: word_of_def)

lemma show_redirs_simps [simp]: "show_redirs [] = []"
  "show_redirs ((f, m, d) # rs) = (if d = 0 then CHR ''<'' else CHR ''>'') # CHR '' '' # f @ CHR '' '' # show_redirs rs"
  by (simp_all add: show_redirs_def)

lemma redirs_nonwhite: "nonwhite r \<Longrightarrow> nonwhite (show_redirs rs @ r)"
  using sym_char [of "CHR ''<''"] sym_char [of "CHR ''>''"] by (cases rs) auto

lemma redirs_none:
  assumes "no_redir r"
  shows "parseredirs c (p @ r) (length p) = Parsed (c, length p)"
proof -
  have "strchr ''<>'' (hd r) = None" if "r \<noteq> []" using assms that by (cases r) (auto simp: strchr_None)
  then have "peek (p @ r) (length p) ''<>'' = (length p, False)" using peek_here [OF no_redir_nonwhite [OF assms], of p "''<>''"] by auto
  then show ?thesis by (subst parseredirs.simps) simp
qed

lemma redirs_here:
  assumes "redirs_ok rs" "no_redir r" "b = p @ show_redirs rs @ r"
  shows "\<exists>c'. parseredirs c b (length p) = Parsed (c', length p + length (show_redirs rs)) \<and> read_cmd b c' = wrap (read_cmd b c) rs"
  using assms
proof (induction rs arbitrary: p c)
  case Nil
  then show ?case using redirs_none by (simp add: wrap_def)
next
  case (Cons x rs)
  obtain f m d where x: "x = (f, m, d)" by (metis prod_cases3)
  let ?o = "if d = 0 then CHR ''<'' else CHR ''>''" and ?r = "show_redirs rs @ r"
  have f: "good_word f" "(m, d) \<in> redir_modes" "redirs_ok rs" using Cons.prems(1) x by (auto simp: redirs_ok_def)
  have b: "b = p @ ?o # CHR '' '' # f @ CHR '' '' # ?r" using Cons.prems(3) x by simp
  have nw: "nonwhite ?r" using Cons.prems(2) by (intro redirs_nonwhite no_redir_nonwhite)
  have "strchr ''<>'' ?o \<noteq> None" by (simp add: strchr_None)
  then have pk: "peek b (length p) ''<>'' = (length p, True)" using peek_here [of "?o # CHR '' '' # f @ CHR '' '' # ?r" p "''<>''"] sym_char [of ?o] b by simp
  have g: "gettoken b (length p) = (?o, length p, Suc (length p), Suc (Suc (length p)))"
    unfolding b using word_nonwhite [OF f(1)] by (intro gettoken_sym_here) auto
  let ?q = "p @ [?o, CHR '' '']"
  have g': "gettoken b (Suc (Suc (length p))) = (CHR ''a'', length ?q, length ?q + length f, Suc (length ?q + length f))"
    using gettoken_word_here [OF f(1) nw, of ?q] b by simp
  have w: "word_of b (length ?q, length ?q + length f) = f" using word_of_here [of ?q f] b by simp
  let ?c = "Redircmd c (length ?q, length ?q + length f) m d"
  have "parseredirs c b (length p) = parseredirs ?c b (length (?q @ f @ '' ''))"
    using f(2) by (subst parseredirs.simps) (auto simp: pk g g' redir_modes_def)
  moreover have "\<exists>c'. parseredirs ?c b (length (?q @ f @ '' '')) = Parsed (c', length (?q @ f @ '' '') + length (show_redirs rs)) \<and>
      read_cmd b c' = wrap (read_cmd b ?c) rs"
    using b by (intro Cons.IH [OF f(3) Cons.prems(2)]) simp
  ultimately show ?case using w by (auto simp: x wrap_def)
qed

lemma loop_end:
  assumes "follow ''|)&;'' r"
  shows "parseexec_loop n c (p @ r) (length p) = Parsed (c, length p)"
proof (cases r)
  case Nil
  then show ?thesis by (subst parseexec_loop.simps) (simp add: peek_def gettoken_def Let_def)
next
  case (Cons a as)
  then have a: "a \<in> set ''|)&;''" using assms by simp
  then have "a \<in> set ''|();&<>''" "strchr ''|)&;'' a \<noteq> None" by (auto simp: strchr_None)
  then have "peek (p @ r) (length p) ''|)&;'' = (length p, True)"
    using peek_here [OF no_redir_nonwhite [OF follow_no_redir [OF assms]], of p "''|)&;''"] sym_char [of a] Cons by auto
  then show ?thesis by (subst parseexec_loop.simps) simp
qed

lemma exec_loop_here:
  assumes "\<forall>w \<in> set ws. good_word w" "redirs_ok rs" "ws = [] \<longrightarrow> rs = []" "follow ''|)&;'' r" "n + length ws < MAXARGS"
    "b = p @ show_cmd 3 (Execcmd ws) @ show_redirs rs @ r"
  shows "\<exists>c'. parseexec_loop n (Execcmd us) b (length p) = Parsed (c', length p + length (show_cmd 3 (Execcmd ws)) + length (show_redirs rs)) \<and>
    read_cmd b c' = wrap (Execcmd (map (word_of b) us @ ws)) rs"
  using assms
proof (induction ws arbitrary: p us n)
  case Nil
  then show ?case using loop_end [OF Nil.prems(4)] by (simp add: show_redirs_def wrap_def)
next
  case (Cons w ws)
  let ?r = "show_cmd 3 (Execcmd ws) @ show_redirs rs @ r"
  have w: "good_word w" "w \<noteq> []" "hd w \<noteq> CHR 0x00" "word_char (hd w)" using Cons.prems(1) good_word_hd by auto
  have b: "b = p @ w @ CHR '' '' # ?r" using Cons.prems(6) by simp
  have fw: "no_redir r" by (rule follow_no_redir [OF Cons.prems(4)])
  have nw: "nonwhite ?r"
  proof (cases ws)
    case Nil
    then show ?thesis using redirs_nonwhite [OF no_redir_nonwhite [OF fw]] by simp
  next
    case v: (Cons v vs)
    then have "good_word v" using Cons.prems(1) by simp
    then show ?thesis using v word_nonwhite [of v] by simp
  qed
  have "hd w \<notin> set ''|)&;''" using w(4) by (auto simp: symbols_def)
  then have pk: "peek b (length p) ''|)&;'' = (length p, False)"
    using peek_here [OF word_nonwhite [OF w(1)], of p "CHR '' '' # ?r" "''|)&;''"] w b by (simp add: strchr_None)
  have g: "gettoken b (length p) = (CHR ''a'', length p, length p + length w, Suc (length p + length w))"
    unfolding b by (rule gettoken_word_here [OF w(1) nw])
  let ?q = "p @ w @ '' ''" and ?u = "us @ [(length p, length p + length w)]"
  have wo: "word_of b (length p, length p + length w) = w" unfolding b by (rule word_of_here)
  have st: "parseexec_loop n (Execcmd us) b (length p) =
     pbind (parseredirs (Execcmd ?u) b (length ?q)) (\<lambda>(c, ps). parseexec_loop (Suc n) c b ps)"
    using Cons.prems(5) by (subst parseexec_loop.simps) (simp add: pk g)
  show ?case
  proof (cases ws)
    case Nil
    then have bq: "b = ?q @ show_redirs rs @ r" using b by simp
    from redirs_here [OF Cons.prems(2) fw this, of "Execcmd ?u"] obtain c' where
      c': "parseredirs (Execcmd ?u) b (length ?q) = Parsed (c', length (?q @ show_redirs rs))" "read_cmd b c' = wrap (read_cmd b (Execcmd ?u)) rs" by auto
    have "parseexec_loop (Suc n) c' b (length (?q @ show_redirs rs)) = Parsed (c', length (?q @ show_redirs rs))"
      using loop_end [OF Cons.prems(4), of "Suc n" c' "?q @ show_redirs rs"] bq by simp
    then show ?thesis using c' st Nil wo by simp
  next
    case v: (Cons v vs)
    then have "good_word v" using Cons.prems(1) by simp
    then have "no_redir ?r" using v good_word_hd [of v] by (cases v) (auto simp: symbols_def)
    from redirs_none [OF this, of "Execcmd ?u" ?q]
    have "parseexec_loop n (Execcmd us) b (length p) = parseexec_loop (Suc n) (Execcmd ?u) b (length ?q)" using st b by simp
    moreover have "\<exists>c'. parseexec_loop (Suc n) (Execcmd ?u) b (length ?q) = Parsed (c', length ?q + length (show_cmd 3 (Execcmd ws)) + length (show_redirs rs)) \<and>
        read_cmd b c' = wrap (Execcmd (map (word_of b) ?u @ ws)) rs"
      using Cons.prems(1,2,4,5) b v by (intro Cons.IH) auto
    ultimately show ?thesis using wo by (simp add: add.assoc)
  qed
qed

text \<open>A command printed for one of the four positions is read back by the parsing function of that position.\<close>

definition reads_exec :: "string cmd \<Rightarrow> bool" where
  "reads_exec c \<longleftrightarrow> (\<forall>p rs r n b. redirs_ok rs \<longrightarrow> follow ''|)&;'' r \<longrightarrow> b = p @ show_cmd 3 c @ show_redirs rs @ r \<longrightarrow>
     4 * (length b - length p) + 2 \<le> n \<longrightarrow>
     (\<exists>c'. parseexec n b (length p) = Parsed (c', length p + length (show_cmd 3 c) + length (show_redirs rs)) \<and> read_cmd b c' = wrap c rs))"

definition reads_pipe :: "string cmd \<Rightarrow> bool" where
  "reads_pipe c \<longleftrightarrow> (\<forall>p r n b. follow '')&;'' r \<longrightarrow> b = p @ show_cmd 2 c @ r \<longrightarrow> 4 * (length b - length p) + 3 \<le> n \<longrightarrow>
     (\<exists>c'. parsepipe n b (length p) = Parsed (c', length p + length (show_cmd 2 c)) \<and> read_cmd b c' = c))"

definition reads_back :: "string cmd \<Rightarrow> bool" where
  "reads_back c \<longleftrightarrow> (\<forall>p r n b. follow '')&;'' r \<longrightarrow> b = p @ show_cmd 1 c @ r \<longrightarrow> 4 * (length b - length p) + 3 \<le> n \<longrightarrow>
     (\<exists>x j c'. parsepipe n b (length p) = Parsed (x, j) \<and> parseline_back x b j = parseline_back c' b (length p + length (show_cmd 1 c)) \<and> read_cmd b c' = c))"

definition reads_line :: "string cmd \<Rightarrow> bool" where
  "reads_line c \<longleftrightarrow> (\<forall>p r n b. follow '')'' r \<longrightarrow> b = p @ show_cmd 0 c @ r \<longrightarrow> 4 * (length b - length p) + 4 \<le> n \<longrightarrow>
     (\<exists>c'. parseline n b (length p) = Parsed (c', length p + length (show_cmd 0 c)) \<and> read_cmd b c' = c))"

lemma follow_nonwhite: "follow cs r \<Longrightarrow> set cs \<subseteq> set ''|();&<>'' \<Longrightarrow> nonwhite r"
  by (erule begins_mono) (use sym_char in blast)

lemma follow_peek:
  assumes "follow cs r" "set cs \<subseteq> set ''|();&<>''" "CHR 0x00 \<notin> set toks"
  shows "peek (p @ r) (length p) toks = (length p, r \<noteq> [] \<and> hd r \<in> set toks)"
proof -
  have h: "follow ''|();&<>'' r" using assms(1,2) by (auto elim: begins_mono)
  have "nonwhite r" by (rule follow_nonwhite [OF assms(1,2)])
  moreover have "r \<noteq> [] \<Longrightarrow> hd r \<noteq> CHR 0x00" using h sym_char by (cases r) auto
  moreover have tw: "takeWhile (\<lambda>d. d \<noteq> CHR 0x00) toks = toks" using assms(3) by (induction toks) auto
  moreover have "strchr toks c \<noteq> None \<longleftrightarrow> c \<in> set toks" for c unfolding strchr_None tw by simp
  ultimately show ?thesis using peek_here [of r p toks] by (cases "r = []") auto
qed

lemma reads_pipe_exec:
  assumes "reads_exec c" "show_cmd 2 c = show_cmd 3 c"
  shows "reads_pipe c"
  unfolding reads_pipe_def
proof (intro allI impI)
  fix p r n b assume r: "follow '')&;'' r" and b: "b = p @ show_cmd 2 c @ r" and n: "4 * (length b - length p) + 3 \<le> n"
  obtain n' where n': "n = Suc n'" "4 * (length b - length p) + 2 \<le> n'" using n by (cases n) auto
  have "follow ''|)&;'' r" using r by (cases r) auto
  then obtain c' where c': "parseexec n' b (length p) = Parsed (c', length (p @ show_cmd 2 c))" "read_cmd b c' = c"
    using assms(1) [unfolded reads_exec_def, rule_format, of "[]" r b p n'] assms(2) n'(2) b by (auto simp: redirs_ok_def wrap_def)
  have "peek b (length (p @ show_cmd 2 c)) ''|'' = (length (p @ show_cmd 2 c), False)"
    using follow_peek [OF r, of "''|''" "p @ show_cmd 2 c"] r b by (cases r) auto
  then show "\<exists>c'. parsepipe n b (length p) = Parsed (c', length p + length (show_cmd 2 c)) \<and> read_cmd b c' = c" using c' n'(1) by simp
qed

lemma reads_back_pipe: "reads_pipe c \<Longrightarrow> show_cmd 1 c = show_cmd 2 c \<Longrightarrow> reads_back c"
  unfolding reads_back_def reads_pipe_def by metis

lemma reads_line_back:
  assumes "reads_back c" "show_cmd 0 c = show_cmd 1 c"
  shows "reads_line c"
  unfolding reads_line_def
proof (intro allI impI)
  fix p r n b assume r: "follow '')'' r" and b: "b = p @ show_cmd 0 c @ r" and n: "4 * (length b - length p) + 4 \<le> n"
  obtain n' where n': "n = Suc n'" "4 * (length b - length p) + 3 \<le> n'" using n by (cases n) auto
  have "follow '')&;'' r" using r by (cases r) auto
  then obtain x j c' where c': "parsepipe n' b (length p) = Parsed (x, j)" "parseline_back x b j = parseline_back c' b (length (p @ show_cmd 0 c))" "read_cmd b c' = c"
    using assms(1) [unfolded reads_back_def, rule_format, of r b p n'] assms(2) n'(2) b by auto
  have k: "peek b (length (p @ show_cmd 0 c)) ''&'' = (length (p @ show_cmd 0 c), False)" "peek b (length (p @ show_cmd 0 c)) '';'' = (length (p @ show_cmd 0 c), False)"
    using follow_peek [OF r, of "''&''" "p @ show_cmd 0 c"] follow_peek [OF r, of "'';''" "p @ show_cmd 0 c"] r b by (cases r; auto)+
  have "parseline_back c' b (length (p @ show_cmd 0 c)) = (c', length (p @ show_cmd 0 c))"
    unfolding parseline_back.simps [of c' b "length (p @ show_cmd 0 c)"] k by simp
  then show "\<exists>c'. parseline n b (length p) = Parsed (c', length p + length (show_cmd 0 c)) \<and> read_cmd b c' = c"
    using c' n'(1) k(2) by (simp add: Let_def)
qed

lemma show_nonwhite: "cmd_ok good_word c \<Longrightarrow> nonwhite r \<Longrightarrow> nonwhite (show_cmd k c @ r)"
proof (induction c arbitrary: k r)
  case (Execcmd ws)
  then show ?case by (cases ws) (auto simp: word_nonwhite)
qed (auto simp: paren_def sym_nonwhite simp del: begins.simps)

text \<open>A symbol of the printed text, seen by \<^verbatim>\<open>peek\<close> and taken by \<^verbatim>\<open>gettoken\<close>.\<close>

lemma sym_here:
  assumes "c \<in> set ''|();&''" "nonwhite r" "b = p @ c # CHR '' '' # r"
  shows "peek b (length p) [c] = (length p, True)" "gettoken b (length p) = (c, length p, Suc (length p), Suc (Suc (length p)))"
proof -
  have c: "c \<in> set ''|();&<>''" using assms(1) by auto
  then have "follow ''|();&<>'' (c # CHR '' '' # r)" by simp
  from follow_peek [OF this, of "[c]" p] show "peek b (length p) [c] = (length p, True)" using assms(3) sym_char [OF c] by auto
  show "gettoken b (length p) = (c, length p, Suc (length p), Suc (Suc (length p)))" unfolding assms(3) by (rule gettoken_sym_here [OF c assms(2)])
qed

lemma reads_exec_block:
  assumes "reads_line c" "show_cmd 3 c = ''( '' @ show_cmd 0 c @ '') ''" "cmd_ok good_word c"
  shows "reads_exec c"
  unfolding reads_exec_def
proof (intro allI impI)
  fix p rs r n b assume rs: "redirs_ok rs" and r: "follow ''|)&;'' r" and b: "b = p @ show_cmd 3 c @ show_redirs rs @ r"
    and n: "4 * (length b - length p) + 2 \<le> n"
  let ?r = "show_redirs rs @ r" and ?q = "p @ ''( ''"
  have fr: "no_redir r" by (rule follow_no_redir [OF r])
  obtain n' where n': "n = Suc (Suc n')" "4 * (length b - length ?q) + 4 \<le> n'"
    using n b assms(2) by (cases n; cases "n - 1") auto
  have b1: "b = p @ CHR ''('' # CHR '' '' # show_cmd 0 c @ '') '' @ ?r" using b assms(2) by simp
  have "nonwhite (show_cmd 0 c @ '') '' @ ?r)" using show_nonwhite [OF assms(3)] sym_nonwhite [of "CHR '')''"] by simp
  note o = sym_here [OF _ this b1]
  have "follow '')'' ('') '' @ ?r)" by simp
  then obtain c' where c': "parseline n' b (length ?q) = Parsed (c', length (?q @ show_cmd 0 c))" "read_cmd b c' = c"
    using assms(1) [unfolded reads_line_def, rule_format, of "'') '' @ ?r" b ?q n'] n'(2) b1 by auto
  have b2: "b = (?q @ show_cmd 0 c) @ CHR '')'' # CHR '' '' # ?r" using b1 by simp
  have "nonwhite ?r" by (rule redirs_nonwhite [OF no_redir_nonwhite [OF fr]])
  note cl = sym_here [OF _ this b2]
  have "\<exists>c''. parseredirs c' b (length (?q @ show_cmd 0 c @ '') '')) = Parsed (c'', length (?q @ show_cmd 0 c @ '') '') + length (show_redirs rs)) \<and> read_cmd b c'' = wrap c rs"
    using redirs_here [OF rs fr, of b "?q @ show_cmd 0 c @ '') ''" c'] b1 c'(2) by simp
  then show "\<exists>c'. parseexec n b (length p) = Parsed (c', length p + length (show_cmd 3 c) + length (show_redirs rs)) \<and> read_cmd b c' = wrap c rs"
    using c'(1) o cl n'(1) assms(2) by (simp add: add.assoc)
qed

lemma reads_exec_Exec:
  assumes "cmd_ok good_word (Execcmd ws)"
  shows "reads_exec (Execcmd ws)"
  unfolding reads_exec_def
proof (intro allI impI)
  fix p rs r n b assume rs: "redirs_ok rs" and r: "follow ''|)&;'' r" and b: "b = p @ show_cmd 3 (Execcmd ws) @ show_redirs rs @ r"
    and n: "4 * (length b - length p) + 2 \<le> n"
  obtain n' where n': "n = Suc n'" using n by (cases n) auto
  let ?u = "show_cmd 3 (Execcmd ws) @ show_redirs rs @ r"
  have fr: "no_redir r" by (rule follow_no_redir [OF r])
  have u: "begins (\<lambda>c. c \<notin> set whitespace \<and> c \<noteq> CHR ''('') ?u"
  proof (cases ws)
    case Nil
    then show ?thesis using redirs_nonwhite [OF no_redir_nonwhite [OF fr], of rs] r by (cases rs; cases r) auto
  next
    case (Cons w vs)
    then show ?thesis using good_word_hd [of w] assms by (cases w) (auto simp: symbols_def)
  qed
  then have "nonwhite ?u" by (rule begins_mono) simp
  from peek_here [OF this, of p "''(''"] have pk: "peek b (length p) ''('' = (length p, False)"
    using u b by (cases ?u) (auto simp: strchr_None)
  have "\<exists>c'. pbind (parseredirs (Execcmd []) b (length p)) (\<lambda>(c, ps). parseexec_loop 0 c b ps) =
      Parsed (c', length p + length (show_cmd 3 (Execcmd ws)) + length (show_redirs rs)) \<and> read_cmd b c' = wrap (Execcmd ws) rs"
  proof (cases ws)
    case Nil
    then have bq: "b = (p @ show_redirs rs) @ r" using b by simp
    obtain c' where "parseredirs (Execcmd []) b (length p) = Parsed (c', length (p @ show_redirs rs))" "read_cmd b c' = wrap (Execcmd []) rs"
      using redirs_here [OF rs fr, of b p "Execcmd []"] b Nil by auto
    then show ?thesis using loop_end [OF r, of 0 c' "p @ show_redirs rs"] bq Nil by simp
  next
    case (Cons w vs)
    then have "no_redir ?u" using good_word_hd [of w] assms by (cases w) (auto simp: symbols_def)
    from redirs_none [OF this, of "Execcmd []" p] show ?thesis
      using exec_loop_here [of ws rs r 0 b p "[]"] assms rs r b Cons by simp
  qed
  then show "\<exists>c'. parseexec n b (length p) = Parsed (c', length p + length (show_cmd 3 (Execcmd ws)) + length (show_redirs rs)) \<and> read_cmd b c' = wrap (Execcmd ws) rs"
    using pk n' by simp
qed

lemma reads_exec_Redir:
  assumes "reads_exec c" "good_word f" "(m, d) \<in> redir_modes"
  shows "reads_exec (Redircmd c f m d)"
  unfolding reads_exec_def
proof (intro allI impI)
  fix p rs r n b assume "redirs_ok rs" "follow ''|)&;'' r" "b = p @ show_cmd 3 (Redircmd c f m d) @ show_redirs rs @ r" "4 * (length b - length p) + 2 \<le> n"
  then show "\<exists>c'. parseexec n b (length p) = Parsed (c', length p + length (show_cmd 3 (Redircmd c f m d)) + length (show_redirs rs)) \<and> read_cmd b c' = wrap (Redircmd c f m d) rs"
    using assms(1) [unfolded reads_exec_def, rule_format, of "(f, m, d) # rs" r b p n] assms(2,3) by (auto simp: redirs_ok_def wrap_def)
qed

lemma reads_pipe_Pipe:
  assumes "reads_exec l" "reads_pipe c" "cmd_ok good_word c"
  shows "reads_pipe (Pipecmd l c)"
  unfolding reads_pipe_def
proof (intro allI impI)
  fix p r n b assume r: "follow '')&;'' r" and b: "b = p @ show_cmd 2 (Pipecmd l c) @ r" and n: "4 * (length b - length p) + 3 \<le> n"
  obtain n' where n': "n = Suc n'" "4 * (length b - length p) + 2 \<le> n'" using n by (cases n) auto
  let ?p = "p @ show_cmd 3 l" and ?r = "show_cmd 2 c @ r"
  have b1: "b = ?p @ CHR ''|'' # CHR '' '' # ?r" using b by (simp add: paren_def)
  then obtain l' where l': "parseexec n' b (length p) = Parsed (l', length ?p)" "read_cmd b l' = l"
    using assms(1) [unfolded reads_exec_def, rule_format, of "[]" "''| '' @ ?r" b p n'] n'(2) by (auto simp: redirs_ok_def wrap_def)
  have "nonwhite ?r" by (rule show_nonwhite [OF assms(3) follow_nonwhite [OF r]]) simp
  note o = sym_here [OF _ this b1]
  have "4 * (length b - length (?p @ ''| '')) + 3 \<le> n'" using n'(2) b1 by simp
  then obtain c' where "parsepipe n' b (length (?p @ ''| '')) = Parsed (c', length (?p @ ''| '') + length (show_cmd 2 c))" "read_cmd b c' = c"
    using assms(2) [unfolded reads_pipe_def, rule_format, OF r, of b "?p @ ''| ''" n'] b1 by auto
  then show "\<exists>c'. parsepipe n b (length p) = Parsed (c', length p + length (show_cmd 2 (Pipecmd l c))) \<and> read_cmd b c' = Pipecmd l c"
    using l' o n'(1) by (simp add: paren_def add.assoc)
qed

lemma reads_back_Back:
  assumes "reads_back c"
  shows "reads_back (Backcmd c)"
  unfolding reads_back_def
proof (intro allI impI)
  fix p r n b assume r: "follow '')&;'' r" and b: "b = p @ show_cmd 1 (Backcmd c) @ r" and n: "4 * (length b - length p) + 3 \<le> n"
  let ?p = "p @ show_cmd 1 c"
  have b1: "b = ?p @ CHR ''&'' # CHR '' '' # r" using b by (simp add: paren_def)
  then obtain x j c' where c': "parsepipe n b (length p) = Parsed (x, j)" "parseline_back x b j = parseline_back c' b (length ?p)" "read_cmd b c' = c"
    using assms [unfolded reads_back_def, rule_format, of "''& '' @ r" b p n] n by auto
  have "nonwhite r" by (rule follow_nonwhite [OF r]) simp
  note o = sym_here [OF _ this b1]
  have "parseline_back c' b (length ?p) = parseline_back (Backcmd c') b (length (?p @ ''& ''))"
    using o by (subst parseline_back.simps) simp
  then show "\<exists>x j c'. parsepipe n b (length p) = Parsed (x, j) \<and>
      parseline_back x b j = parseline_back c' b (length p + length (show_cmd 1 (Backcmd c))) \<and> read_cmd b c' = Backcmd c"
    using c' by (intro exI [of _ x] exI [of _ j] exI [of _ "Backcmd c'"]) (simp add: paren_def add.assoc)
qed

lemma reads_line_List:
  assumes "reads_back l" "reads_line c" "cmd_ok good_word c"
  shows "reads_line (Listcmd l c)"
  unfolding reads_line_def
proof (intro allI impI)
  fix p r n b assume r: "follow '')'' r" and b: "b = p @ show_cmd 0 (Listcmd l c) @ r" and n: "4 * (length b - length p) + 4 \<le> n"
  obtain n' where n': "n = Suc n'" "4 * (length b - length p) + 3 \<le> n'" using n by (cases n) auto
  let ?p = "p @ show_cmd 1 l" and ?r = "show_cmd 0 c @ r"
  have b1: "b = ?p @ CHR '';'' # CHR '' '' # ?r" using b by (simp add: paren_def)
  then obtain x j l' where l': "parsepipe n' b (length p) = Parsed (x, j)" "parseline_back x b j = parseline_back l' b (length ?p)" "read_cmd b l' = l"
    using assms(1) [unfolded reads_back_def, rule_format, of "''; '' @ ?r" b p n'] n'(2) by auto
  have "nonwhite ?r" by (rule show_nonwhite [OF assms(3) follow_nonwhite [OF r]]) simp
  note o = sym_here [OF _ this b1]
  have "follow '';'' (CHR '';'' # CHR '' '' # ?r)" by simp
  from follow_peek [OF this, of "''&''" ?p] have "parseline_back l' b (length ?p) = (l', length ?p)"
    using b1 by (subst parseline_back.simps) simp
  moreover have "4 * (length b - length (?p @ ''; '')) + 4 \<le> n'" using n'(2) b1 by simp
  then obtain c' where "parseline n' b (length (?p @ ''; '')) = Parsed (c', length (?p @ ''; '') + length (show_cmd 0 c))" "read_cmd b c' = c"
    using assms(2) [unfolded reads_line_def, rule_format, OF r, of b "?p @ ''; ''" n'] b1 by auto
  ultimately show "\<exists>c'. parseline n b (length p) = Parsed (c', length p + length (show_cmd 0 (Listcmd l c))) \<and> read_cmd b c' = Listcmd l c"
    using l' o n'(1) by (simp add: paren_def add.assoc Let_def)
qed

lemma reads_all: "cmd_ok good_word c \<Longrightarrow> reads_exec c \<and> reads_pipe c \<and> reads_back c \<and> reads_line c"
proof (induction c)
  case (Execcmd ws)
  then have "reads_exec (Execcmd ws)" by (rule reads_exec_Exec)
  then show ?case using reads_pipe_exec reads_back_pipe reads_line_back by (metis show_cmd.simps(1))
next
  case (Redircmd c f m d)
  then have "reads_exec (Redircmd c f m d)" by (intro reads_exec_Redir) auto
  then show ?case using reads_pipe_exec reads_back_pipe reads_line_back by (metis show_cmd.simps(2))
next
  case (Pipecmd l r)
  then have p: "reads_pipe (Pipecmd l r)" by (intro reads_pipe_Pipe) auto
  then have b: "reads_back (Pipecmd l r)" by (rule reads_back_pipe) (simp add: paren_def)
  then have "reads_line (Pipecmd l r)" by (rule reads_line_back) (simp add: paren_def)
  moreover from this have "reads_exec (Pipecmd l r)" by (rule reads_exec_block) (use Pipecmd in \<open>simp_all add: paren_def\<close>)
  ultimately show ?case using p b by blast
next
  case (Listcmd l r)
  then have s: "reads_line (Listcmd l r)" by (intro reads_line_List) auto
  then have e: "reads_exec (Listcmd l r)" by (rule reads_exec_block) (use Listcmd in \<open>simp_all add: paren_def\<close>)
  then have "reads_pipe (Listcmd l r)" by (rule reads_pipe_exec) (simp add: paren_def)
  moreover from this have "reads_back (Listcmd l r)" by (rule reads_back_pipe) (simp add: paren_def)
  ultimately show ?case using s e by blast
next
  case (Backcmd c)
  then have b: "reads_back (Backcmd c)" by (intro reads_back_Back) auto
  then have s: "reads_line (Backcmd c)" by (rule reads_line_back) (simp add: paren_def)
  then have e: "reads_exec (Backcmd c)" by (rule reads_exec_block) (use Backcmd in \<open>simp_all add: paren_def\<close>)
  then have "reads_pipe (Backcmd c)" by (rule reads_pipe_exec) (simp add: paren_def)
  then show ?case using b s e by blast
qed

lemma good_no_nul: "cmd_ok good_word c \<Longrightarrow> CHR 0x00 \<notin> set (show_cmd k c)"
  by (induction c arbitrary: k) (auto simp: paren_def good_word_def)



lemma parse_show:
  assumes "cmd_ok good_word c"
  shows "\<exists>c' m. parsecmd (show_cmd 0 c) = Parsed (c', m) \<and> map_cmd (\<lambda>w. cstr m (fst w)) c' = c"
proof -
  let ?b = "show_cmd 0 c"
  obtain c' where c': "parseline (4 * length ?b + 4) ?b 0 = Parsed (c', length ?b)" "read_cmd ?b c' = c"
    using reads_all [OF assms] unfolding reads_line_def by (elim conjE allE [of _ "[]"]) auto
  have "cmd_ok (is_word ?b) c'" using parse_total(1) [of 0 ?b "4 * length ?b + 4"] c'(1) by simp
  then have "map_cmd (\<lambda>w. cstr (nulterminate c' (?b @ [CHR 0x00])) (fst w)) c' = read_cmd ?b c'"
    using nulterminate_words good_no_nul [OF assms] by (intro cmd.map_cong) auto
  then show ?thesis using c' by (simp add: parsecmd_def peek_def)
qed

text \<open>C13. The parser inverts printing: every command tree whose words are non-empty, without white space, symbols and zero
  bytes, with fewer than MAXARGS words in each command, is what the parser returns for its text, with parentheses put where the
  grammar needs them. The words are read from the buffer as C strings, as \<open>runcmd\<close> reads them.\<close>

theorem shell_roundtrip:
  assumes "cmd_ok good_word c"
  shows "\<exists>c' m. parsecmd (show_cmd 0 c) = Parsed (c', m) \<and> map_cmd (\<lambda>w. cstr m (fst w)) c' = c"
  using assms by (rule parse_show)

theorem shell_roundtrip_witness:
  "show_cmd 0 (Listcmd (Backcmd (Pipecmd (Execcmd [''ls'', ''d'']) (Execcmd [''wc'']))) (Redircmd (Execcmd [''rm'']) ''f'' 0 0)) = ''ls d | wc & ; rm < f '' \<and>
   (\<exists>c' m. parsecmd ''ls d | wc & ; rm < f '' = Parsed (c', m) \<and> map_cmd (\<lambda>w. cstr m (fst w)) c' =
     Listcmd (Backcmd (Pipecmd (Execcmd [''ls'', ''d'']) (Execcmd [''wc'']))) (Redircmd (Execcmd [''rm'']) ''f'' 0 0))"
proof -
  let ?c = "Listcmd (Backcmd (Pipecmd (Execcmd [''ls'', ''d'']) (Execcmd [''wc'']))) (Redircmd (Execcmd [''rm'']) ''f'' 0 0)"
  have "cmd_ok good_word ?c" by (simp add: good_word_def whitespace_def symbols_def redir_modes_def O_RDONLY_def MAXARGS_def)
  moreover have "show_cmd 0 ?c = ''ls d | wc & ; rm < f ''" by (simp add: paren_def)
  ultimately show ?thesis using shell_roundtrip [of ?c] by simp
qed

subsection \<open>Running a command\<close>

text \<open>What a process of the shell does: its system calls in order, each with what follows for every result. \<^verbatim>\<open>printf\<close> to descriptor 2 is
  a write of the text. After a successful \<^verbatim>\<open>exec\<close> another program runs; the continuation is the case of a failure.\<close>

datatype prog = Exit | Fork "int \<Rightarrow> prog" | Wait "int \<Rightarrow> prog" | Pipe "int \<Rightarrow> int \<Rightarrow> int \<Rightarrow> prog" | Close int "int \<Rightarrow> prog"
  | Dup int "int \<Rightarrow> prog" | Open string uint "int \<Rightarrow> prog" | Chdir string "int \<Rightarrow> prog" | Exec string "string list" prog | Write int string prog

definition sh_panic :: "string \<Rightarrow> prog" where
  "sh_panic s = Write 2 (s @ [CHR 0x0A]) Exit"

definition fork1 :: "(int \<Rightarrow> prog) \<Rightarrow> prog" where
  "fork1 k = Fork (\<lambda>pid. if pid = -1 then sh_panic ''fork'' else k pid)"

primrec runcmd :: "string cmd \<Rightarrow> prog" where
  "runcmd (Execcmd ws) = (if ws = [] then Exit
     else Exec (hd ws) ws (Write 2 (''exec '' @ hd ws @ '' failed'' @ [CHR 0x0A]) Exit))"
| "runcmd (Redircmd c f m d) = Close (int d) (\<lambda>_. Open f m (\<lambda>r.
     if r < 0 then Write 2 (''open '' @ f @ '' failed'' @ [CHR 0x0A]) Exit else runcmd c))"
| "runcmd (Listcmd l r) = fork1 (\<lambda>pid. if pid = 0 then runcmd l else Wait (\<lambda>_. runcmd r))"
| "runcmd (Pipecmd l r) = Pipe (\<lambda>e p0 p1. if e < 0 then sh_panic ''pipe''
     else fork1 (\<lambda>pid. if pid = 0 then Close 1 (\<lambda>_. Dup p1 (\<lambda>_. Close p0 (\<lambda>_. Close p1 (\<lambda>_. runcmd l))))
     else fork1 (\<lambda>pid. if pid = 0 then Close 0 (\<lambda>_. Dup p0 (\<lambda>_. Close p0 (\<lambda>_. Close p1 (\<lambda>_. runcmd r))))
     else Close p0 (\<lambda>_. Close p1 (\<lambda>_. Wait (\<lambda>_. Wait (\<lambda>_. Exit)))))))"
| "runcmd (Backcmd c) = fork1 (\<lambda>pid. if pid = 0 then runcmd c else Exit)"

text \<open>The loop that makes sure three descriptors are open: each round opens a higher one, so it ends within four.\<close>

primrec ensure_fds :: "nat \<Rightarrow> prog \<Rightarrow> prog" where
  "ensure_fds 0 k = Exit"
| "ensure_fds (Suc n) k = Open ''console'' O_RDWR (\<lambda>fd. if fd < 0 then k else if fd \<ge> 3 then Close fd (\<lambda>_. k) else ensure_fds n k)"

text \<open>\<^verbatim>\<open>getcmd\<close>: the prompt and the next line, \<open>None\<close> at the end of the input. The main loop works on the input that is left.\<close>

definition getcmd :: "string \<Rightarrow> (string \<times> string) option" where
  "getcmd inp = (let (l, inp) = gets_line 100 inp; buf = takeWhile (\<lambda>c. c \<noteq> CHR 0x00) l in if buf = [] then None else Some (buf, inp))"

lemma getcmd_shorter: "getcmd inp = Some (buf, rest) \<Longrightarrow> length rest < length inp"
  using gets_line_shorter [of 100 inp] by (force simp: getcmd_def Let_def split: if_splits prod.splits)

definition run_line :: "string \<Rightarrow> prog" where
  "run_line buf = (case parsecmd buf of
      Parsed (c, m) \<Rightarrow> runcmd (map_cmd (\<lambda>w. cstr m (fst w)) c)
    | Panics e \<Rightarrow> sh_panic e
    | NoFuel \<Rightarrow> Exit)"

function sh_loop :: "string \<Rightarrow> prog" where
  "sh_loop inp = Write 2 ''$ '' (case getcmd inp of
      None \<Rightarrow> Exit
    | Some (buf, inp) \<Rightarrow>
        if take 3 buf = ''cd '' then
          (let d = drop 3 (butlast buf) in Chdir d (\<lambda>r. if r < 0 then Write 2 (''cannot cd '' @ d @ [CHR 0x0A]) (sh_loop inp) else sh_loop inp))
        else fork1 (\<lambda>pid. if pid = 0 then run_line buf else Wait (\<lambda>_. sh_loop inp)))"
  by pat_completeness auto
termination
  by (relation "measure length") (auto simp: getcmd_shorter)

declare sh_loop.simps [simp del]

definition sh_main :: "string \<Rightarrow> prog" where
  "sh_main inp = ensure_fds 4 (sh_loop inp)"

subsection \<open>The descriptors of the programs it starts\<close>

text \<open>The kernel's side of the calls, when none fails: a descriptor table, \<^verbatim>\<open>open\<close>, \<^verbatim>\<open>dup\<close> and \<^verbatim>\<open>pipe\<close> taking the lowest free
  descriptors as \<^verbatim>\<open>fdalloc\<close> does, and \<^verbatim>\<open>fork\<close> copying the table. \<open>execs\<close> lists the programs that are started, child before
  parent, with their tables; pipes are numbered in the order of their creation.\<close>

datatype channel = Tty | OnFile string uint | ReadEnd nat | WriteEnd nat

type_synonym fds = "int \<Rightarrow> channel option"

definition lowest :: "fds \<Rightarrow> int" where
  "lowest t = (case find (\<lambda>i. t i = None) [0..15] of None \<Rightarrow> -1 | Some i \<Rightarrow> i)"

primrec execs :: "prog \<Rightarrow> fds \<Rightarrow> nat \<Rightarrow> (string list \<times> fds) list \<times> nat" where
  "execs Exit t n = ([], n)"
| "execs (Fork k) t n = (let (a, n) = execs (k 0) t n; (b, n) = execs (k 1) t n in (a @ b, n))"
| "execs (Wait k) t n = execs (k 1) t n"
| "execs (Pipe k) t n = (let p0 = lowest t; t = t(p0 \<mapsto> ReadEnd n); p1 = lowest t in execs (k 0 p0 p1) (t(p1 \<mapsto> WriteEnd n)) (Suc n))"
| "execs (Close d k) t n = execs (k 0) (t(d := None)) n"
| "execs (Dup d k) t n = (let f = lowest t in execs (k f) (t(f := t d)) n)"
| "execs (Open s m k) t n = (let f = lowest t in execs (k f) (t(f \<mapsto> OnFile s m)) n)"
| "execs (Chdir s k) t n = execs (k 0) t n"
| "execs (Exec s as p) t n = ([(as, t)], n)"
| "execs (Write d s p) t n = execs p t n"

text \<open>What a command means: which programs run with which standard input, output and error.\<close>

primrec cmd_means :: "string cmd \<Rightarrow> fds \<Rightarrow> nat \<Rightarrow> (string list \<times> fds) list \<times> nat" where
  "cmd_means (Execcmd ws) t n = (if ws = [] then [] else [(ws, t)], n)"
| "cmd_means (Redircmd c f m d) t n = cmd_means c (t(int d \<mapsto> OnFile f m)) n"
| "cmd_means (Listcmd l r) t n = (let (a, n) = cmd_means l t n; (b, n) = cmd_means r t n in (a @ b, n))"
| "cmd_means (Pipecmd l r) t n = (let (a, n') = cmd_means l (t(1 \<mapsto> WriteEnd n)) (Suc n); (b, n') = cmd_means r (t(0 \<mapsto> ReadEnd n)) n' in (a @ b, n'))"
| "cmd_means (Backcmd c) t n = cmd_means c t n"

lemma lowest_free:
  assumes "dom t = {0, 1, 2}"
  shows "lowest t = 3" "lowest (t(0 := None)) = 0" "lowest (t(1 := None)) = 1" "lowest (t(3 \<mapsto> x)) = 4"
    "lowest (t(3 \<mapsto> x, 4 \<mapsto> y, 0 := None)) = 0" "lowest (t(3 \<mapsto> x, 4 \<mapsto> y, 1 := None)) = 1"
proof -
  have "t 0 \<noteq> None" "t 1 \<noteq> None" "t 2 \<noteq> None" using assms by auto
  moreover have "t 3 = None" "t 4 = None" using assms domIff [of 3 t] domIff [of 4 t] by auto
  moreover have "[0..15::int] = [0, 1, 2, 3, 4] @ [5..15]" by (simp add: upto_rec1)
  ultimately show "lowest t = 3" "lowest (t(0 := None)) = 0" "lowest (t(1 := None)) = 1" "lowest (t(3 \<mapsto> x)) = 4"
    "lowest (t(3 \<mapsto> x, 4 \<mapsto> y, 0 := None)) = 0" "lowest (t(3 \<mapsto> x, 4 \<mapsto> y, 1 := None)) = 1"
    by (auto simp: lowest_def)
qed

lemma execs_runcmd: "cmd_ok P c \<Longrightarrow> dom t = {0, 1, 2} \<Longrightarrow> execs (runcmd c) t n = cmd_means c t n"
proof (induction c arbitrary: t n)
  case (Redircmd c f m d)
  then have d: "int d = 0 \<or> int d = 1" by (auto simp: redir_modes_def)
  then have "lowest (t(int d := None)) = int d" using lowest_free(2,3) [OF Redircmd.prems(2)] by auto
  moreover have "dom (t(int d \<mapsto> OnFile f m)) = {0, 1, 2}" using d Redircmd.prems(2) by auto
  ultimately show ?case using Redircmd by (simp add: Let_def)
next
  case (Pipecmd l r)
  note low = lowest_free [OF Pipecmd.prems(2)]
  have t: "t 3 = None" "t 4 = None" using Pipecmd.prems(2) domIff [of 3 t] domIff [of 4 t] by auto
  have d: "dom (t(1 \<mapsto> WriteEnd n)) = {0, 1, 2}" "dom (t(0 \<mapsto> ReadEnd n)) = {0, 1, 2}" using Pipecmd.prems(2) by auto
  have u: "(t(3 \<mapsto> ReadEnd n, 4 \<mapsto> WriteEnd n, 1 := None, 1 \<mapsto> WriteEnd n, 3 := None, 4 := None)) = t(1 \<mapsto> WriteEnd n)"
    "(t(3 \<mapsto> ReadEnd n, 4 \<mapsto> WriteEnd n, 0 := None, 0 \<mapsto> ReadEnd n, 3 := None, 4 := None)) = t(0 \<mapsto> ReadEnd n)"
    using t by (auto simp: fun_eq_iff)
  show ?case using Pipecmd d by (simp add: fork1_def Let_def low u split: prod.splits)
qed (auto simp: fork1_def Let_def split: prod.splits)

definition std_fds :: "fds \<Rightarrow> bool" where
  "std_fds t \<longleftrightarrow> dom t = {0, 1, 2}"

lemma std_fds_upd: "std_fds t \<Longrightarrow> i = 0 \<or> i = 1 \<Longrightarrow> std_fds (t(i \<mapsto> x))"
  by (auto simp: std_fds_def)

lemma cmd_means_std: "cmd_ok P c \<Longrightarrow> std_fds t \<Longrightarrow> \<forall>x \<in> set (fst (cmd_means c t n)). std_fds (snd x)"
proof (induction c arbitrary: t n)
  case (Redircmd c f m d)
  then show ?case using std_fds_upd [of t "int d" "OnFile f m"] by (auto simp: redir_modes_def)
next
  case (Pipecmd l r)
  then show ?case using std_fds_upd [of t 1 "WriteEnd n"] std_fds_upd [of t 0 "ReadEnd n"] by (simp add: Let_def case_prod_beta ball_Un)
qed (simp_all add: Let_def case_prod_beta ball_Un)

lemma ensure_fds_open: "dom t = {0, 1, 2} \<Longrightarrow> execs (ensure_fds (Suc n) k) t m = execs k t m"
proof -
  assume "dom t = {0, 1, 2}"
  moreover from this have "t(3 := None) = t" using domIff [of 3 t] by auto
  ultimately show ?thesis using lowest_free(1) [of t] by (simp add: Let_def)
qed



end
