(* ===== verification/Ide.thy ===== *)
theory Ide
  imports Devices
begin

text \<open>
  The disk driver \<^verbatim>\<open>src/ide.c\<close>: a queue of buffers, the first of which the drive is working on. A process that asks for a
  transfer appends its buffer and sleeps; the interrupt of the drive completes the first buffer, wakes the process and starts
  the next one.

  The drive is part of the state: the registers the driver writes through the I/O ports, the status with which
  it ends a wait for readiness (\<open>None\<close> if it never gets ready), what the second drive shows on its status port, and the sectors of
  its two drives. The data port moves the sector that the registers address. The link \<^verbatim>\<open>qnext\<close> of \<^verbatim>\<open>struct buf\<close> is a map of
  its own. A waiting process leaves the processor in \<open>iderw_wait\<close> and continues with \<open>iderw_resume\<close>.
\<close>

unbundle bit_operations_syntax

subsection \<open>The drive\<close>

definition SECTOR_SIZE :: nat where "SECTOR_SIZE = 512"
definition IDE_BSY :: uchar where "IDE_BSY = 0x80"
definition IDE_DRDY :: uchar where "IDE_DRDY = 0x40"
definition IDE_DF :: uchar where "IDE_DF = 0x20"
definition IDE_ERR :: uchar where "IDE_ERR = 0x01"
definition IDE_CMD_READ :: uchar where "IDE_CMD_READ = 0x20"
definition IDE_CMD_WRITE :: uchar where "IDE_CMD_WRITE = 0x30"
definition IDE_CMD_RDMUL :: uchar where "IDE_CMD_RDMUL = 0xc4"
definition IDE_CMD_WRMUL :: uchar where "IDE_CMD_WRMUL = 0xc5"
definition FSSIZE :: nat where "FSSIZE = 1000"

record kide = kdev +
  idequeue :: "nat option"
  qnext :: "nat \<Rightarrow> nat option"
  havedisk1 :: bool
  ide_reg :: "uint \<Rightarrow> uchar"
  ide_status :: "uchar option"
  ide_probe :: "uchar list"
  ide_disk :: "bool \<Rightarrow> nat \<Rightarrow> uchar list"

interpretation idequeue_field: component_field idequeue idequeue_update
  by unfold_locales simp_all

interpretation qnext_field: component_field qnext qnext_update
  by unfold_locales simp_all

interpretation havedisk1_field: component_field havedisk1 havedisk1_update
  by unfold_locales simp_all

interpretation ide_reg_field: component_field ide_reg ide_reg_update
  by unfold_locales simp_all

interpretation ide_status_field: component_field ide_status ide_status_update
  by unfold_locales simp_all

interpretation ide_disk_field: component_field ide_disk ide_disk_update
  by unfold_locales simp_all

definition ide_outb :: "uint \<Rightarrow> uchar \<Rightarrow> ('x kide_scheme, unit) kern" where
  "ide_outb port v = modify (\<lambda>s. s\<lparr>ide_reg := (ide_reg s)(port := v)\<rparr>)"

text \<open>The drive and the sector that the registers address.\<close>

definition ide_drive :: "'x kide_scheme \<Rightarrow> bool" where
  "ide_drive s = bit (ide_reg s 0x1f6) 4"

definition ide_lba :: "'x kide_scheme \<Rightarrow> nat" where
  "ide_lba s = unat (ide_reg s 0x1f3) + 256 * (unat (ide_reg s 0x1f4) + 256 * (unat (ide_reg s 0x1f5) + 256 * (unat (ide_reg s 0x1f6) mod 16)))"

definition ide_outsl :: "uchar list \<Rightarrow> ('x kide_scheme, unit) kern" where
  "ide_outsl d = modify (\<lambda>s. if ide_reg s 0x1f7 = IDE_CMD_WRITE
     then s\<lparr>ide_disk := (ide_disk s)(ide_drive s := (ide_disk s (ide_drive s))(ide_lba s := d))\<rparr> else s)"

definition ide_insl :: "('x kide_scheme, uchar list) kern" where
  "ide_insl = (\<lambda>s. if ide_reg s 0x1f7 = IDE_CMD_READ then Done (ide_disk s (ide_drive s) (ide_lba s)) s else Undef ''no data'')"

subsection \<open>The driver\<close>

definition idewait :: "bool \<Rightarrow> ('x kide_scheme, int) kern" where
  "idewait checkerr = bnd (gets ide_status) (\<lambda>st. case st of
      None \<Rightarrow> undef ''ide never ready''
    | Some r \<Rightarrow>
        if r AND (IDE_BSY OR IDE_DRDY) \<noteq> IDE_DRDY then undef ''ide never ready''
        else if checkerr \<and> r AND (IDE_DF OR IDE_ERR) \<noteq> 0 then ret (-1) else ret 0)"

definition ideinit :: "('x kide_scheme, unit) kern" where
  "ideinit = sq (initlock Lk_ide ''ide'') (
     bnd (gets (\<lambda>s. of_nat (length (cpus s)))) (\<lambda>ncpu.
     sq (ioapicenable IRQ_IDE (ncpu - 1)) (
     sq (idewait False) (
     sq (ide_outb 0x1f6 (0xe0 OR push_bit 4 1)) (
     bnd (gets (\<lambda>s. \<exists>x \<in> set (take 1000 (ide_probe s)). x \<noteq> 0)) (\<lambda>found.
     sq (whenM found (modify (\<lambda>s. s\<lparr>havedisk1 := True\<rparr>)))
        (ide_outb 0x1f6 (0xe0 OR push_bit 4 0))))))))"

definition idestart :: "nat option \<Rightarrow> ('x kide_scheme, unit) kern" where
  "idestart b = (case b of
      None \<Rightarrow> panic ''idestart''
    | Some b \<Rightarrow> bnd (gets (buf_at b)) (\<lambda>x.
        if unat (blockno x) \<ge> FSSIZE then panic ''incorrect blockno''
        else
          let sector_per_block = BSIZE div SECTOR_SIZE;
              sector = blockno x * of_nat sector_per_block;
              read_cmd = (if sector_per_block = 1 then IDE_CMD_READ else IDE_CMD_RDMUL);
              write_cmd = (if sector_per_block = 1 then IDE_CMD_WRITE else IDE_CMD_WRMUL) in
          if sector_per_block > 7 then panic ''idestart''
          else sq (idewait False) (
            sq (ide_outb 0x3f6 0) (
            sq (ide_outb 0x1f2 (of_nat sector_per_block)) (
            sq (ide_outb 0x1f3 (ucast (sector AND 0xff))) (
            sq (ide_outb 0x1f4 (ucast (drop_bit 8 sector AND 0xff))) (
            sq (ide_outb 0x1f5 (ucast (drop_bit 16 sector AND 0xff))) (
            sq (ide_outb 0x1f6 (0xe0 OR push_bit 4 (ucast (b_dev x AND 1)) OR ucast (drop_bit 24 sector AND 0x0f))) (
            if b_dirty x then sq (ide_outb 0x1f7 write_cmd) (ide_outsl (data x))
            else ide_outb 0x1f7 read_cmd)))))))))"

definition ide_complete :: "nat \<Rightarrow> ('x kide_scheme, unit) kern" where
  "ide_complete b = sq (bnd (gets (\<lambda>s. b_dirty (buf_at b s))) (\<lambda>dirty.
        whenM (\<not> dirty) (bnd (idewait True) (\<lambda>r.
          whenM (r \<ge> 0) (bnd ide_insl (\<lambda>d. modify (upd_buf b (\<lambda>x. x\<lparr>data := d\<rparr>)))))))) (
     sq (modify (upd_buf b (\<lambda>x. x\<lparr>b_valid := True\<rparr>)))
        (modify (upd_buf b (\<lambda>x. x\<lparr>b_dirty := False\<rparr>))))"

definition ide_next :: "('x kide_scheme, unit) kern" where
  "ide_next = bnd (gets idequeue) (\<lambda>q. whenM (q \<noteq> None) (idestart q))"

definition ideintr :: "('x kide_scheme, unit) kern" where
  "ideintr = sq (acquire Lk_ide) (bnd (gets idequeue) (\<lambda>q. case q of
      None \<Rightarrow> release Lk_ide
    | Some b \<Rightarrow>
        sq (modify (\<lambda>s. s\<lparr>idequeue := qnext s b\<rparr>)) (
        sq (ide_complete b) (
        sq (wakeup (Chan_buf b)) (
        sq ide_next
           (release Lk_ide))))))"

text \<open>\<^verbatim>\<open>for(pp=&idequeue; *pp; pp=&(*pp)->qnext)\<close>: the walk to the last link, with one step for each buffer there can be.\<close>

primrec ide_append :: "nat \<Rightarrow> nat \<Rightarrow> nat \<Rightarrow> ('x kide_scheme, unit) kern" where
  "ide_append 0 c b = undef ''disk queue''"
| "ide_append (Suc n) c b = bnd (gets (\<lambda>s. qnext s c)) (\<lambda>q. case q of
      None \<Rightarrow> modify (\<lambda>s. s\<lparr>qnext := (qnext s)(c := Some b)\<rparr>)
    | Some c' \<Rightarrow> ide_append n c' b)"

definition ide_enqueue :: "nat \<Rightarrow> ('x kide_scheme, unit) kern" where
  "ide_enqueue b = sq (modify (\<lambda>s. s\<lparr>qnext := (qnext s)(b := None)\<rparr>)) (
     bnd (gets idequeue) (\<lambda>q. case q of
         None \<Rightarrow> modify (\<lambda>s. s\<lparr>idequeue := Some b\<rparr>)
       | Some c \<Rightarrow> ide_append NBUF c b))"

definition iderw_wait :: "nat \<Rightarrow> ('x kide_scheme, unit) kern" where
  "iderw_wait b = bnd (gets (\<lambda>s. b_valid (buf_at b s) \<and> \<not> b_dirty (buf_at b s))) (\<lambda>fin.
     if fin then release Lk_ide else sleep (Chan_buf b) Lk_ide)"

definition iderw_ide :: "nat \<Rightarrow> ('x kide_scheme, unit) kern" where
  "iderw_ide b = bnd (holdingsleep b) (\<lambda>h.
     if \<not> h then panic ''iderw: buf not locked''
     else bnd (gets (buf_at b)) (\<lambda>x.
       if b_valid x \<and> \<not> b_dirty x then panic ''iderw: nothing to do''
       else bnd (gets havedisk1) (\<lambda>d1.
         if b_dev x \<noteq> 0 \<and> \<not> d1 then panic ''iderw: ide disk 1 not present''
         else sq (acquire Lk_ide) (
           sq (ide_enqueue b) (
           sq (bnd (gets idequeue) (\<lambda>q. whenM (q = Some b) (idestart (Some b))))
              (iderw_wait b))))))"

definition iderw_resume :: "nat \<Rightarrow> bool \<Rightarrow> nat \<Rightarrow> ('x kide_scheme, unit) kern" where
  "iderw_resume p en b = sq (sleep_resume p en Lk_ide) (iderw_wait b)"

declare ide_append.simps [simp del]

subsection \<open>Addressing a sector\<close>

definition ide_ready :: "'x kide_scheme \<Rightarrow> bool" where
  "ide_ready s \<longleftrightarrow> (\<exists>r. ide_status s = Some r \<and> r AND (IDE_BSY OR IDE_DRDY) = IDE_DRDY)"

definition ide_failed :: "'x kide_scheme \<Rightarrow> bool" where
  "ide_failed s \<longleftrightarrow> (\<exists>r. ide_status s = Some r \<and> r AND (IDE_DF OR IDE_ERR) \<noteq> 0)"

lemma idewait_Done: "ide_ready s \<Longrightarrow> idewait e s = Done (if e \<and> ide_failed s then -1 else 0) s"
  by (auto simp: idewait_def ide_ready_def ide_failed_def kern_defs)

definition req_regs :: "buf \<Rightarrow> (uint \<Rightarrow> uchar) \<Rightarrow> uint \<Rightarrow> uchar" where
  "req_regs x r = r(0x3f6 := 0, 0x1f2 := 1, 0x1f3 := ucast (blockno x AND 0xff), 0x1f4 := ucast (drop_bit 8 (blockno x) AND 0xff),
     0x1f5 := ucast (drop_bit 16 (blockno x) AND 0xff),
     0x1f6 := 0xe0 OR push_bit 4 (ucast (b_dev x AND 1)) OR ucast (drop_bit 24 (blockno x) AND 0x0f),
     0x1f7 := (if b_dirty x then IDE_CMD_WRITE else IDE_CMD_READ))"

definition started :: "buf \<Rightarrow> 'x kide_scheme \<Rightarrow> 'x kide_scheme" where
  "started x s = s\<lparr>ide_reg := req_regs x (ide_reg s), ide_disk := (if b_dirty x
     then (ide_disk s)(odd (b_dev x) := (ide_disk s (odd (b_dev x)))(unat (blockno x) := data x)) else ide_disk s)\<rparr>"

lemma take32_unat: "take_bit 32 (unat x) = unat x" for x :: uint
  using unat_lt32 [of x] by (rule take_bit_nat_eq_self)

lemma unat_ucast_mask: "unat (ucast (drop_bit n x AND 0xff) :: uchar) = unat x div 2 ^ n mod 256" for x :: uint
proof -
  have "drop_bit n x AND 0xff = take_bit 8 (drop_bit n x)" by (simp add: take_bit_eq_mask mask_eq_exp_minus_1)
  then have "unat (ucast (drop_bit n x AND 0xff) :: uchar) = take_bit 8 (drop_bit n (unat x))"
    by (simp only: unsigned_ucast_eq unsigned_take_bit_eq unsigned_drop_bit_eq) (simp add: min_def take32_unat)
  then show ?thesis by (simp add: take_bit_eq_mod drop_bit_eq_div)
qed

lemma drive_reg_bits: "take_bit 4 (0xe0 OR push_bit 4 (ucast (d AND 1)) OR ucast (drop_bit 24 x AND 0x0f) :: uchar) = take_bit 4 (ucast (drop_bit 24 x))"
  "bit (0xe0 OR push_bit 4 (ucast (d AND 1)) OR ucast (drop_bit 24 x AND 0x0f) :: uchar) 4 = odd d" for x d :: uint
proof -
  have e: "(0xe0 :: uchar) = push_bit 5 7" "(0x0f :: uint) = mask 4" by (simp_all add: mask_eq_exp_minus_1)
  show "take_bit 4 (0xe0 OR push_bit 4 (ucast (d AND 1)) OR ucast (drop_bit 24 x AND 0x0f) :: uchar) = take_bit 4 (ucast (drop_bit 24 x))"
    unfolding e by (rule bit_word_eqI) (auto simp: bit_simps)
  show "bit (0xe0 OR push_bit 4 (ucast (d AND 1)) OR ucast (drop_bit 24 x AND 0x0f) :: uchar) 4 = odd d"
    unfolding e by (simp add: bit_simps) (simp add: bit_0)
qed

lemma drive_reg_low: "unat (0xe0 OR push_bit 4 (ucast (d AND 1)) OR ucast (drop_bit 24 x AND 0x0f) :: uchar) mod 16 = unat x div 2 ^ 24 mod 16"
  (is "unat ?r mod 16 = _") for x d :: uint
proof -
  have "unat ?r mod 16 = unat (take_bit 4 ?r)" by (simp only: unsigned_take_bit_eq) (simp add: take_bit_eq_mod)
  also have "\<dots> = take_bit 4 (unat (ucast (drop_bit 24 x) :: uchar))" unfolding drive_reg_bits(1) by (simp only: unsigned_take_bit_eq)
  also have "\<dots> = take_bit 4 (drop_bit 24 (unat x))"
    by (simp only: unsigned_ucast_eq unsigned_drop_bit_eq) (simp add: take32_unat)
  finally show ?thesis by (simp add: take_bit_eq_mod drop_bit_eq_div)
qed

lemma req_addresses:
  assumes "unat (blockno x) < FSSIZE"
  shows "ide_lba (s\<lparr>ide_reg := req_regs x r\<rparr>) = unat (blockno x)" "ide_drive (s\<lparr>ide_reg := req_regs x r\<rparr>) = odd (b_dev x)"
proof -
  let ?n = "unat (blockno x)"
  have a: "unat (ucast (blockno x AND 0xff) :: uchar) = ?n mod 256" using unat_ucast_mask [of 0 "blockno x"] by simp
  have "?n = ?n mod 256 + 256 * (?n div 256 mod 256 + 256 * (?n div 65536 mod 256 + 256 * (?n div 16777216 mod 16)))"
    using assms by (simp add: FSSIZE_def)
  then show "ide_lba (s\<lparr>ide_reg := req_regs x r\<rparr>) = ?n"
    using a unat_ucast_mask [of 8 "blockno x"] unat_ucast_mask [of 16 "blockno x"] drive_reg_low [of "b_dev x" "blockno x"]
    by (simp add: ide_lba_def req_regs_def)
  show "ide_drive (s\<lparr>ide_reg := req_regs x r\<rparr>) = odd (b_dev x)"
    using drive_reg_bits(2) [of "b_dev x" "blockno x"] by (simp add: ide_drive_def req_regs_def)
qed

lemma idestart_Done:
  assumes "ide_ready s" "unat (blockno (buf_at b s)) < FSSIZE"
  shows "idestart (Some b) s = Done () (started (buf_at b s) s)"
proof -
  let ?x = "buf_at b s"
  have w: "idewait False s = Done 0 s" using idewait_Done [OF assms(1), of False] by simp
  show ?thesis
    using assms(2) req_addresses [OF assms(2), of "ide_reg s" s]
    by (cases "b_dirty ?x") (simp_all add: idestart_def kern_defs BSIZE_def SECTOR_SIZE_def w ide_outb_def ide_outsl_def started_def req_regs_def Let_def)
qed

subsection \<open>The queue\<close>

fun chain :: "(nat \<Rightarrow> nat option) \<Rightarrow> nat option \<Rightarrow> nat list \<Rightarrow> bool" where
  "chain f q [] \<longleftrightarrow> q = None"
| "chain f q (x # xs) \<longleftrightarrow> q = Some x \<and> chain f (f x) xs"

lemma chain_cong: "(\<And>x. x \<in> set xs \<Longrightarrow> f' x = f x) \<Longrightarrow> chain f' q xs = chain f q xs"
  by (induction xs arbitrary: q) auto

lemma ide_append_step:
  "qnext s c = None \<Longrightarrow> ide_append (Suc n) c b s = Done () (s\<lparr>qnext := (qnext s)(c := Some b)\<rparr>)"
  "qnext s c = Some d \<Longrightarrow> ide_append (Suc n) c b s = ide_append n d b s"
  by (simp_all add: kern_defs ide_append.simps)

lemma ide_append_Done:
  "chain (qnext s) (Some c) (c # xs) \<Longrightarrow> length xs < n \<Longrightarrow> ide_append n c b s = Done () (s\<lparr>qnext := (qnext s)(last (c # xs) := Some b)\<rparr>)"
proof (induction xs arbitrary: c n)
  case Nil
  then obtain m where m: "n = Suc m" "qnext s c = None" by (cases n) auto
  show ?case by (simp only: m(1) ide_append_step(1) [OF m(2)] last_ConsL)
next
  case (Cons y ys)
  then obtain m where n: "n = Suc m" "length ys < m" by (cases n) auto
  have q: "qnext s c = Some y" "chain (qnext s) (Some y) (y # ys)" using Cons.prems(1) by simp_all
  have "last (c # y # ys) = last (y # ys)" by simp
  then show ?case by (simp only: n(1) ide_append_step(2) [OF q(1)] Cons.IH [OF q(2) n(2)])
qed

lemma chain_append:
  "chain f q xs \<Longrightarrow> distinct xs \<Longrightarrow> b \<notin> set xs \<Longrightarrow> f b = None \<Longrightarrow> xs \<noteq> [] \<Longrightarrow> chain (f(last xs := Some b)) q (xs @ [b])"
proof (induction xs arbitrary: q)
  case (Cons x xs)
  show ?case
  proof (cases xs)
    case Nil
    then show ?thesis using Cons.prems by auto
  next
    case (Cons y ys)
    then have "last (x # xs) = last xs" "last xs \<noteq> x" using Cons.prems(2) by (auto simp: last_in_set)
    then show ?thesis using Cons.IH Cons.prems Cons by auto
  qed
qed simp

text \<open>The drive works on a buffer: its registers address the buffer's sector, and what is to be written has been handed over.\<close>

definition issued :: "buf \<Rightarrow> 'x kide_scheme \<Rightarrow> bool" where
  "issued x s \<longleftrightarrow> ide_lba s = unat (blockno x) \<and> ide_drive s = odd (b_dev x) \<and> ide_reg s 0x1f7 = (if b_dirty x then IDE_CMD_WRITE else IDE_CMD_READ) \<and>
     (b_dirty x \<longrightarrow> ide_disk s (odd (b_dev x)) (unat (blockno x)) = data x)"

definition pending :: "buf \<Rightarrow> bool" where
  "pending x \<longleftrightarrow> (\<not> b_valid x \<or> b_dirty x) \<and> unat (blockno x) < FSSIZE"

definition queue_ok :: "nat list \<Rightarrow> 'x kide_scheme \<Rightarrow> bool" where
  "queue_ok xs s \<longleftrightarrow> chain (qnext s) (idequeue s) xs \<and> distinct xs \<and> set xs \<subseteq> {..<NBUF} \<and> length (bcache s) = Suc NBUF \<and>
     (\<forall>b \<in> set xs. pending (buf_at b s)) \<and> (xs \<noteq> [] \<longrightarrow> issued (buf_at (hd xs) s) s)"

lemma issued_started: "unat (blockno x) < FSSIZE \<Longrightarrow> issued x (started x s)"
proof -
  assume "unat (blockno x) < FSSIZE"
  note a = req_addresses [OF this, of "ide_reg s" s]
  have "ide_lba (started x s) = unat (blockno x)" "ide_drive (started x s) = odd (b_dev x)"
    using a by (simp_all add: started_def ide_lba_def ide_drive_def)
  moreover have "ide_reg (started x s) 0x1f7 = (if b_dirty x then IDE_CMD_WRITE else IDE_CMD_READ)" by (simp add: started_def req_regs_def)
  ultimately show ?thesis by (simp add: issued_def) (simp add: started_def)
qed

lemma started_fields [simp]: "idequeue (started x s) = idequeue s" "qnext (started x s) = qnext s" "bcache (started x s) = bcache s"
  "ide_status (started x s) = ide_status s" "cpu_ok (started x s) = cpu_ok s" "cur (started x s) = cur s" "held lk (started x s) = held lk s"
  "depth (started x s) = depth s" "unlocked lk (started x s) = unlocked lk s" "ptable (started x s) = ptable s" "settled (started x s) = started x (settled s)"
  by (simp_all add: started_def)

lemma length_queue: "queue_ok xs s \<Longrightarrow> b < NBUF \<Longrightarrow> b \<notin> set xs \<Longrightarrow> length xs < NBUF"
proof -
  assume q: "queue_ok xs s" "b < NBUF" "b \<notin> set xs"
  then have "card (insert b (set xs)) \<le> card {..<NBUF}" by (intro card_mono) (auto simp: queue_ok_def)
  then show ?thesis using q by (simp add: queue_ok_def distinct_card)
qed

lemma queue_ok_cong:
  assumes "idequeue t = idequeue s" "qnext t = qnext s" "bcache t = bcache s" "ide_reg t = ide_reg s" "ide_disk t = ide_disk s"
  shows "queue_ok xs t = queue_ok xs s"
  using assms by (simp add: queue_ok_def issued_def ide_lba_def ide_drive_def)

lemma queue_ok_frame [simp]: "queue_ok xs (acquired lk s) = queue_ok xs s" "queue_ok xs (released lk s) = queue_ok xs s"
  "queue_ok xs (upd_proc i f s) = queue_ok xs s" "queue_ok xs (upd_procs g s) = queue_ok xs s"
  by (rule queue_ok_cong; simp add: upd_proc_def upd_procs_def)+

text \<open>Appending a buffer to the queue.\<close>

lemma ide_enqueue_Done:
  assumes q: "queue_ok xs s" "b < NBUF" "b \<notin> set xs"
  shows "\<exists>f. ide_enqueue b s = Done () (s\<lparr>qnext := f, idequeue := Some (hd (xs @ [b]))\<rparr>) \<and> chain f (Some (hd (xs @ [b]))) (xs @ [b])"
proof -
  let ?f = "(qnext s)(b := None)" and ?s = "s\<lparr>qnext := (qnext s)(b := None)\<rparr>"
  have "chain ?f (idequeue s) xs = chain (qnext s) (idequeue s) xs" using q(3) by (intro chain_cong) auto
  then have c: "chain ?f (idequeue s) xs" "distinct xs" using q(1) by (simp_all add: queue_ok_def)
  show ?thesis
  proof (cases xs)
    case Nil
    then have "idequeue s = None" using c by simp
    then show ?thesis using Nil by (intro exI [of _ ?f]) (simp add: ide_enqueue_def kern_defs)
  next
    case (Cons x ys)
    then have i: "idequeue s = Some x" "idequeue ?s = Some x" "chain (qnext ?s) (Some x) (x # ys)" using c by simp_all
    have a: "ide_append NBUF x b ?s = Done () (?s\<lparr>qnext := ?f(last (x # ys) := Some b)\<rparr>)"
      using ide_append_Done [OF i(3), of NBUF b] length_queue [OF q] Cons by simp
    have e: "?s\<lparr>qnext := ?f(last (x # ys) := Some b)\<rparr> = s\<lparr>qnext := ?f(last (x # ys) := Some b), idequeue := Some x\<rparr>"
      using i(1) by (cases s) simp
    have "chain (?f(last xs := Some b)) (Some x) (xs @ [b])" using chain_append [OF c, of b] q(3) i Cons by simp
    moreover have "ide_enqueue b s = Done () (s\<lparr>qnext := ?f(last (x # ys) := Some b), idequeue := Some x\<rparr>)"
      using a i(1) unfolding e [symmetric] by (simp add: ide_enqueue_def kern_defs)
    ultimately show ?thesis using Cons by (intro exI [of _ "?f(last (x # ys) := Some b)"]) simp
  qed
qed

lemma iderw_queues:
  assumes s: "in_proc p s" "depth s = 0" "slocked (slocks s b)" "sl_pid (slocks s b) = pid (proc_at p s)"
    and q: "queue_ok xs s" "b < NBUF" "b \<notin> set xs" "pending (buf_at b s)" "b_dev (buf_at b s) = 0 \<or> havedisk1 s" "ide_ready s"
  shows "\<exists>t. iderw_ide b s = Switches t \<and> queue_ok (xs @ [b]) t \<and> bcache t = bcache s \<and> pstate (proc_at p t) = SLEEPING \<and> pchan (proc_at p t) = Some (Chan_buf b)"
proof -
  let ?x = "buf_at b s" and ?s1 = "acquired Lk_ide s"
  obtain f where f: "ide_enqueue b ?s1 = Done () (?s1\<lparr>qnext := f, idequeue := Some (hd (xs @ [b]))\<rparr>)" "chain f (Some (hd (xs @ [b]))) (xs @ [b])"
    using ide_enqueue_Done [of xs ?s1 b] q(1-3) by auto
  let ?s2 = "?s1\<lparr>qnext := f, idequeue := Some (hd (xs @ [b]))\<rparr>"
  define t where "t = (if xs = [] then started ?x ?s2 else ?s2)"
  have t: "cpu_ok t" "cur t = Some p" "held Lk_ide t" "depth t = 1" "unlocked Lk_ptable t" "procs (ptable t) = procs (ptable s)" "bcache t = bcache s"
    using s(1,2) by (simp_all add: t_def)
  have "ide_ready ?s2" "buf_at b ?s2 = ?x" using q(6) by (simp_all add: ide_ready_def)
  then have st: "idestart (Some b) ?s2 = Done () (started ?x ?s2)" using idestart_Done [of ?s2 b] q(4) by (simp add: pending_def)
  have "hd (xs @ [b]) = b \<longleftrightarrow> xs = []" using q(3) by (cases xs) auto
  then have go: "bnd (gets idequeue) (\<lambda>q. whenM (q = Some b) (idestart (Some b))) ?s2 = Done () t" using st by (cases "xs = []") (simp_all add: t_def kern_defs)
  have "sleep (Chan_buf b) Lk_ide t = (Switches (asleep (Chan_buf b) Lk_ide p t) :: (unit, 'a kide_scheme) outcome)"
    using t s(1) by (intro sleep_Switches) auto
  then have w: "iderw_wait b t = Switches (asleep (Chan_buf b) Lk_ide p t)" using q(4) t(7) by (auto simp: iderw_wait_def kern_defs pending_def)
  have "iderw_ide b s = Switches (asleep (Chan_buf b) Lk_ide p t)"
    using s q(4,5) f(1) go w by (auto simp: iderw_ide_def kern_defs holdingsleep_Done acquire_Done pending_def)
  moreover have "queue_ok (xs @ [b]) t"
  proof (cases xs)
    case Nil
    then show ?thesis using q(1,2,4) f(2) issued_started [of ?x ?s2] by (simp add: t_def queue_ok_def pending_def)
  next
    case (Cons y ys)
    then show ?thesis using q(1-4) f(2) by (auto simp: t_def queue_ok_def issued_def ide_lba_def ide_drive_def)
  qed
  then have "queue_ok (xs @ [b]) (asleep (Chan_buf b) Lk_ide p t)" by (simp add: asleep_def)
  moreover have "bcache (asleep (Chan_buf b) Lk_ide p t) = bcache s" "pstate (proc_at p (asleep (Chan_buf b) Lk_ide p t)) = SLEEPING"
      "pchan (proc_at p (asleep (Chan_buf b) Lk_ide p t)) = Some (Chan_buf b)"
    using t s(1) by (simp_all add: asleep_def upd_proc_def)
  ultimately show ?thesis by blast
qed

text \<open>What the interrupt leaves in the buffer: a read brings the sector unless the drive reports an error.\<close>

definition completed :: "'x kide_scheme \<Rightarrow> buf \<Rightarrow> buf" where
  "completed s x = x\<lparr>data := (if b_dirty x \<or> ide_failed s then data x else ide_disk s (odd (b_dev x)) (unat (blockno x))),
     b_valid := True, b_dirty := False\<rparr>"

lemma ide_complete_Done:
  assumes "issued (buf_at b s) s" "ide_ready s" "b < length (bcache s)"
  shows "ide_complete b s = Done () (upd_buf b (completed s) s)"
proof -
  have "ide_insl s = Done (ide_disk s (odd (b_dev (buf_at b s))) (unat (blockno (buf_at b s)))) s" if "\<not> b_dirty (buf_at b s)"
    using assms(1) that by (simp add: ide_insl_def issued_def)
  then show ?thesis using idewait_Done [OF assms(2), of True] assms(3)
    by (cases "b_dirty (buf_at b s)"; cases "ide_failed s") (simp_all add: ide_complete_def kern_defs upd_buf_def completed_def)
qed

lemma ideintr_completes:
  assumes s: "idle s" "length (procs (ptable s)) = NPROC" and q: "queue_ok (b # xs) s" "ide_ready s"
  shows "runs ideintr s (\<lambda>_ t. queue_ok xs t \<and> bcache t = (bcache s)[b := completed s (buf_at b s)] \<and> procs (ptable t) = map (wake (Chan_buf b)) (procs (ptable s)) \<and> idle t)"
proof -
  let ?s1 = "(acquired Lk_ide s)\<lparr>idequeue := qnext s b\<rparr>"
  let ?s2 = "upd_buf b (completed ?s1) ?s1"
  let ?s3 = "upd_procs (map (wake (Chan_buf b))) ?s2"
  define t where "t = (case xs of [] \<Rightarrow> ?s3 | y # ys \<Rightarrow> started (buf_at y ?s3) ?s3)"
  have b: "b < NBUF" "length (bcache s) = Suc NBUF" "idequeue s = Some b" "chain (qnext s) (qnext s b) xs" "b \<notin> set xs" "distinct xs" "issued (buf_at b s) s"
    using q(1) by (auto simp: queue_ok_def)
  have r: "ide_ready ?s1" "issued (buf_at b ?s1) ?s1" using q(2) b(7) by (simp_all add: ide_ready_def issued_def ide_lba_def ide_drive_def)
  have w: "wakeup (Chan_buf b) ?s2 = Done () ?s3"
    using s by (subst wakeup_Done) (simp_all add: ptable_ready_def settled_nested upd_buf_def)
  have if_s1: "ide_failed ?s1 = ide_failed s" by (simp add: ide_failed_def)
  have cs: "completed ?s1 = completed s" by (simp add: fun_eq_iff completed_def if_s1)
  have fs: "bcache ?s3 = (bcache s)[b := completed s (buf_at b s)]" "idequeue ?s3 = qnext s b" "qnext ?s3 = qnext s" "ide_ready ?s3"
    using r(1) by (simp_all add: cs upd_procs_def upd_buf_def ide_ready_def)
  have p: "pending (buf_at y ?s3)" "buf_at y ?s3 = buf_at y s" if "y \<in> set xs" for y
  proof -
    have "b \<noteq> y" using that b(5) by auto
    then have e: "buf_at y ?s3 = buf_at y s" by (simp add: fs(1))
    have "pending (buf_at y s)" using q(1) that by (simp add: queue_ok_def)
    then show "pending (buf_at y ?s3)" "buf_at y ?s3 = buf_at y s" using e by simp_all
  qed
  have st: "ide_next ?s3 = Done () t"
  proof (cases xs)
    case Nil
    then show ?thesis using b(4) fs(2) by (simp add: ide_next_def t_def kern_defs)
  next
    case (Cons y ys)
    then show ?thesis using b(4) fs p(1) [of y] idestart_Done [OF fs(4), of y] by (simp add: ide_next_def t_def kern_defs pending_def)
  qed
  have tq: "queue_ok xs t \<and> bcache t = bcache ?s3"
  proof (cases xs)
    case Nil
    then show ?thesis using b(2,4) fs by (simp add: t_def queue_ok_def)
  next
    case (Cons y ys)
    have "issued (buf_at y ?s3) t" using issued_started [of "buf_at y ?s3" ?s3] p(1) [of y] Cons by (simp add: t_def pending_def)
    then show ?thesis using b(2,4,6) fs p q(1) Cons by (auto simp: t_def queue_ok_def)
  qed
  have rl: "release Lk_ide t = Done () (released Lk_ide t)" using s by (intro release_Done) (simp_all add: t_def upd_buf_def upd_procs_def split: list.splits)
  have "ideintr s = Done () (released Lk_ide t)"
    using s b(3) ide_complete_Done [OF r(2,1)] b(1,2) w st rl by (simp add: ideintr_def kern_defs acquire_Done)
  moreover have "procs (ptable t) = map (wake (Chan_buf b)) (procs (ptable s))" by (simp add: t_def upd_procs_def upd_buf_def split: list.splits)
  moreover have "idle (released Lk_ide t)"
  proof -
    let ?u = "upd_procs (map (wake (Chan_buf b))) (upd_buf b (completed s) (s\<lparr>idequeue := qnext s b\<rparr>))"
    have "released Lk_ide t = (case xs of [] \<Rightarrow> ?u | y # ys \<Rightarrow> started (buf_at y ?u) ?u)"
      using s(1) by (simp add: t_def cs started_def upd_procs_def upd_buf_def split: list.splits)
    moreover have "idle ?u" using s(1) unfolding idle_def by (simp add: upd_procs_def upd_buf_def)
    then have "idle (started x ?u)" for x unfolding idle_def by simp
    ultimately show ?thesis using \<open>idle ?u\<close> by (simp split: list.splits)
  qed
  ultimately show ?thesis using tq fs(1) by (simp add: runs_Done)
qed

text \<open>A process that is woken after its request is complete finds its buffer done and returns.\<close>

lemma iderw_wait_Done:
  assumes "cpu_ok s" "held Lk_ide s" "0 < depth s" "b_valid (buf_at b s)" "\<not> b_dirty (buf_at b s)"
  shows "iderw_wait b s = Done () (released Lk_ide s)"
  using assms by (simp add: iderw_wait_def kern_defs release_Done)

lemma ideintr_idle:
  assumes "idle s" "idequeue s = None"
  shows "ideintr s = Done () s"
  using assms by (simp add: ideintr_def kern_defs acquire_Done release_Done)

subsection \<open>First come, first served\<close>

text \<open>C14. The disk driver is a queue. When the drive gets ready: a process that asks for a transfer of a locked buffer that is not
  already up to date ends up asleep on that buffer, with the buffer at the end of the queue and, if it is alone
  there, its request handed to the drive. An interrupt completes exactly the first buffer of the queue: it becomes valid and
  clean, a read has brought the sector its block number and device name unless the drive reports an error, the processes
  asleep on it become runnable, and the request of the next buffer is handed to the drive. An
  interrupt without a request changes nothing. Throughout, the first buffer's request is the one in the registers of the
  drive, and the data of a write is on the disk when it is handed over.\<close>

theorem ide_first_come_first_served:
  assumes q: "queue_ok xs s" "ide_ready s"
  shows "(in_proc p s \<and> depth s = 0 \<and> slocked (slocks s b) \<and> sl_pid (slocks s b) = pid (proc_at p s) \<and> b < NBUF \<and> b \<notin> set xs \<and>
      pending (buf_at b s) \<and> (b_dev (buf_at b s) = 0 \<or> havedisk1 s) \<longrightarrow>
      (\<exists>t. iderw_ide b s = Switches t \<and> queue_ok (xs @ [b]) t \<and> bcache t = bcache s \<and> pstate (proc_at p t) = SLEEPING \<and> pchan (proc_at p t) = Some (Chan_buf b))) \<and>
    (idle s \<and> length (procs (ptable s)) = NPROC \<longrightarrow>
      (case xs of [] \<Rightarrow> ideintr s = Done () s
       | c # ys \<Rightarrow> runs ideintr s (\<lambda>_ t. queue_ok ys t \<and> bcache t = (bcache s)[c := completed s (buf_at c s)] \<and>
           procs (ptable t) = map (wake (Chan_buf c)) (procs (ptable s)) \<and> idle t)))"
proof (intro conjI impI)
  show "\<exists>t. iderw_ide b s = Switches t \<and> queue_ok (xs @ [b]) t \<and> bcache t = bcache s \<and> pstate (proc_at p t) = SLEEPING \<and> pchan (proc_at p t) = Some (Chan_buf b)"
    if "in_proc p s \<and> depth s = 0 \<and> slocked (slocks s b) \<and> sl_pid (slocks s b) = pid (proc_at p s) \<and> b < NBUF \<and> b \<notin> set xs \<and>
      pending (buf_at b s) \<and> (b_dev (buf_at b s) = 0 \<or> havedisk1 s)"
    using iderw_queues [of p s b xs] that q by blast
  show "case xs of [] \<Rightarrow> ideintr s = Done () s | c # ys \<Rightarrow> runs ideintr s (\<lambda>_ t. queue_ok ys t \<and> bcache t = (bcache s)[c := completed s (buf_at c s)] \<and>
           procs (ptable t) = map (wake (Chan_buf c)) (procs (ptable s)) \<and> idle t)" if "idle s \<and> length (procs (ptable s)) = NPROC"
    using that ideintr_idle [of s] ideintr_completes [of s] q by (cases xs) (auto simp: queue_ok_def [of "[]"])
qed

definition ide_demo :: kide where
  "ide_demo = boot \<lparr>slocks = (\<lambda>_. \<lparr>slocked = True, sl_name = [], sl_pid = 1\<rparr>),
     bcache = (replicate 31 \<lparr>b_valid = True, b_dirty = False, b_dev = 1, blockno = 0, refcnt = 0, b_prev = 0, b_next = 0, data = []\<rparr>)
       [3 := \<lparr>b_valid = False, b_dirty = False, b_dev = 1, blockno = 7, refcnt = 1, b_prev = 0, b_next = 0, data = []\<rparr>],
     memdisk = [], dwrites = [], the_log = boot_log,
     pipes = (\<lambda>_. \<lparr>pdata = [], nread = 0, nwrite = 0, readopen = False, writeopen = False\<rparr>),
     icache = [], the_sb = dec_superblock (replicate BSIZE 0), the_input = demo_input,
     the_devsw = [], kbd_shift = 0, kbd_bytes = [], uart_bytes = [],
     uart_lsr = 0, uart_ctl = [], ioapic = (\<lambda>_. 0), ioapicid = 0,
     idequeue = None, qnext = (\<lambda>_. None), havedisk1 = True, ide_reg = (\<lambda>_. 0), ide_status = Some 0x40, ide_probe = [], ide_disk = (\<lambda>_ _. replicate 512 9)\<rparr>"

lemma ide_demo_facts: "in_proc 0 ide_demo" "depth ide_demo = 0" "pid (proc_at 0 ide_demo) = 1" "slocks ide_demo 3 = \<lparr>slocked = True, sl_name = [], sl_pid = 1\<rparr>"
  "blockno (buf_at 3 ide_demo) = 7" "\<not> b_valid (buf_at 3 ide_demo)" "havedisk1 ide_demo" "length (bcache ide_demo) = 31" "idequeue ide_demo = None"
  "ide_status ide_demo = Some 0x40"
  by (simp_all add: ide_demo_def) (simp_all add: boot_def kproc.defs demo_procs_def)

theorem ide_first_come_first_served_witness:
  "\<exists>t. iderw_ide 3 ide_demo = Switches t \<and> idequeue t = Some 3 \<and> pstate (proc_at 0 t) = SLEEPING"
proof -
  have n: "NBUF = 30" by (simp add: NBUF_def MAXOPBLOCKS_def)
  have "queue_ok [] ide_demo" by (simp add: queue_ok_def ide_demo_facts n)
  moreover have "ide_ready ide_demo" by (simp add: ide_ready_def IDE_BSY_def IDE_DRDY_def ide_demo_facts)
  moreover have "pending (buf_at 3 ide_demo)" by (simp add: pending_def ide_demo_facts FSSIZE_def)
  ultimately show ?thesis using ide_first_come_first_served [of "[]" ide_demo 0 3] by (auto simp: queue_ok_def ide_demo_facts n)
qed

end
