(* ===== verification/Blocks.thy ===== *)
theory Blocks
  imports Inode
begin

text \<open>
  Disk blocks inside a transaction. The code above the log (the block and inode allocators, the block map and the
  contents of files in \<^verbatim>\<open>src/fs.c\<close>) reads a block, changes it, records it with \<^verbatim>\<open>log_write\<close> and releases it.
  The locale \<open>block_txn\<close> is the contract it relies on; the log over the buffer cache provides it. On top of it
  this theory shows what the block allocator does to the free map.
\<close>

subsection \<open>The contract\<close>

text \<open>A state \<open>st h V bl\<close> holds the buffers of the blocks \<open>h\<close>, has block contents \<open>V\<close> and has recorded the blocks
  \<open>bl\<close>; \<open>orig\<close> are the contents before the transaction.\<close>

locale block_txn =
  fixes st :: "('h \<Rightarrow> nat option) \<Rightarrow> (nat \<Rightarrow> uchar list) \<Rightarrow> uint list \<Rightarrow> 's \<Rightarrow> bool"
    and rd :: "uint \<Rightarrow> ('s, 'h) kern" and lw :: "'h \<Rightarrow> ('s, unit) kern" and rel :: "'h \<Rightarrow> ('s, unit) kern"
    and get :: "'h \<Rightarrow> 's \<Rightarrow> uchar list" and put :: "'h \<Rightarrow> uchar list \<Rightarrow> 's \<Rightarrow> 's"
    and orig :: "nat \<Rightarrow> uchar list" and nblocks :: nat and logged :: "nat \<Rightarrow> bool" and room :: nat and slots :: nat
  assumes rd: "st h V bl s \<Longrightarrow> unat b < nblocks \<Longrightarrow> unat b \<notin> ran h \<Longrightarrow> card (ran h) + length bl < slots \<Longrightarrow>
      runs (rd b) s (\<lambda>i t. h i = None \<and> st (h(i \<mapsto> unat b)) V bl t)"
    and get: "st h V bl s \<Longrightarrow> h i = Some c \<Longrightarrow> get i s = V c \<and> length (V c) = BSIZE"
    and put: "st h V bl s \<Longrightarrow> h i = Some c \<Longrightarrow> length d = BSIZE \<Longrightarrow> st h (V(c := d)) bl (put i d s)"
    and lw: "st h V bl s \<Longrightarrow> h i = Some (unat b) \<Longrightarrow> \<not> logged (unat b) \<Longrightarrow> length bl < room \<Longrightarrow>
      runs (lw i) s (\<lambda>_. st h V (absorb b bl))"
    and rel: "st h V bl s \<Longrightarrow> h i = Some c \<Longrightarrow> c \<in> unat ` set bl \<or> V c = orig c \<Longrightarrow>
      runs (rel i) s (\<lambda>_. st (h(i := None)) V bl)"
    and clean: "st h V bl s \<Longrightarrow> c \<notin> ran h \<Longrightarrow> c \<notin> unat ` set bl \<Longrightarrow> V c = orig c"
begin

text \<open>Read a block and go on with its buffer.\<close>

lemma with_block:
  assumes "st h V bl s" "unat b < nblocks" "unat b \<notin> ran h" "card (ran h) + length bl < slots"
    "\<And>i t. h i = None \<Longrightarrow> st (h(i \<mapsto> unat b)) V bl t \<Longrightarrow> get i t = V (unat b) \<Longrightarrow> length (V (unat b)) = BSIZE \<Longrightarrow>
      unat b \<in> unat ` set bl \<or> V (unat b) = orig (unat b) \<Longrightarrow> runs (K i) t Q"
  shows "runs (bnd (rd b) K) s Q"
  unfolding runs_bnd
proof (rule runs_weaken [OF rd [OF assms(1-4)]], elim conjE)
  fix i t assume t: "h i = None" "st (h(i \<mapsto> unat b)) V bl t"
  then show "runs (K i) t Q" using assms(5) get [OF t(2), of i "unat b"] clean [OF assms(1,3)] by auto
qed

text \<open>Release a block whose content is recorded or unchanged.\<close>

lemma release_block:
  assumes "st (h(i \<mapsto> c)) V bl t" "h i = None" "c \<in> unat ` set bl \<or> V c = orig c" "\<And>u. st h V bl u \<Longrightarrow> runs K u Q"
  shows "runs (sq (rel i) K) t Q"
proof -
  have "(h(i \<mapsto> c))(i := None) = h" using assms(2) by auto
  then show ?thesis
    unfolding runs_sq using rel [OF assms(1), of i c] assms(3,4) by (auto elim!: runs_weaken)
qed

text \<open>The same for code that goes on to fail.\<close>

lemma with_block_panic:
  assumes "st h V bl s" "unat b < nblocks" "unat b \<notin> ran h" "card (ran h) + length bl < slots"
    "\<And>i t. h i = None \<Longrightarrow> st (h(i \<mapsto> unat b)) V bl t \<Longrightarrow> get i t = V (unat b) \<Longrightarrow> length (V (unat b)) = BSIZE \<Longrightarrow>
      unat b \<in> unat ` set bl \<or> V (unat b) = orig (unat b) \<Longrightarrow> K i t = Panic e"
  shows "bnd (rd b) K s = Panic e"
  using rd [OF assms(1-4)]
proof (rule runsE)
  fix i t assume r: "rd b s = Done i t" and t: "h i = None \<and> st (h(i \<mapsto> unat b)) V bl t"
  then have "K i t = Panic e" using assms(5) get [of "h(i \<mapsto> unat b)" V bl t i "unat b"] clean [OF assms(1,3)] by auto
  with r show ?thesis by (simp add: bnd_def)
qed

lemma release_block_panic:
  assumes "st (h(i \<mapsto> c)) V bl t" "h i = None" "c \<in> unat ` set bl \<or> V c = orig c" "\<And>u. st h V bl u \<Longrightarrow> K u = Panic e"
  shows "sq (rel i) K t = Panic e"
proof -
  have "(h(i \<mapsto> c))(i := None) = h" using assms(2) by auto
  then have "runs (rel i) t (\<lambda>_. st h V bl)" using rel [OF assms(1), of i c] assms(3) by simp
  then show ?thesis by (rule runsE) (simp add: sq_def bnd_def assms(4))
qed

text \<open>Change a block in hand, record it and release it.\<close>

lemma write_back:
  assumes t: "st (h(i \<mapsto> unat b)) V bl t" "h i = None" and d: "length d = BSIZE" "\<not> logged (unat b)" "length bl < room"
    and K: "\<And>u. st h (V(unat b := d)) (absorb b bl) u \<Longrightarrow> runs K u Q"
  shows "runs (sq (modify (put i d)) (sq (lw i) (sq (rel i) K))) t Q"
proof -
  have p: "st (h(i \<mapsto> unat b)) (V(unat b := d)) bl (put i d t)" using put [OF t(1) _ d(1), of i] by simp
  have "runs (sq (rel i) K) v Q" if v: "st (h(i \<mapsto> unat b)) (V(unat b := d)) (absorb b bl) v" for v
    using v t(2) by (rule release_block) (use K in auto)
  then show ?thesis unfolding runs_sq [of "modify _"] runs_sq [of "lw _"] runs_modify
    using lw [OF p, of i b] d by (auto elim!: runs_weaken)
qed

end

subsection \<open>The log as provider\<close>

definition fs_st :: "nat \<Rightarrow> log \<Rightarrow> uchar list list \<Rightarrow> (nat \<times> uchar list) list \<Rightarrow> 'm \<Rightarrow> superblock \<Rightarrow> inode list \<Rightarrow>
    (nat \<Rightarrow> nat option) \<Rightarrow> (nat \<Rightarrow> uchar list) \<Rightarrow> uint list \<Rightarrow> 'm kino_scheme \<Rightarrow> bool" where
  "fs_st p L D W m sb ics h V bl s \<longleftrightarrow> txn_st p L h V D W bl s \<and> the_sb s = sb \<and> icache s = ics \<and> kino.more s = m"

text \<open>How many blocks may be recorded: none outside a transaction.\<close>

definition log_room :: "log \<Rightarrow> nat" where
  "log_room L = (if 1 \<le> outstanding L then nat (log_size L - 1) else 0)"

lemma bstep_klog: "bstep s t \<Longrightarrow> klog.more t = klog.more s"
  by (auto simp: bstep_def)

lemma kino_sel_more:
  "klog.more t = klog.more s \<Longrightarrow> the_sb t = the_sb s \<and> icache t = icache s \<and> kino.more t = kino.more s"
  by (cases t; cases s) simp

lemma clean_unheld:
  assumes "log_st p L h V D W X s" "b \<notin> X" "b \<notin> ran h"
  shows "V b = D ! b"
proof -
  have s: "cache_st p h V D W X s" using assms(1) by (simp add: log_st_def)
  note C = cache_stD [OF s]
  have "blk s b = memdisk s ! b"
  proof (rule blk_eqI [OF C(1)])
    fix j assume j: "caches j b s" "b_valid (buf_at j s)"
    then have "j < NBUF" by (simp add: caches_def)
    moreover have "\<not> b_dirty (buf_at j s)"
      using assms(2) j C(6) by (auto simp: dirty_blocks_def dirty_idx_def caches_def)
    moreover have "j \<notin> dom h" using C(2) j(1) assms(3) by (auto simp: caches_def ran_def)
    ultimately show "memdisk s ! b = data (buf_at j s)"
      using bcD(5) [OF C(1), of j] j by (auto simp: buf_inv_def caches_def)
  qed simp
  then show ?thesis using C(3,4) by simp
qed

interpretation tx: block_txn "fs_st p L D W m sb ics" "bread 1" log_write brelse "\<lambda>i s. data (buf_at i s)"
  "\<lambda>i d. upd_buf i (\<lambda>x. x\<lparr>data := d\<rparr>)" "\<lambda>b. D ! b" "length D" "in_log L" "log_room L" NBUF
  for p :: nat and L :: log and D :: "uchar list list" and W :: "(nat \<times> uchar list) list" and m :: 'm and sb :: superblock and ics :: "inode list"
proof (unfold_locales, goal_cases)
  case (1 h V bl s b)
  have s: "log_st p (lh_of bl L) h V D W (unat ` set bl) s" using 1(1) by (simp add: fs_st_def txn_st_def)
  have "finite (dom h)" using bcD(2) [OF cache_stD(1), of p h V D W "unat ` set bl" s] s finite_subset by (auto simp: log_st_def)
  then have "card (unat ` set bl \<union> ran h) \<le> length bl + card (ran h)"
    using card_Un_le [of "unat ` set bl" "ran h"] card_image_le [of "set bl" unat] card_length [of bl] by simp
  then have "card (unat ` set bl \<union> ran h) < NBUF" using 1(4) by simp
  then have "runs (bread 1 b) s (\<lambda>i t. h i = None \<and> log_st p (lh_of bl L) (h(i \<mapsto> unat b)) V D W (unat ` set bl) t \<and> bstep s t)"
    using 1 by (intro lg.rd [OF s]) auto
  then show ?case by (rule runs_weaken) (use 1(1) in \<open>auto simp: fs_st_def txn_st_def dest!: bstep_klog kino_sel_more\<close>)
next
  case (2 h V bl s i c)
  then show ?case using lg.get [of p "lh_of bl L" h V D W] by (auto simp: fs_st_def txn_st_def)
next
  case (3 h V bl s i c d)
  then have "log_st p (lh_of bl L) h (V(c := d)) D W (unat ` set bl) (upd_buf i (\<lambda>x. x\<lparr>data := d\<rparr>) s)"
    using lg.put [of p "lh_of bl L" h V D W "unat ` set bl" s i c d] by (auto simp: fs_st_def txn_st_def)
  then show ?case using 3(1) by (auto simp: fs_st_def txn_st_def upd_buf_def)
next
  case (4 h V bl s i b)
  have s: "txn_st p L h V D W bl s" and o: "1 \<le> outstanding L" "int (length bl) < log_size L - 1"
    using 4(1,4) by (auto simp: fs_st_def log_room_def split: if_splits)
  have "runs (log_write i) s (\<lambda>_. txn_st p L h V D W (absorb b bl))"
    using 4 o by (intro log_write_runs [OF s]) auto
  moreover have "klog.more t = klog.more s" if "log_write i s = Done a t" for a t
  proof -
    have "in_proc p s" "the_log s = lh_of bl L" "log_fits (lh_of bl L) bl (length D)"
      using s bcD(1) [OF cache_stD(1), of p h V D W "unat ` set bl" s] by (auto simp: txn_st_def log_st_def)
    then show ?thesis using that 4(4) o log_write_Done [of p s bl "length D" i] by (auto simp: upd_buf_def)
  qed
  ultimately show ?case using 4(1) unfolding runs_def by (auto simp: fs_st_def dest!: kino_sel_more)
next
  case (5 h V bl s i c)
  have s: "log_st p (lh_of bl L) h V D W (unat ` set bl) s" using 5(1) by (simp add: fs_st_def txn_st_def)
  show ?case
    by (rule runs_weaken [OF lg.rel [OF s 5(2,3)]]) (use 5(1) in \<open>auto simp: fs_st_def txn_st_def dest!: bstep_klog kino_sel_more\<close>)
next
  case (6 h V bl s c)
  then have "log_st p (lh_of bl L) h V D W (unat ` set bl) s" by (simp add: fs_st_def txn_st_def)
  then show ?case using 6 by (intro clean_unheld)
qed


subsection \<open>The free map\<close>

text \<open>The layout of the disk: log, inodes, free map, data.\<close>

definition data_start :: "superblock \<Rightarrow> nat" where
  "data_start sb = unat (sb_bmapstart sb) + unat (sb_size sb) div BPB + 1"

definition sb_ok :: "log \<Rightarrow> nat \<Rightarrow> superblock \<Rightarrow> bool" where
  "sb_ok L n sb \<longleftrightarrow> 1 < log_start L \<and> 0 \<le> log_size L \<and> log_start L + log_size L \<le> int (unat (sb_inodestart sb)) \<and>
     unat (sb_inodestart sb) + unat (sb_ninodes sb) div IPB + 1 \<le> unat (sb_bmapstart sb) \<and>
     data_start sb \<le> unat (sb_size sb) \<and> unat (sb_size sb) \<le> n \<and> n < 2 ^ 31"

definition map_block :: "superblock \<Rightarrow> nat \<Rightarrow> nat" where
  "map_block sb b = unat (sb_bmapstart sb) + b div BPB"

definition in_use :: "(nat \<Rightarrow> uchar list) \<Rightarrow> superblock \<Rightarrow> nat \<Rightarrow> bool" where
  "in_use V sb b \<longleftrightarrow> V (map_block sb b) ! (b mod BPB div 8) AND bit_mask (b mod BPB) \<noteq> 0"

text \<open>Everything in front of the data is marked.\<close>

definition bitmap_ok :: "(nat \<Rightarrow> uchar list) \<Rightarrow> superblock \<Rightarrow> bool" where
  "bitmap_ok V sb \<longleftrightarrow> (\<forall>b < data_start sb. in_use V sb b)"

definition mark :: "superblock \<Rightarrow> nat \<Rightarrow> (nat \<Rightarrow> uchar list) \<Rightarrow> nat \<Rightarrow> uchar list" where
  "mark sb b V = V(map_block sb b := (V (map_block sb b))[b mod BPB div 8 := V (map_block sb b) ! (b mod BPB div 8) OR bit_mask (b mod BPB)])"

definition unmark :: "superblock \<Rightarrow> nat \<Rightarrow> (nat \<Rightarrow> uchar list) \<Rightarrow> nat \<Rightarrow> uchar list" where
  "unmark sb b V = V(map_block sb b := (V (map_block sb b))[b mod BPB div 8 := V (map_block sb b) ! (b mod BPB div 8) AND NOT (bit_mask (b mod BPB))])"

lemma BPB_pos [simp]: "0 < BPB"
  by (simp add: BPB_def BSIZE_def)

lemma map_block_data: "b < unat (sb_size sb) \<Longrightarrow> map_block sb b < data_start sb"
  using div_le_mono [of b "unat (sb_size sb)" BPB] by (simp add: map_block_def data_start_def)

lemma unat_of_nat32: "n < 2 ^ 32 \<Longrightarrow> unat (of_nat n :: uint) = n"
  by (simp add: unat_of_nat take_bit_nat_eq_self)

lemma unat_div_of_nat: "n < 2 ^ 32 \<Longrightarrow> unat (b div of_nat n :: uint) = unat b div n"
  by (simp add: unat_div unat_of_nat take_bit_nat_eq_self)

lemma past_log: "sb_ok L n sb \<Longrightarrow> unat (sb_inodestart sb) \<le> b \<Longrightarrow> \<not> in_log L b"
  unfolding sb_ok_def in_log_def by (elim conjE) linarith

lemma BBLOCK_map_block:
  assumes "sb_ok L n sb" "unat b < unat (sb_size sb)"
  shows "unat (BBLOCK b sb) = map_block sb (unat b)" "map_block sb (unat b) < n" "\<not> in_log L (map_block sb (unat b))"
proof -
  have d: "map_block sb (unat b) < data_start sb" using assms(2) by (rule map_block_data)
  then show n: "map_block sb (unat b) < n" using assms(1) by (simp add: sb_ok_def)
  show "\<not> in_log L (map_block sb (unat b))"
    using assms(1) by (rule past_log) (use assms(1) in \<open>simp add: sb_ok_def map_block_def\<close>)
  have e: "unat (b div of_nat BPB) = unat b div BPB" by (rule unat_div_of_nat) (simp add: BPB_def BSIZE_def)
  have "unat (b div of_nat BPB) + unat (sb_bmapstart sb) < 2 ^ 32"
    using n assms(1) e by (simp add: sb_ok_def map_block_def)
  then show "unat (BBLOCK b sb) = map_block sb (unat b)"
    unfolding BBLOCK_def using e by (simp add: unat_word_ariths map_block_def)
qed

lemma bit_mask_bit: "x AND bit_mask i \<noteq> 0 \<longleftrightarrow> bit x (i mod 8)"
  by (simp add: bit_mask_def push_bit_of_1 and_exp_eq_0_iff_not_bit)

lemma bit_bit_mask: "bit (bit_mask i) k \<longleftrightarrow> k = i mod 8"
  by (auto simp: bit_mask_def bit_exp_iff)

lemma byte_in_block: "b mod BPB div 8 < BSIZE"
proof -
  have "b mod BPB < BSIZE * 8" using mod_less_divisor [OF BPB_pos, of b] by (simp add: BPB_def)
  then show ?thesis by (simp add: less_mult_imp_div_less)
qed

lemma same_bit:
  assumes "map_block sb b = map_block sb c" "b mod BPB div 8 = c mod BPB div 8" "b mod BPB mod 8 = c mod BPB mod 8"
  shows "b = c"
proof -
  have "b div BPB = c div BPB" using assms(1) by (simp add: map_block_def)
  moreover have "b mod BPB = c mod BPB" using assms(2,3) by (metis div_mult_mod_eq)
  ultimately show ?thesis by (metis div_mult_mod_eq)
qed

lemma in_use_mark:
  assumes "length (V (map_block sb b)) = BSIZE"
  shows "in_use (mark sb b V) sb c \<longleftrightarrow> c = b \<or> in_use V sb c"
proof (cases "map_block sb c = map_block sb b \<and> c mod BPB div 8 = b mod BPB div 8")
  case True
  then show ?thesis using assms byte_in_block [of b] same_bit [of sb c b]
    by (auto simp: in_use_def mark_def bit_mask_bit bit_or_iff bit_bit_mask)
next
  case False
  then show ?thesis by (auto simp: in_use_def mark_def)
qed

lemma in_use_unmark:
  assumes "length (V (map_block sb b)) = BSIZE"
  shows "in_use (unmark sb b V) sb c \<longleftrightarrow> c \<noteq> b \<and> in_use V sb c"
proof (cases "map_block sb c = map_block sb b \<and> c mod BPB div 8 = b mod BPB div 8")
  case True
  then show ?thesis using assms byte_in_block [of b] same_bit [of sb c b]
    by (auto simp: in_use_def unmark_def bit_mask_bit bit_and_iff bit_not_iff bit_bit_mask)
next
  case False
  then show ?thesis by (auto simp: in_use_def unmark_def)
qed

lemma unmark_mark:
  assumes "length (V (map_block sb b)) = BSIZE" "\<not> in_use V sb b"
  shows "unmark sb b (mark sb b V) = V"
proof -
  let ?x = "V (map_block sb b) ! (b mod BPB div 8)"
  have "(?x OR bit_mask (b mod BPB)) AND NOT (bit_mask (b mod BPB)) = ?x"
    using assms(2) by (intro bit_word_eqI) (auto simp: in_use_def bit_mask_bit bit_simps bit_bit_mask)
  then show ?thesis using assms(1) byte_in_block [of b] by (auto simp: unmark_def mark_def)
qed


subsection \<open>The block allocator\<close>

lemma upd_data_at: "upd_buf i (\<lambda>x. x\<lparr>data := f (data x)\<rparr>) s = upd_buf i (\<lambda>x. x\<lparr>data := f (data (buf_at i s))\<rparr>) s"
  by (simp add: upd_buf_def)

lemma bnd_gets: "bnd (gets f) K s = K (f s) s"
  by (simp add: bnd_def gets_def)

lemma sq_ret_unit: "sq m (ret ()) = m"
  by (rule ext) (simp add: sq_def bnd_def ret_def split: outcome.splits)

text \<open>The idiom of \<^verbatim>\<open>src/fs.c\<close> for changing a block in hand.\<close>

lemma tx_update:
  assumes t: "fs_st p L D W m sb ics (h(i \<mapsto> unat b)) V bl t" "h i = None"
    and d: "length (f (V (unat b))) = BSIZE" "\<not> in_log L (unat b)" "length bl < log_room L"
    and K: "\<And>u. fs_st p L D W m sb ics h (V(unat b := f (V (unat b)))) (absorb b bl) u \<Longrightarrow> runs K u Q"
  shows "runs (sq (upd_data i f) (sq (log_write i) (sq (brelse i) K))) t Q"
proof -
  have "data (buf_at i t) = V (unat b)" using tx.get [OF t(1), of i] by simp
  then show ?thesis using tx.write_back [OF t d K] by (simp add: runs_sq runs_modify upd_data_at [of i f])
qed

lemmas tx_update_last = tx_update [where K = "ret ()", unfolded sq_ret_unit runs_ret]

lemma bzero_runs:
  assumes s: "fs_st p L D W m sb ics h V bl s" and b: "unat b < length D" "unat b \<notin> ran h" "\<not> in_log L (unat b)"
    and r: "card (ran h) + length bl < NBUF" "length bl < log_room L"
  shows "runs (bzero 1 b) s (\<lambda>_. fs_st p L D W m sb ics h (V(unat b := replicate BSIZE 0)) (absorb b bl))"
  unfolding bzero_def using s b(1,2) r(1)
proof (rule tx.with_block)
  fix i t assume "h i = None" "fs_st p L D W m sb ics (h(i \<mapsto> unat b)) V bl t"
  then show "runs (sq (upd_data i (\<lambda>_. replicate BSIZE 0)) (sq (log_write i) (brelse i))) t
      (\<lambda>_. fs_st p L D W m sb ics h (V(unat b := replicate BSIZE 0)) (absorb b bl))"
    using b r by (intro tx_update_last) auto
qed

text \<open>What allocating \<open>b\<close> does: mark it in the free map and clear it.\<close>

definition taken :: "superblock \<Rightarrow> nat \<Rightarrow> (nat \<Rightarrow> uchar list) \<Rightarrow> nat \<Rightarrow> uchar list" where
  "taken sb b V = (mark sb b V)(b := replicate BSIZE 0)"

lemma free_block:
  assumes "sb_ok L n sb" "bitmap_ok V sb" "\<not> in_use V sb b" "b < unat (sb_size sb)"
  shows "data_start sb \<le> b" "b < n" "\<not> in_log L b" "b \<noteq> map_block sb c \<or> unat (sb_size sb) \<le> c"
proof -
  show d: "data_start sb \<le> b" using assms(2,3) by (auto simp: bitmap_ok_def not_le [symmetric])
  then show "b \<noteq> map_block sb c \<or> unat (sb_size sb) \<le> c" using map_block_data [of c sb] by (cases "c < unat (sb_size sb)") auto
  show "b < n" using assms(1,4) by (simp add: sb_ok_def)
  show "\<not> in_log L b" using assms(1) by (rule past_log) (use d assms(1) in \<open>simp add: sb_ok_def data_start_def\<close>)
qed

lemma balloc_loop_runs:
  assumes s: "fs_st p L D W m sb ics h V bl s" and sb: "sb_ok L (length D) sb" "bitmap_ok V sb"
    and h: "\<And>c. c < unat (sb_size sb) \<Longrightarrow> map_block sb c \<notin> ran h" "\<And>c. c \<in> ran h \<Longrightarrow> in_use V sb c"
    and r: "card (ran h) + length bl + 1 < NBUF" "length bl + 1 < log_room L"
    and b: "\<forall>k \<in> set ks. k * BPB < unat (sb_size sb)" "\<exists>b < unat (sb_size sb). b div BPB \<in> set ks \<and> \<not> in_use V sb b"
  shows "runs (balloc_loop 1 (map (\<lambda>k. k * BPB) ks)) s (\<lambda>r t. unat r < unat (sb_size sb) \<and> \<not> in_use V sb (unat r) \<and>
     fs_st p L D W m sb ics h (taken sb (unat r) V) (absorb r (absorb (BBLOCK r sb) bl)) t)"
  using s b
proof (induction ks arbitrary: s)
  case Nil
  then show ?case by simp
next
  case (Cons k ks)
  let ?N = "unat (sb_size sb)" and ?Q = "\<lambda>r t. unat r < unat (sb_size sb) \<and> \<not> in_use V sb (unat r) \<and>
     fs_st p L D W m sb ics h (taken sb (unat r) V) (absorb r (absorb (BBLOCK r sb) bl)) t"
  have N: "?N < 2 ^ 31" using sb(1) by (simp add: sb_ok_def)
  have k: "k * BPB < ?N" using Cons.prems(2) by simp
  then have u: "unat (of_nat (k * BPB) :: uint) = k * BPB" using N by (intro unat_of_nat32) simp
  note bb = BBLOCK_map_block [OF sb(1), of "of_nat (k * BPB)", unfolded u, OF k]
  have mb: "map_block sb (k * BPB) = unat (sb_bmapstart sb) + k" by (simp add: map_block_def)
  let ?P = "\<lambda>bi. k * BPB + bi < ?N \<and> V (map_block sb (k * BPB)) ! (bi div 8) AND bit_mask bi = 0"
  have P: "?P bi \<longleftrightarrow> k * BPB + bi < ?N \<and> \<not> in_use V sb (k * BPB + bi)" "map_block sb (k * BPB + bi) = map_block sb (k * BPB)"
    if "bi < BPB" for bi
    using that by (simp_all add: in_use_def map_block_def)
  have sbs: "the_sb s = sb" using Cons.prems(1) by (simp add: fs_st_def)
  show ?case
    unfolding list.map balloc_loop.simps runs_bnd [of "gets the_sb"] runs_gets sbs using Cons.prems(1)
  proof (rule tx.with_block)
    show "unat (BBLOCK (of_nat (k * BPB)) sb) < length D" "unat (BBLOCK (of_nat (k * BPB)) sb) \<notin> ran h" "card (ran h) + length bl < NBUF"
      using bb h(1) [OF k] r by simp_all
    fix i t
    assume i: "h i = None" and t: "fs_st p L D W m sb ics (h(i \<mapsto> unat (BBLOCK (of_nat (k * BPB)) sb))) V bl t"
      and g: "data (buf_at i t) = V (unat (BBLOCK (of_nat (k * BPB)) sb))" "length (V (unat (BBLOCK (of_nat (k * BPB)) sb))) = BSIZE"
      and c: "unat (BBLOCK (of_nat (k * BPB)) sb) \<in> unat ` set bl \<or> V (unat (BBLOCK (of_nat (k * BPB)) sb)) = D ! unat (BBLOCK (of_nat (k * BPB)) sb)"
    show "runs (bnd (buf_data i) (\<lambda>d. case find (\<lambda>bi. k * BPB + bi < ?N \<and> d ! (bi div 8) AND bit_mask bi = 0) [0..<BPB] of
        None \<Rightarrow> sq (brelse i) (balloc_loop 1 (map (\<lambda>k. k * BPB) ks))
      | Some bi \<Rightarrow> sq (upd_data i (\<lambda>d. d[bi div 8 := d ! (bi div 8) OR bit_mask bi]))
           (sq (log_write i) (sq (brelse i) (sq (bzero 1 (of_nat (k * BPB + bi))) (ret (of_nat (k * BPB + bi)))))))) t ?Q"
    proof (cases "find ?P [0..<BPB]")
      case None
      then have "\<not> ?P bi" if "bi < BPB" for bi using that by (auto simp: find_None_iff)
      then have no: "in_use V sb (k * BPB + bi)" if "bi < BPB" "k * BPB + bi < ?N" for bi using that P(1) by blast
      have nb: "in_use V sb b" if "b < ?N" "b div BPB = k" for b
        using that no [of "b mod BPB"] by (metis BPB_pos div_mult_mod_eq mod_less_divisor)
      have "runs (balloc_loop 1 (map (\<lambda>k. k * BPB) ks)) u ?Q" if "fs_st p L D W m sb ics h V bl u" for u
        using that Cons.prems(2,3) nb by (intro Cons.IH) auto
      then show ?thesis using None bb(1) g(1)
        by (simp add: runs_bnd runs_gets) (rule tx.release_block [OF t [unfolded bb(1)] i c [unfolded bb(1)]])
    next
      case (Some bi)
      then have bi: "bi < BPB" "?P bi" by (auto simp: find_Some_iff)
      define b :: uint where "b = of_nat (k * BPB + bi)"
      have ub: "unat b = k * BPB + bi" using bi(2) N unfolding b_def by (intro unat_of_nat32) simp
      then have fr: "unat b < ?N" "\<not> in_use V sb (unat b)" using P(1) [OF bi(1)] bi(2) by simp_all
      have bm: "unat (BBLOCK b sb) = map_block sb (unat b)" "BBLOCK b sb = BBLOCK (of_nat (k * BPB)) sb"
        using BBLOCK_map_block(1) [OF sb(1) fr(1)] bb(1) P(2) [OF bi(1)] by (simp_all add: word_unat_eq_iff ub)
      note fb = free_block [OF sb fr(2,1)]
      let ?V = "mark sb (unat b) V"
      have mk: "V(unat (BBLOCK b sb) := (V (unat (BBLOCK b sb)))[bi div 8 := V (unat (BBLOCK b sb)) ! (bi div 8) OR bit_mask bi]) = ?V"
        unfolding bm(1) mark_def using bi(1) ub by simp
      have nh: "unat b \<notin> ran h" using h(2) fr(2) by auto
      show ?thesis
        unfolding runs_bnd [of "buf_data i"] runs_gets g(1) bb(1) Some option.case b_def [symmetric]
      proof (rule tx_update [where b = "BBLOCK b sb", OF t [folded bm(2)] i])
        show "length ((V (unat (BBLOCK b sb)))[bi div 8 := V (unat (BBLOCK b sb)) ! (bi div 8) OR bit_mask bi]) = BSIZE"
          using g(2) bm(2) by simp
        show "\<not> in_log L (unat (BBLOCK b sb))" "length bl < log_room L" using bb bm r by simp_all
        fix u assume u: "fs_st p L D W m sb ics h (V(unat (BBLOCK b sb) := (V (unat (BBLOCK b sb)))[bi div 8 := V (unat (BBLOCK b sb)) ! (bi div 8) OR bit_mask bi])) (absorb (BBLOCK b sb) bl) u"
        have "runs (bzero 1 b) u (\<lambda>_. fs_st p L D W m sb ics h (?V(unat b := replicate BSIZE 0)) (absorb b (absorb (BBLOCK b sb) bl)))"
          using u [unfolded mk] fb nh r length_absorb(2) [of "BBLOCK b sb" bl] by (intro bzero_runs) auto
        then show "runs (sq (bzero 1 b) (ret b)) u ?Q"
          unfolding runs_sq runs_ret by (rule runs_weaken) (use fr in \<open>auto simp: taken_def\<close>)
      qed
    qed
  qed
qed


lemma map_count:
  fixes n :: nat assumes "0 < q"
  shows "k < (n + q - 1) div q \<Longrightarrow> k * q < n" "b < n \<Longrightarrow> b div q < (n + q - 1) div q"
proof -
  assume "k < (n + q - 1) div q"
  then have "Suc k * q \<le> n + q - 1" using assms by (metis Suc_leI less_eq_div_iff_mult_less_eq)
  then show "k * q < n" using assms by simp
next
  assume "b < n"
  have "b div q * q \<le> b" by simp
  with \<open>b < n\<close> have "Suc (b div q) * q \<le> n + q - 1" unfolding mult_Suc by linarith
  then show "b div q < (n + q - 1) div q" using assms by (metis Suc_le_eq less_eq_div_iff_mult_less_eq)
qed

lemma balloc_runs:
  assumes s: "fs_st p L D W m sb ics h V bl s" and sb: "sb_ok L (length D) sb" "bitmap_ok V sb"
    and h: "\<And>c. c < unat (sb_size sb) \<Longrightarrow> map_block sb c \<notin> ran h" "\<And>c. c \<in> ran h \<Longrightarrow> in_use V sb c"
    and r: "card (ran h) + length bl + 1 < NBUF" "length bl + 1 < log_room L"
    and b: "\<exists>b < unat (sb_size sb). \<not> in_use V sb b"
  shows "runs (balloc 1) s (\<lambda>r t. unat r < unat (sb_size sb) \<and> \<not> in_use V sb (unat r) \<and>
     fs_st p L D W m sb ics h (taken sb (unat r) V) (absorb r (absorb (BBLOCK r sb) bl)) t)"
proof -
  have "the_sb s = sb" using s by (simp add: fs_st_def)
  moreover have "runs (balloc_loop 1 (map (\<lambda>k. k * BPB) [0..<(unat (sb_size sb) + BPB - 1) div BPB])) s
    (\<lambda>r t. unat r < unat (sb_size sb) \<and> \<not> in_use V sb (unat r) \<and>
     fs_st p L D W m sb ics h (taken sb (unat r) V) (absorb r (absorb (BBLOCK r sb) bl)) t)"
    using assms map_count [OF BPB_pos, of _ "unat (sb_size sb)"] by (intro balloc_loop_runs [OF s sb h r]) auto
  ultimately show ?thesis by (simp add: balloc_def runs_bnd runs_gets)
qed

text \<open>A full disk is a panic.\<close>

lemma balloc_loop_full:
  assumes "fs_st p L D W m sb ics Map.empty V bl s" and sb: "sb_ok L (length D) sb" and "length bl < NBUF"
    and b: "\<forall>k \<in> set ks. k * BPB < unat (sb_size sb)" "\<forall>b < unat (sb_size sb). in_use V sb b"
  shows "balloc_loop 1 (map (\<lambda>k. k * BPB) ks) s = Panic ''balloc: out of blocks''"
  using assms(1) b(1)
proof (induction ks arbitrary: s)
  case Nil
  then show ?case by (simp add: panic_def)
next
  case (Cons k ks)
  let ?N = "unat (sb_size sb)"
  have k: "k * BPB < ?N" using Cons.prems(2) by simp
  have N: "?N < 2 ^ 31" using sb by (simp add: sb_ok_def)
  have u: "unat (of_nat (k * BPB) :: uint) = k * BPB" using N k by (intro unat_of_nat32) simp
  note bb = BBLOCK_map_block [OF sb, of "of_nat (k * BPB)", unfolded u, OF k]
  have none: "find (\<lambda>bi. k * BPB + bi < ?N \<and> V (map_block sb (k * BPB)) ! (bi div 8) AND bit_mask bi = 0) [0..<BPB] = None"
    unfolding find_None_iff
  proof (intro notI, elim exE conjE)
    fix bi assume "bi \<in> set [0..<BPB]" "k * BPB + bi < ?N" "V (map_block sb (k * BPB)) ! (bi div 8) AND bit_mask bi = 0"
    then show False using b(2) by (auto simp: in_use_def map_block_def dest!: spec [of _ "k * BPB + bi"])
  qed
  have sbs: "the_sb s = sb" using Cons.prems(1) by (simp add: fs_st_def)
  have "bnd (bread 1 (BBLOCK (of_nat (k * BPB)) sb)) (\<lambda>bp. bnd (buf_data bp) (\<lambda>d.
     case find (\<lambda>bi. k * BPB + bi < ?N \<and> d ! (bi div 8) AND bit_mask bi = 0) [0..<BPB] of
       Some bi \<Rightarrow> sq (upd_data bp (\<lambda>d. d[bi div 8 := d ! (bi div 8) OR bit_mask bi]))
         (sq (log_write bp) (sq (brelse bp) (sq (bzero 1 (of_nat (k * BPB + bi))) (ret (of_nat (k * BPB + bi))))))
     | None \<Rightarrow> sq (brelse bp) (balloc_loop 1 (map (\<lambda>k. k * BPB) ks)))) s = Panic ''balloc: out of blocks''"
    using Cons.prems(1)
  proof (rule tx.with_block_panic)
    fix i t
    assume i: "(Map.empty :: nat \<Rightarrow> nat option) i = None" and t: "fs_st p L D W m sb ics [i \<mapsto> unat (BBLOCK (of_nat (k * BPB)) sb)] V bl t"
      and g: "data (buf_at i t) = V (unat (BBLOCK (of_nat (k * BPB)) sb))"
      and c: "unat (BBLOCK (of_nat (k * BPB)) sb) \<in> unat ` set bl \<or> V (unat (BBLOCK (of_nat (k * BPB)) sb)) = D ! unat (BBLOCK (of_nat (k * BPB)) sb)"
    have "sq (brelse i) (balloc_loop 1 (map (\<lambda>k. k * BPB) ks)) t = Panic ''balloc: out of blocks''"
      using t i c by (rule tx.release_block_panic) (use Cons in auto)
    then show "bnd (buf_data i) (\<lambda>d. case find (\<lambda>bi. k * BPB + bi < ?N \<and> d ! (bi div 8) AND bit_mask bi = 0) [0..<BPB] of
       Some bi \<Rightarrow> sq (upd_data i (\<lambda>d. d[bi div 8 := d ! (bi div 8) OR bit_mask bi]))
         (sq (log_write i) (sq (brelse i) (sq (bzero 1 (of_nat (k * BPB + bi))) (ret (of_nat (k * BPB + bi))))))
     | None \<Rightarrow> sq (brelse i) (balloc_loop 1 (map (\<lambda>k. k * BPB) ks))) t = Panic ''balloc: out of blocks''"
      using g none bb(1) by (simp add: bnd_def gets_def)
  qed (use bb assms(3) in auto)
  then show ?case unfolding list.map balloc_loop.simps bnd_gets sbs .
qed

lemma balloc_full:
  assumes "fs_st p L D W m sb ics Map.empty V bl s" "sb_ok L (length D) sb" "length bl < NBUF" "\<forall>b < unat (sb_size sb). in_use V sb b"
  shows "balloc 1 s = Panic ''balloc: out of blocks''"
proof -
  have "the_sb s = sb" using assms(1) by (simp add: fs_st_def)
  then show ?thesis
    using balloc_loop_full [OF assms(1-3) _ assms(4), of "[0..<(unat (sb_size sb) + BPB - 1) div BPB]"] map_count(1) [OF BPB_pos, of _ "unat (sb_size sb)"]
    by (simp add: balloc_def bnd_gets)
qed


subsection \<open>Freeing a block\<close>

lemma fs_st_the_sb: "fs_st p L D W m sb ics h V bl s \<Longrightarrow> fs_st p L D W m sb ics h V bl (s\<lparr>the_sb := sb\<rparr>)"
  by (cases s) (simp add: fs_st_def)

lemma readsb_runs:
  assumes s: "fs_st p L D W m sb ics h V bl s" and b: "1 < length D" "1 \<notin> ran h" "card (ran h) + length bl < NBUF"
    and K: "\<And>u. fs_st p L D W m sb ics h V bl u \<Longrightarrow> runs (K (dec_superblock (V 1))) u Q"
  shows "runs (bnd (readsb 1) K) s Q"
proof -
  have "runs (readsb 1) s (\<lambda>r t. r = dec_superblock (V 1) \<and> fs_st p L D W m sb ics h V bl t)"
    unfolding readsb_def of_int_1 using s
  proof (rule tx.with_block)
    fix i t
    assume t: "h i = None" "fs_st p L D W m sb ics (h(i \<mapsto> unat (1 :: uint))) V bl t" "data (buf_at i t) = V (unat (1 :: uint))"
      "unat (1 :: uint) \<in> unat ` set bl \<or> V (unat (1 :: uint)) = D ! unat (1 :: uint)"
    show "runs (bnd (buf_data i) (\<lambda>d. sq (brelse i) (ret (dec_superblock d)))) t (\<lambda>r t. r = dec_superblock (V 1) \<and> fs_st p L D W m sb ics h V bl t)"
      unfolding runs_bnd runs_gets t(3) by (rule tx.release_block [OF t(2,1,4)]) (simp add: runs_ret)
  qed (use b in auto)
  then show ?thesis unfolding runs_bnd by (rule runs_weaken) (use K in auto)
qed

text \<open>The handles a caller may hold: neither the super block nor a block of the free map.\<close>

definition outside_map :: "superblock \<Rightarrow> (nat \<Rightarrow> nat option) \<Rightarrow> bool" where
  "outside_map sb h \<longleftrightarrow> 1 \<notin> ran h \<and> (\<forall>c < unat (sb_size sb). map_block sb c \<notin> ran h)"

lemma bfree_runs:
  assumes s: "fs_st p L D W m sb ics h V bl s" and sb: "sb_ok L (length D) sb" "dec_superblock (V 1) = sb"
    and h: "outside_map sb h" and r: "card (ran h) + length bl < NBUF" "length bl < log_room L"
    and b: "unat b < unat (sb_size sb)" "in_use V sb (unat b)"
  shows "runs (bfree 1 b) s (\<lambda>_. fs_st p L D W m sb ics h (unmark sb (unat b) V) (absorb (BBLOCK b sb) bl))"
proof -
  note bb = BBLOCK_map_block [OF sb(1) b(1)]
  let ?bi = "unat b mod BPB" and ?Q = "\<lambda>_. fs_st p L D W m sb ics h (unmark sb (unat b) V) (absorb (BBLOCK b sb) bl)"
  have one: "sint (1 :: uint) = 1" by simp
  have "1 < length D" using sb(1) unfolding sb_ok_def data_start_def by linarith
  moreover have "runs (bnd (bread 1 (BBLOCK b sb)) (\<lambda>bp. bnd (buf_data bp) (\<lambda>d.
     if d ! (?bi div 8) AND bit_mask ?bi = 0 then panic ''freeing free block''
     else sq (upd_data bp (\<lambda>d. d[?bi div 8 := d ! (?bi div 8) AND NOT (bit_mask ?bi)])) (sq (log_write bp) (brelse bp))))) u ?Q"
    if "fs_st p L D W m sb ics h V bl u" for u
    using that
  proof (rule tx.with_block)
    fix i t
    assume i: "h i = None" and t: "fs_st p L D W m sb ics (h(i \<mapsto> unat (BBLOCK b sb))) V bl t"
      and g: "data (buf_at i t) = V (unat (BBLOCK b sb))" "length (V (unat (BBLOCK b sb))) = BSIZE"
    have "runs (sq (upd_data i (\<lambda>d. d[?bi div 8 := d ! (?bi div 8) AND NOT (bit_mask ?bi)])) (sq (log_write i) (brelse i))) t ?Q"
      using t i by (rule tx_update_last) (use g bb r in \<open>auto simp: unmark_def\<close>)
    then show "runs (bnd (buf_data i) (\<lambda>d. if d ! (?bi div 8) AND bit_mask ?bi = 0 then panic ''freeing free block''
     else sq (upd_data i (\<lambda>d. d[?bi div 8 := d ! (?bi div 8) AND NOT (bit_mask ?bi)])) (sq (log_write i) (brelse i)))) t ?Q"
      using b(2) g(1) bb(1) by (simp add: runs_bnd runs_gets in_use_def)
  qed (use bb b h r in \<open>auto simp: outside_map_def\<close>)
  ultimately show ?thesis
    unfolding bfree_def one Let_def using s h r
    by (intro readsb_runs) (auto simp: outside_map_def runs_sq runs_modify sb(2) [unfolded One_nat_def] fs_st_the_sb)
qed


lemma fs_block_length: "fs_st p L D W m sb ics h V bl s \<Longrightarrow> b < length D \<Longrightarrow> length (V b) = BSIZE"
proof -
  assume s: "fs_st p L D W m sb ics h V bl s" and b: "b < length D"
  then have c: "cache_st p h V D W (unat ` set bl) s" by (simp add: fs_st_def txn_st_def log_st_def)
  note C = cache_stD [OF c]
  have "length (blk s b) = BSIZE"
  proof (cases "\<exists>j. caches j b s \<and> b_valid (buf_at j s)")
    case True
    then obtain j where j: "caches j b s" "b_valid (buf_at j s)" by blast
    then have "blk s b = data (buf_at j s)" using blk_hit [OF C(1)] by simp
    then show ?thesis using bcD(5) [OF C(1), of j] j by (simp add: buf_inv_def caches_def)
  next
    case False
    then have "blk s b = memdisk s ! b" by (intro blk_eqI [OF C(1)]) auto
    then show ?thesis using bcD(7) [OF C(1)] b C(4) by simp
  qed
  then show ?thesis using C(3) by simp
qed

lemma taken_facts:
  assumes "fs_st p L D W m sb ics h V bl s" "sb_ok L (length D) sb" "bitmap_ok V sb" "b < unat (sb_size sb)" "\<not> in_use V sb b"
  shows "taken sb b V b = replicate BSIZE 0"
    "c \<noteq> b \<Longrightarrow> c \<noteq> map_block sb b \<Longrightarrow> taken sb b V c = V c" "unmark sb b (taken sb b V) = V(b := replicate BSIZE 0)"
    "c < unat (sb_size sb) \<Longrightarrow> in_use (taken sb b V) sb c \<longleftrightarrow> c = b \<or> in_use V sb c" "bitmap_ok (taken sb b V) sb"
proof -
  have d: "map_block sb b < data_start sb" using assms(4) by (rule map_block_data)
  then have l: "length (V (map_block sb b)) = BSIZE"
    using assms(1,2) by (intro fs_block_length) (auto simp: sb_ok_def)
  note fb = free_block [OF assms(2,3,5,4)]
  show u: "in_use (taken sb b V) sb c \<longleftrightarrow> c = b \<or> in_use V sb c" if "c < unat (sb_size sb)" for c
  proof -
    have "map_block sb c \<noteq> b" using map_block_data [OF that] fb(1) by simp
    then have "in_use (taken sb b V) sb c = in_use (mark sb b V) sb c" by (simp add: in_use_def taken_def)
    then show ?thesis using in_use_mark [of V sb b, OF l] by simp
  qed
  show "bitmap_ok (taken sb b V) sb" using u assms(2,3) by (auto simp: bitmap_ok_def sb_ok_def)
  show "taken sb b V b = replicate BSIZE 0" by (simp add: taken_def)
  show "c \<noteq> b \<Longrightarrow> c \<noteq> map_block sb b \<Longrightarrow> taken sb b V c = V c" by (simp add: taken_def mark_def)
  have ne: "map_block sb b \<noteq> b" using d fb(1) by simp
  then have "unmark sb b (taken sb b V) = (unmark sb b (mark sb b V))(b := replicate BSIZE 0)"
    by (simp add: unmark_def taken_def fun_upd_twist)
  then show "unmark sb b (taken sb b V) = V(b := replicate BSIZE 0)" using unmark_mark [of V sb b, OF l assms(5)] by simp
qed

text \<open>C6. The block allocator hands out a free block: when the free map has one, \<^verbatim>\<open>balloc\<close> returns a block
  outside the log and the metadata that was not in use, cleared, marks exactly this block and changes nothing
  else; \<^verbatim>\<open>bfree\<close> takes the mark away again. On a full disk it panics.\<close>

theorem block_allocator:
  assumes s: "fs_st p L D W m sb ics Map.empty V bl s" and sb: "sb_ok L (length D) sb" "bitmap_ok V sb" "dec_superblock (V 1) = sb"
    and r: "length bl + 3 < log_room L" "length bl + 3 < NBUF"
  shows "if \<exists>b < unat (sb_size sb). \<not> in_use V sb b
    then runs (balloc 1) s (\<lambda>b t. data_start sb \<le> unat b \<and> unat b < unat (sb_size sb) \<and> \<not> in_use V sb (unat b) \<and>
      (\<exists>V' bl'. fs_st p L D W m sb ics Map.empty V' bl' t \<and> V' (unat b) = replicate BSIZE 0 \<and>
        (\<forall>c < unat (sb_size sb). in_use V' sb c \<longleftrightarrow> c = unat b \<or> in_use V sb c) \<and>
        (\<forall>c. c \<noteq> unat b \<and> c \<noteq> map_block sb (unat b) \<longrightarrow> V' c = V c)) \<and>
      runs (bfree 1 b) t (\<lambda>_ u. \<exists>bl'. fs_st p L D W m sb ics Map.empty (V(unat b := replicate BSIZE 0)) bl' u))
    else balloc 1 s = Panic ''balloc: out of blocks''"
proof (cases "\<exists>b < unat (sb_size sb). \<not> in_use V sb b")
  case True
  have "runs (balloc 1) s (\<lambda>b t. unat b < unat (sb_size sb) \<and> \<not> in_use V sb (unat b) \<and>
     fs_st p L D W m sb ics Map.empty (taken sb (unat b) V) (absorb b (absorb (BBLOCK b sb) bl)) t)"
    using r True by (intro balloc_runs [OF s sb(1,2)]) auto
  then show ?thesis unfolding if_P [OF True]
  proof (rule runs_weaken, elim conjE)
    fix b t assume b: "unat b < unat (sb_size sb)" "\<not> in_use V sb (unat b)"
      and t: "fs_st p L D W m sb ics Map.empty (taken sb (unat b) V) (absorb b (absorb (BBLOCK b sb) bl)) t"
    note tf = taken_facts [OF s sb(1,2) b]
    have fb: "data_start sb \<le> unat b" by (rule free_block [OF sb(1,2) b(2,1)])
    have mb: "1 \<noteq> map_block sb (unat b)" "1 \<noteq> unat b" using sb(1) fb unfolding sb_ok_def map_block_def data_start_def by linarith+
    have len: "length (absorb b (absorb (BBLOCK b sb) bl)) \<le> length bl + 2"
      using length_absorb(2) [of b "absorb (BBLOCK b sb) bl"] length_absorb(2) [of "BBLOCK b sb" bl] by simp
    have "runs (bfree 1 b) t (\<lambda>_. fs_st p L D W m sb ics Map.empty (unmark sb (unat b) (taken sb (unat b) V))
        (absorb (BBLOCK b sb) (absorb b (absorb (BBLOCK b sb) bl))))"
      using sb tf(2) [of 1] tf(4) [of "unat b"] mb b r len by (intro bfree_runs [OF t]) (auto simp: outside_map_def)
    then have "runs (bfree 1 b) t (\<lambda>_ u. \<exists>bl'. fs_st p L D W m sb ics Map.empty (V(unat b := replicate BSIZE 0)) bl' u)"
      unfolding tf(3) by (rule runs_weaken) blast
    then show "data_start sb \<le> unat b \<and> unat b < unat (sb_size sb) \<and> \<not> in_use V sb (unat b) \<and>
      (\<exists>V' bl'. fs_st p L D W m sb ics Map.empty V' bl' t \<and> V' (unat b) = replicate BSIZE 0 \<and>
        (\<forall>c < unat (sb_size sb). in_use V' sb c \<longleftrightarrow> c = unat b \<or> in_use V sb c) \<and>
        (\<forall>c. c \<noteq> unat b \<and> c \<noteq> map_block sb (unat b) \<longrightarrow> V' c = V c)) \<and>
      runs (bfree 1 b) t (\<lambda>_ u. \<exists>bl'. fs_st p L D W m sb ics Map.empty (V(unat b := replicate BSIZE 0)) bl' u)"
      using b t tf(1,2,4) fb by blast
  qed
next
  case False
  then show ?thesis using balloc_full [OF s sb(1)] r by auto
qed


text \<open>A small file system: 40 blocks, a log of 30 blocks from block 2 on, inodes at 32, the free map at 34, and five
  free blocks from 35 on.\<close>

definition fs_map :: "uchar list" where
  "fs_map = replicate 4 255 @ [7] @ replicate 507 0"

definition fs_disk :: "uchar list list" where
  "fs_disk = (replicate 40 (replicate 512 0))[1 := put32 0 40 (put32 4 5 (put32 8 8 (put32 12 30 (put32 16 2 (put32 20 32 (put32 24 34 (replicate 512 0))))))),
     34 := fs_map]"

definition fs_sb :: superblock where
  "fs_sb = \<lparr>sb_size = 40, sb_nblocks = 5, sb_ninodes = 8, sb_nlog = 30, sb_logstart = 2, sb_inodestart = 32, sb_bmapstart = 34\<rparr>"

definition fs_log :: log where "fs_log = boot_log\<lparr>outstanding := 1\<rparr>"

definition fs_boot :: "inode list \<Rightarrow> 'm \<Rightarrow> 'm kino_scheme" where
  "fs_boot ics m = bio_boot fs_disk \<lparr>the_log = fs_log,
     pipes = (\<lambda>_. \<lparr>pdata = [], nread = 0, nwrite = 0, readopen = False, writeopen = False\<rparr>), icache = ics, the_sb = fs_sb, \<dots> = m\<rparr>"

lemma fs_disk_facts:
  "length fs_disk = 40" "\<forall>x \<in> set fs_disk. length x = BSIZE" "dec_superblock (fs_disk ! 1) = fs_sb" "fs_disk ! 34 = fs_map"
proof -
  show "length fs_disk = 40" by (simp add: fs_disk_def)
  let ?s = "put32 0 40 (put32 4 5 (put32 8 8 (put32 12 30 (put32 16 2 (put32 20 32 (put32 24 34 (replicate 512 0)))))))"
  have "set fs_disk \<subseteq> insert fs_map (insert ?s (set (replicate 40 (replicate 512 0))))"
    unfolding fs_disk_def by (rule subset_trans [OF set_update_subset_insert insert_mono [OF set_update_subset_insert]])
  then show "\<forall>x \<in> set fs_disk. length x = BSIZE" by (auto simp: BSIZE_def fs_map_def)
  have "fs_disk ! 1 = ?s" by (simp add: fs_disk_def)
  then show "dec_superblock (fs_disk ! 1) = fs_sb" by (simp add: dec_superblock_def fs_sb_def get_put32_other)
  show "fs_disk ! 34 = fs_map" by (simp add: fs_disk_def)
qed

lemma fs_disk_sb: "sb_ok fs_log 40 fs_sb" "data_start fs_sb = 35" "b < 40 \<Longrightarrow> in_use (\<lambda>b. fs_disk ! b) fs_sb b \<longleftrightarrow> b < 35"
  "bitmap_ok (\<lambda>b. fs_disk ! b) fs_sb"
proof -
  show d: "data_start fs_sb = 35" by (simp add: data_start_def fs_sb_def BPB_def BSIZE_def)
  show "sb_ok fs_log 40 fs_sb" using d
    by (simp add: sb_ok_def fs_log_def boot_log_def fs_sb_def IPB_def BSIZE_def sizeof_dinode_def NDIRECT_def)
  have "list_all (\<lambda>b. (fs_map ! (b div 8) AND bit_mask b \<noteq> 0) = (b < 35)) [0..<40]" by code_simp
  then have all: "(fs_map ! (b div 8) AND bit_mask b \<noteq> 0) = (b < 35)" if "b < 40" for b using that by (simp add: list_all_iff)
  show use: "in_use (\<lambda>b. fs_disk ! b) fs_sb b \<longleftrightarrow> b < 35" if "b < 40" for b
  proof -
    have "map_block fs_sb b = 34" "b mod BPB = b" using that by (simp_all add: map_block_def fs_sb_def BPB_def BSIZE_def)
    then show ?thesis using all [OF that] fs_disk_facts(4) by (simp add: in_use_def)
  qed
  show "bitmap_ok (\<lambda>b. fs_disk ! b) fs_sb" using use d by (simp add: bitmap_ok_def)
qed

lemma fs_boot_state:
  obtains t where "binit (fs_boot ics m) = Done () t" "fs_st 0 fs_log fs_disk [] m fs_sb ics Map.empty (\<lambda>b. fs_disk ! b) [] t"
proof -
  let ?m = "\<lparr>the_log = fs_log, pipes = (\<lambda>_. \<lparr>pdata = [], nread = 0, nwrite = 0, readopen = False, writeopen = False\<rparr>), icache = ics, the_sb = fs_sb, \<dots> = m\<rparr>"
  obtain t where t: "binit (bio_boot fs_disk ?m) = Done () t" "cache_st 0 Map.empty (\<lambda>b. fs_disk ! b) fs_disk [] {} t" "kbio.more t = ?m"
    using bio_boot_cache [OF fs_disk_facts(2), of ?m] by metis
  have fit: "log_fits fs_log [] (length fs_disk)"
    by (simp add: log_fits_def fs_log_def boot_log_def fs_disk_facts LOGSIZE_def MAXOPBLOCKS_def)
  have "the_log t = fs_log" "icache t = ics" "the_sb t = fs_sb" "kino.more t = m" using t(3) by (cases t; simp)+
  then have "fs_st 0 fs_log fs_disk [] m fs_sb ics Map.empty (\<lambda>b. fs_disk ! b) [] t"
    using t(2) fit lh_of_same [OF fit] by (simp add: fs_st_def txn_st_def log_st_def fs_log_def)
  then show thesis using that t(1) by (simp add: fs_boot_def)
qed

theorem block_allocator_witness:
  "\<exists>t :: kino. binit (fs_boot [] ()) = Done () t \<and>
    runs (balloc 1) t (\<lambda>b u. 35 \<le> unat b \<and> unat b < 40 \<and> runs (bfree 1 b) u (\<lambda>_ _. True))"
proof -
  obtain t where t: "binit (fs_boot [] ()) = Done () t" "fs_st 0 fs_log fs_disk [] () fs_sb [] Map.empty (\<lambda>b. fs_disk ! b) [] t"
    by (rule fs_boot_state)
  have n: "unat (sb_size fs_sb) = 40" by (simp add: fs_sb_def)
  have "\<exists>b < unat (sb_size fs_sb). \<not> in_use (\<lambda>b. fs_disk ! b) fs_sb b" unfolding n using fs_disk_sb(3) [of 35] by (intro exI [of _ 35]) simp
  moreover have "sb_ok fs_log (length fs_disk) fs_sb" using fs_disk_sb(1) by (simp add: fs_disk_facts)
  moreover have "0 + 3 < log_room fs_log" "0 + 3 < NBUF" by (simp_all add: log_room_def fs_log_def boot_log_def NBUF_def MAXOPBLOCKS_def)
  ultimately have "runs (balloc 1) t (\<lambda>b u. 35 \<le> unat b \<and> unat b < 40 \<and> runs (bfree 1 b) u (\<lambda>_ _. True))"
    using block_allocator [OF t(2) _ fs_disk_sb(4) fs_disk_facts(3)] fs_disk_sb(2) n
    by (simp add: if_P) (auto elim!: runs_weaken)
  with t(1) show ?thesis by blast
qed

end
