(* ===== verification/Contents.thy ===== *)
theory Contents
  imports Blocks Fs
begin

text \<open>
  The contents of files. The in-memory inode and the blocks on the disk represent a sequence of bytes; this
  theory shows that \<^verbatim>\<open>bmap\<close>, \<^verbatim>\<open>readi\<close> and \<^verbatim>\<open>writei\<close> of \<^verbatim>\<open>src/fs.c\<close> implement reading and overwriting of that
  sequence inside a transaction, allocating blocks as the file grows.
\<close>

subsection \<open>The blocks of a file\<close>

abbreviation ind :: "inode \<Rightarrow> uint" where "ind x \<equiv> addrs x ! NDIRECT"

definition fblock :: "(nat \<Rightarrow> uchar list) \<Rightarrow> inode \<Rightarrow> nat \<Rightarrow> uint" where
  "fblock V x n = (if n < NDIRECT then addrs x ! n
     else if ind x = 0 then 0 else get32 (V (unat (ind x))) (4 * (n - NDIRECT)))"

definition own :: "(nat \<Rightarrow> uchar list) \<Rightarrow> inode \<Rightarrow> nat set" where
  "own V x = (\<lambda>n. unat (fblock V x n)) ` {n. n < MAXFILE \<and> fblock V x n \<noteq> 0} \<union> (if ind x = 0 then {} else {unat (ind x)})"

definition data_used :: "(nat \<Rightarrow> uchar list) \<Rightarrow> superblock \<Rightarrow> nat \<Rightarrow> bool" where
  "data_used V sb b \<longleftrightarrow> data_start sb \<le> b \<and> b < unat (sb_size sb) \<and> in_use V sb b"

text \<open>The blocks of a file are data blocks in use, and no block serves twice.\<close>

definition file_wf :: "(nat \<Rightarrow> uchar list) \<Rightarrow> superblock \<Rightarrow> inode \<Rightarrow> bool" where
  "file_wf V sb x \<longleftrightarrow> length (addrs x) = NDIRECT + 1 \<and> (\<forall>c \<in> own V x. data_used V sb c \<and> length (V c) = BSIZE) \<and>
     (ind x \<noteq> 0 \<longrightarrow> (\<forall>n < MAXFILE. fblock V x n \<noteq> ind x)) \<and>
     (\<forall>n < MAXFILE. \<forall>k < MAXFILE. fblock V x n = fblock V x k \<longrightarrow> fblock V x n \<noteq> 0 \<longrightarrow> n = k)"

lemma NDIRECT_bounds: "NDIRECT < MAXFILE" "n < MAXFILE \<Longrightarrow> n - NDIRECT < NINDIRECT \<or> n < NDIRECT" "4 * NINDIRECT = BSIZE"
  by (auto simp: MAXFILE_def NINDIRECT_def BSIZE_def)

lemma own_fblock: "n < MAXFILE \<Longrightarrow> fblock V x n \<noteq> 0 \<Longrightarrow> unat (fblock V x n) \<in> own V x"
  by (auto simp: own_def)

lemma own_ind: "ind x \<noteq> 0 \<Longrightarrow> unat (ind x) \<in> own V x"
  by (simp add: own_def)

lemma own_eq:
  "(\<And>n. n < MAXFILE \<Longrightarrow> fblock V x n = f n) \<Longrightarrow> own V x = (\<lambda>n. unat (f n)) ` {n. n < MAXFILE \<and> f n \<noteq> 0} \<union> (if ind x = 0 then {} else {unat (ind x)})"
  unfolding own_def by (auto simp: image_iff)

lemma image_upd: "f n = (0 :: uint) \<Longrightarrow> b \<noteq> 0 \<Longrightarrow> n < N \<Longrightarrow>
  (\<lambda>k. unat ((f(n := b)) k)) ` {k. k < N \<and> (f(n := b)) k \<noteq> 0} = insert (unat b) ((\<lambda>k. unat (f k)) ` {k. k < N \<and> f k \<noteq> 0})"
  by (auto simp: image_iff)

lemma fblock_cong: "(ind x \<noteq> 0 \<Longrightarrow> V' (unat (ind x)) = V (unat (ind x))) \<Longrightarrow> fblock V' x n = fblock V x n"
  by (simp add: fblock_def)

lemma own_cong: "(ind x \<noteq> 0 \<Longrightarrow> V' (unat (ind x)) = V (unat (ind x))) \<Longrightarrow> own V' x = own V x"
  by (simp add: own_def fblock_cong [of x V' V])

lemma in_use_cong: "V' (map_block sb c) = V (map_block sb c) \<Longrightarrow> in_use V' sb c = in_use V sb c"
  by (simp add: in_use_def)

lemma data_used_not_map: "data_used V sb b \<Longrightarrow> c < unat (sb_size sb) \<Longrightarrow> map_block sb c \<noteq> b"
  using map_block_data [of c sb] by (auto simp: data_used_def)

lemma data_used_upd: "data_used V sb b \<Longrightarrow> data_used (V(b := d)) sb c = data_used V sb c"
  using data_used_not_map [of V sb b c] by (auto simp: data_used_def in_use_def)

text \<open>Changing a data block of the file itself.\<close>

lemma file_wf_write:
  assumes "file_wf V sb x" "n < MAXFILE" "fblock V x n \<noteq> 0" "length d = BSIZE"
  shows "file_wf (V(unat (fblock V x n) := d)) sb x" "fblock (V(unat (fblock V x n) := d)) x = fblock V x"
    "own (V(unat (fblock V x n) := d)) x = own V x"
proof -
  let ?V = "V(unat (fblock V x n) := d)"
  have i: "ind x \<noteq> 0 \<Longrightarrow> ?V (unat (ind x)) = V (unat (ind x))" using assms by (auto simp: file_wf_def simp flip: word_unat_eq_iff)
  show f: "fblock ?V x = fblock V x" using i by (intro ext fblock_cong)
  show o: "own ?V x = own V x" using i by (rule own_cong)
  have "data_used V sb (unat (fblock V x n))" using assms own_fblock by (auto simp: file_wf_def)
  then have "data_used ?V sb c = data_used V sb c" for c by (rule data_used_upd)
  then show "file_wf ?V sb x" using assms by (simp add: file_wf_def f o)
qed

text \<open>Taking a free block changes nothing of the file.\<close>

lemma file_wf_taken:
  assumes s: "fs_st p L D W m sb ics h V bl s" "sb_ok L (length D) sb" "bitmap_ok V sb" "b < unat (sb_size sb)" "\<not> in_use V sb b"
    and x: "file_wf V sb x"
  shows "file_wf (taken sb b V) sb x" "fblock (taken sb b V) x = fblock V x" "own (taken sb b V) x = own V x"
    "b \<notin> own V x" "data_used (taken sb b V) sb b" "\<And>c. c \<in> own V x \<Longrightarrow> taken sb b V c = V c"
proof -
  note tf = taken_facts [OF s]
  have ow: "data_used V sb c" if "c \<in> own V x" for c using x that by (auto simp: file_wf_def)
  show b: "b \<notin> own V x" using ow s(5) by (auto simp: data_used_def)
  show same: "taken sb b V c = V c" if "c \<in> own V x" for c
    using tf(2) [of c] b that data_used_not_map [OF ow [OF that] s(4)] by auto
  then have i: "ind x \<noteq> 0 \<Longrightarrow> taken sb b V (unat (ind x)) = V (unat (ind x))" using own_ind by blast
  show f: "fblock (taken sb b V) x = fblock V x" using i by (intro ext fblock_cong)
  show o: "own (taken sb b V) x = own V x" using i by (rule own_cong)
  have "data_used (taken sb b V) sb c" if "data_used V sb c" for c using that tf(4) [of c] by (auto simp: data_used_def)
  then show "file_wf (taken sb b V) sb x" using x same by (auto simp: file_wf_def f o)
  show "data_used (taken sb b V) sb b" using tf(4) [OF s(4)] s(4) free_block(1) [OF s(2,3,5,4)] by (simp add: data_used_def)
qed

text \<open>Attaching a new block: directly, as the indirect block, or through the indirect block.\<close>

lemma attach_direct:
  assumes "file_wf V sb x" "n < NDIRECT" "addrs x ! n = 0" "data_used V sb (unat b)" "unat b \<notin> own V x" "b \<noteq> 0" "length (V (unat b)) = BSIZE"
  defines "y \<equiv> x\<lparr>addrs := (addrs x)[n := b]\<rparr>"
  shows "file_wf V sb y" "fblock V y = (fblock V x)(n := b)" "own V y = insert (unat b) (own V x)"
proof -
  have l: "n < length (addrs x)" "ind y = ind x" using assms(1,2) by (auto simp: file_wf_def y_def)
  show f: "fblock V y = (fblock V x)(n := b)" using assms(2) l by (auto simp: fblock_def y_def fun_eq_iff nth_list_update)
  have z: "fblock V x n = 0" "n < MAXFILE" using assms(2,3) NDIRECT_bounds(1) by (simp_all add: fblock_def)
  show o: "own V y = insert (unat b) (own V x)" 
    using image_upd [of "fblock V x" n b MAXFILE] assms(6) z unfolding own_def f l(2) by simp
  have nb: "fblock V x k \<noteq> b" if "k < MAXFILE" for k using assms(5,6) own_fblock [OF that, of V x] by auto
  have ni: "ind x \<noteq> 0 \<Longrightarrow> ind x \<noteq> b" using assms(5) own_ind [of x V] by auto
  have "length (addrs y) = NDIRECT + 1" using assms(1) by (simp add: y_def file_wf_def)
  then show "file_wf V sb y" using assms(1,4,7) z nb ni unfolding file_wf_def f o l(2) by (auto simp: fun_upd_def)
qed

lemma get32_zeros: "get32 (replicate BSIZE 0) k = 0" if "k + 4 \<le> BSIZE"
  using that by (simp add: get32_def get_bytes_def dec32_def)

lemma attach_indirect:
  assumes "file_wf V sb x" "ind x = 0" "data_used V sb (unat b)" "unat b \<notin> own V x" "b \<noteq> 0" "V (unat b) = replicate BSIZE 0"
  defines "y \<equiv> x\<lparr>addrs := (addrs x)[NDIRECT := b]\<rparr>"
  shows "file_wf V sb y" "n < MAXFILE \<Longrightarrow> fblock V y n = fblock V x n" "own V y = insert (unat b) (own V x)" "ind y = b"
proof -
  have l: "NDIRECT < length (addrs x)" using assms(1) by (simp add: file_wf_def)
  then show i: "ind y = b" by (simp add: y_def)
  show f: "fblock V y n = fblock V x n" if "n < MAXFILE" for n
  proof (cases "n < NDIRECT")
    case True
    then show ?thesis by (simp add: fblock_def y_def)
  next
    case False
    then have "4 * (n - NDIRECT) + 4 \<le> BSIZE" using that by (simp add: MAXFILE_def NINDIRECT_def BSIZE_def)
    then show ?thesis using False i assms(2,5,6) get32_zeros by (simp add: fblock_def)
  qed
  show o: "own V y = insert (unat b) (own V x)" using assms(2,5) i own_eq [of V y "fblock V x"] f by (simp add: own_def)
  have nb: "fblock V x k \<noteq> b" if "k < MAXFILE" for k using assms(4,5) own_fblock [OF that, of V x] by auto
  have "length (addrs y) = NDIRECT + 1" using assms(1) by (simp add: y_def file_wf_def)
  then show "file_wf V sb y" using assms(1,3,6) nb f unfolding file_wf_def o i by auto
qed

lemma attach_through:
  assumes "file_wf V sb x" "ind x \<noteq> 0" "NDIRECT \<le> n" "n < MAXFILE" "fblock V x n = 0"
    "data_used V sb (unat b)" "unat b \<notin> own V x" "b \<noteq> 0" "length (V (unat b)) = BSIZE"
  defines "V' \<equiv> V(unat (ind x) := put32 (4 * (n - NDIRECT)) b (V (unat (ind x))))"
  shows "file_wf V' sb x" "k < MAXFILE \<Longrightarrow> fblock V' x k = ((fblock V x)(n := b)) k" "own V' x = insert (unat b) (own V x)"
proof -
  have li: "length (V (unat (ind x))) = BSIZE" "data_used V sb (unat (ind x))" using assms(1,2) own_ind [of x V] by (auto simp: file_wf_def)
  have off: "4 * (j - NDIRECT) + 4 \<le> BSIZE" if "NDIRECT \<le> j" "j < MAXFILE" for j
    using that by (simp add: MAXFILE_def NINDIRECT_def BSIZE_def)
  show f: "fblock V' x k = ((fblock V x)(n := b)) k" if k: "k < MAXFILE" for k
  proof (cases "k < NDIRECT \<or> k = n")
    case True
    then show ?thesis using assms(2,3,4) li off [of n] by (auto simp: fblock_def V'_def)
  next
    case False
    then have "get32 (put32 (4 * (n - NDIRECT)) b (V (unat (ind x)))) (4 * (k - NDIRECT)) = get32 (V (unat (ind x))) (4 * (k - NDIRECT))"
      using off [of n] off [of k] k assms(3,4) li by (intro get_put32_other) auto
    then show ?thesis using False assms(2) by (simp add: fblock_def V'_def)
  qed
  show o: "own V' x = insert (unat b) (own V x)" 
    using image_upd [of "fblock V x" n b MAXFILE] assms(2,4,5,8) own_eq [of V' x "(fblock V x)(n := b)"] f by (simp add: own_def insert_commute)
  have nb: "fblock V x k \<noteq> b" if "k < MAXFILE" for k using assms(7,8) own_fblock [OF that, of V x] by auto
  have bi: "ind x \<noteq> b" using assms(2,7) own_ind [of x V] by auto
  have du: "data_used V' sb c = data_used V sb c" for c unfolding V'_def by (rule data_used_upd [OF li(2)])
  have "length (V' c) = BSIZE" if "length (V c) = BSIZE \<or> c = unat (ind x)" for c
    using that li off [OF assms(3,4)] by (auto simp: V'_def)
  then show "file_wf V' sb x" using assms(1,4,5,6,9) nb bi f unfolding file_wf_def o du by (auto simp: fun_upd_def)
qed


subsection \<open>Growing a file\<close>

definition nfree :: "superblock \<Rightarrow> (nat \<Rightarrow> uchar list) \<Rightarrow> nat" where
  "nfree sb V = card {b. b < unat (sb_size sb) \<and> \<not> in_use V sb b}"

text \<open>What an operation on a file may change: the file keeps its blocks and may take free ones; the free map
  only loses free blocks; all other blocks stay.\<close>

definition grown :: "superblock \<Rightarrow> (nat \<Rightarrow> uchar list) \<Rightarrow> inode \<Rightarrow> (nat \<Rightarrow> uchar list) \<Rightarrow> inode \<Rightarrow> bool" where
  "grown sb V x V' x' \<longleftrightarrow> (\<exists>a. x' = x\<lparr>addrs := a\<rparr>) \<and> own V x \<subseteq> own V' x' \<and> (\<forall>c \<in> own V' x' - own V x. \<not> in_use V sb c) \<and>
     (\<forall>c < unat (sb_size sb). in_use V sb c \<longrightarrow> in_use V' sb c) \<and>
     (\<forall>c. c \<notin> own V' x' \<longrightarrow> (\<forall>k < unat (sb_size sb). c \<noteq> map_block sb k) \<longrightarrow> V' c = V c)"

lemma grown_refl: "grown sb V x V x"
  unfolding grown_def by (auto intro: exI [of _ "addrs x"])

lemma grown_trans:
  assumes "grown sb V x V' x'" "grown sb V' x' V'' x''" "\<forall>c \<in> own V'' x''. c < unat (sb_size sb)"
  shows "grown sb V x V'' x''"
  unfolding grown_def
proof (intro conjI)
  show "\<exists>a. x'' = x\<lparr>addrs := a\<rparr>" using assms(1,2) by (auto simp: grown_def)
  show "own V x \<subseteq> own V'' x''" using assms by (auto simp: grown_def)
  show "\<forall>c \<in> own V'' x'' - own V x. \<not> in_use V sb c" using assms by (fastforce simp: grown_def)
  show "\<forall>c < unat (sb_size sb). in_use V sb c \<longrightarrow> in_use V'' sb c" using assms by (auto simp: grown_def)
  show "\<forall>c. c \<notin> own V'' x'' \<longrightarrow> (\<forall>k < unat (sb_size sb). c \<noteq> map_block sb k) \<longrightarrow> V'' c = V c"
    using assms unfolding grown_def by (metis subsetD)
qed

lemma grown_upd:
  assumes "grown sb V x V1 x1" "c \<in> own V1 x1" "own (V1(c := d)) x1 = own V1 x1" "\<And>k. k < unat (sb_size sb) \<Longrightarrow> map_block sb k \<noteq> c"
  shows "grown sb V x (V1(c := d)) x1"
  unfolding grown_def assms(3)
proof (intro conjI allI impI ballI)
  show "\<exists>a. x1 = x\<lparr>addrs := a\<rparr>" "own V x \<subseteq> own V1 x1" using assms(1) by (simp_all add: grown_def)
  show "\<not> in_use V sb k" if "k \<in> own V1 x1 - own V x" for k using assms(1) that by (simp add: grown_def)
  show "in_use (V1(c := d)) sb k" if "k < unat (sb_size sb)" "in_use V sb k" for k
    using assms(1) assms(4) [OF that(1)] that by (simp add: grown_def in_use_def)
  show "(V1(c := d)) k = V k" if "k \<notin> own V1 x1" "\<forall>j < unat (sb_size sb). k \<noteq> map_block sb j" for k
    using assms(1,2) that by (auto simp: grown_def)
qed

lemma nfree_taken:
  assumes "fs_st p L D W m sb ics h V bl s" "sb_ok L (length D) sb" "bitmap_ok V sb" "b < unat (sb_size sb)" "\<not> in_use V sb b"
  shows "nfree sb V = Suc (nfree sb (taken sb b V))"
proof -
  have "{c. c < unat (sb_size sb) \<and> \<not> in_use (taken sb b V) sb c} = {c. c < unat (sb_size sb) \<and> \<not> in_use V sb c} - {b}"
    using taken_facts(4) [OF assms] by auto
  then show ?thesis using assms(4,5) unfolding nfree_def by (subst card_Suc_Diff1 [of _ b, symmetric]) auto
qed

lemma nfree_upd: "data_used V sb b \<Longrightarrow> nfree sb (V(b := d)) = nfree sb V"
proof -
  assume "data_used V sb b"
  then have "in_use (V(b := d)) sb c = in_use V sb c" if "c < unat (sb_size sb)" for c
    using data_used_not_map [of V sb b c] that by (intro in_use_cong) auto
  then show ?thesis unfolding nfree_def by (intro arg_cong [where f = card]) auto
qed

lemma bitmap_ok_upd: "data_used V sb b \<Longrightarrow> data_start sb \<le> unat (sb_size sb) \<Longrightarrow> bitmap_ok (V(b := d)) sb = bitmap_ok V sb"
proof -
  assume a: "data_used V sb b" "data_start sb \<le> unat (sb_size sb)"
  then have "in_use (V(b := d)) sb c = in_use V sb c" if "c < data_start sb" for c
    using data_used_not_map [of V sb b c] that by (intro in_use_cong) auto
  then show ?thesis by (simp add: bitmap_ok_def)
qed

lemma in_proc_icache [simp]: "in_proc p s \<Longrightarrow> in_proc p (s\<lparr>icache := x\<rparr>)"
  unfolding in_proc_def by simp

lemma fs_st_upd_inode:
  assumes "fs_st p L D W m sb ics h V bl s"
  shows "fs_st p L D W m sb (ics[i := f (ics ! i)]) h V bl (upd_inode i f s)"
proof -
  have c: "cache_st p h V D W (unat ` set bl) s" using assms by (simp add: fs_st_def txn_st_def log_st_def)
  then have "cache_st p h V D W (unat ` set bl) (upd_inode i f s)"
    using bcD(1) [OF cache_stD(1) [OF c]] by (auto simp: upd_inode_def intro: cache_st_cong)
  then show ?thesis using assms by (auto simp: fs_st_def txn_st_def log_st_def upd_inode_def)
qed

text \<open>A block freshly taken for file \<open>x\<close>.\<close>

definition fresh :: "superblock \<Rightarrow> (nat \<Rightarrow> uchar list) \<Rightarrow> inode \<Rightarrow> uint \<Rightarrow> (nat \<Rightarrow> uchar list) \<Rightarrow> bool" where
  "fresh sb V x r V1 \<longleftrightarrow> file_wf V1 sb x \<and> fblock V1 x = fblock V x \<and> own V1 x = own V x \<and> unat r \<notin> own V x \<and> r \<noteq> 0 \<and>
     data_used V1 sb (unat r) \<and> V1 (unat r) = replicate BSIZE 0 \<and> \<not> in_use V sb (unat r) \<and> bitmap_ok V1 sb \<and> nfree sb V = Suc (nfree sb V1) \<and>
     (\<forall>c < unat (sb_size sb). in_use V sb c \<longrightarrow> in_use V1 sb c) \<and>
     (\<forall>c. c \<noteq> unat r \<longrightarrow> (\<forall>k < unat (sb_size sb). c \<noteq> map_block sb k) \<longrightarrow> V1 c = V c) \<and> (\<forall>c \<in> own V x. V1 c = V c)"

lemma balloc_fresh:
  assumes s: "fs_st p L D W m sb ics h V bl s" and sb: "sb_ok L (length D) sb" "bitmap_ok V sb"
    and x: "file_wf V sb x" "ran h \<subseteq> own V x" and f: "0 < nfree sb V"
    and r: "card (ran h) + length bl + 1 < NBUF" "length bl + 1 < log_room L"
  shows "runs (balloc 1) s (\<lambda>r t. \<exists>V1 bl1. fs_st p L D W m sb ics h V1 bl1 t \<and> length bl1 \<le> length bl + 2 \<and> fresh sb V x r V1)"
proof -
  have ow: "data_used V sb c" if "c \<in> own V x" for c using x(1) that by (auto simp: file_wf_def)
  have "{b. b < unat (sb_size sb) \<and> \<not> in_use V sb b} \<noteq> {}" using f unfolding nfree_def by force
  then have ex: "\<exists>b < unat (sb_size sb). \<not> in_use V sb b" by blast
  have "runs (balloc 1) s (\<lambda>r t. unat r < unat (sb_size sb) \<and> \<not> in_use V sb (unat r) \<and>
     fs_st p L D W m sb ics h (taken sb (unat r) V) (absorb r (absorb (BBLOCK r sb) bl)) t)"
  proof (rule balloc_runs [OF s sb _ _ r ex])
    show "map_block sb c \<notin> ran h" if "c < unat (sb_size sb)" for c
      using that x(2) ow data_used_not_map [of V sb _ c] by blast
    show "in_use V sb c" if "c \<in> ran h" for c using that x(2) ow by (auto simp: data_used_def)
  qed
  then show ?thesis
  proof (rule runs_weaken, elim conjE)
    fix r t assume b: "unat r < unat (sb_size sb)" "\<not> in_use V sb (unat r)"
      and t: "fs_st p L D W m sb ics h (taken sb (unat r) V) (absorb r (absorb (BBLOCK r sb) bl)) t"
    note tf = taken_facts [OF s sb b] and ft = file_wf_taken [OF s sb b x(1)]
    have len: "length (absorb r (absorb (BBLOCK r sb) bl)) \<le> length bl + 2"
      using length_absorb(2) [of r "absorb (BBLOCK r sb) bl"] length_absorb(2) [of "BBLOCK r sb" bl] by simp
    have "0 < unat r" using ft(5) by (auto simp: data_used_def data_start_def)
    then have "r \<noteq> 0" by auto
    then have "fresh sb V x r (taken sb (unat r) V)"
      unfolding fresh_def using ft tf nfree_taken [OF s sb b] b by auto
    then show "\<exists>V1 bl1. fs_st p L D W m sb ics h V1 bl1 t \<and> length bl1 \<le> length bl + 2 \<and> fresh sb V x r V1" using t len by blast
  qed
qed


definition mapped :: "nat \<Rightarrow> superblock \<Rightarrow> (nat \<Rightarrow> uchar list) \<Rightarrow> inode \<Rightarrow> nat \<Rightarrow> (nat \<Rightarrow> uchar list) \<Rightarrow> inode \<Rightarrow> uint \<Rightarrow> bool" where
  "mapped j sb V x n V' x' r \<longleftrightarrow> file_wf V' sb x' \<and> bitmap_ok V' sb \<and> grown sb V x V' x' \<and> nfree sb V \<le> nfree sb V' + j \<and> r \<noteq> 0 \<and>
     (\<forall>k < MAXFILE. fblock V' x' k = ((fblock V x)(n := r)) k) \<and> (fblock V x n = 0 \<or> fblock V x n = r) \<and>
     (\<forall>k < MAXFILE. fblock V x k \<noteq> 0 \<longrightarrow> V' (unat (fblock V x k)) = V (unat (fblock V x k)))"

lemma own_bound: "file_wf V sb x \<Longrightarrow> c \<in> own V x \<Longrightarrow> data_used V sb c \<and> c < unat (sb_size sb) \<and> length (V c) = BSIZE"
  by (auto simp: file_wf_def data_used_def)

lemma mapped_same: "file_wf V sb x \<Longrightarrow> bitmap_ok V sb \<Longrightarrow> fblock V x n \<noteq> 0 \<Longrightarrow> mapped j sb V x n V x (fblock V x n)"
  by (simp add: mapped_def grown_refl)

lemma mapped_direct:
  assumes "file_wf V sb x" "fresh sb V x r V1" "n < NDIRECT" "addrs x ! n = 0"
  shows "mapped 1 sb V x n V1 (x\<lparr>addrs := (addrs x)[n := r]\<rparr>) r"
proof -
  have F: "file_wf V1 sb x" "fblock V1 x = fblock V x" "own V1 x = own V x" "unat r \<notin> own V1 x" "r \<noteq> 0" "data_used V1 sb (unat r)"
    "length (V1 (unat r)) = BSIZE" "\<forall>c \<in> own V x. V1 c = V c"
    using assms(2) by (auto simp: fresh_def)
  note at = attach_direct [OF F(1) assms(3,4) F(6,4,5,7)]
  have "grown sb V x V1 (x\<lparr>addrs := (addrs x)[n := r]\<rparr>)"
    unfolding grown_def at(3) F(3) using assms(2) unfolding fresh_def by blast
  then show ?thesis using at F assms(2,3,4) own_fblock [of _ V x] unfolding mapped_def by (auto simp: fresh_def fblock_def)
qed

lemma mapped_through:
  assumes "file_wf V sb x" "fresh sb V x r V1" "ind x \<noteq> 0" "NDIRECT \<le> n" "n < MAXFILE" "fblock V x n = 0" "data_start sb \<le> unat (sb_size sb)"
  shows "mapped 1 sb V x n (V1(unat (ind x) := put32 (4 * (n - NDIRECT)) r (V1 (unat (ind x))))) x r"
proof -
  have F: "file_wf V1 sb x" "fblock V1 x = fblock V x" "own V1 x = own V x" "unat r \<notin> own V1 x" "r \<noteq> 0" "data_used V1 sb (unat r)"
    "length (V1 (unat r)) = BSIZE" "\<forall>c \<in> own V x. V1 c = V c" "fblock V1 x n = 0"
    using assms(2,6) by (auto simp: fresh_def)
  note at = attach_through [OF F(1) assms(3-5) F(9,6,4,5,7)]
  let ?V = "V1(unat (ind x) := put32 (4 * (n - NDIRECT)) r (V1 (unat (ind x))))"
  have du: "data_used V1 sb (unat (ind x))" using own_bound [OF F(1)] own_ind [OF assms(3), of V1] by blast
  have iu: "in_use ?V sb c = in_use V1 sb c" if "c < unat (sb_size sb)" for c
    using data_used_not_map [OF du that] by (intro in_use_cong) auto
  have fr: "V1 c = V c" if "c \<noteq> unat r" "\<forall>k < unat (sb_size sb). c \<noteq> map_block sb k" for c using that assms(2) by (simp add: fresh_def)
  have oi: "unat (ind x) \<in> own V x" by (rule own_ind [OF assms(3)])
  have g: "grown sb V x ?V x"
    unfolding grown_def at(3) F(3)
  proof (intro conjI)
    show "\<exists>a. x = x\<lparr>addrs := a\<rparr>" by (rule exI [of _ "addrs x"]) simp
    show "\<forall>c \<in> insert (unat r) (own V x) - own V x. \<not> in_use V sb c" using assms(2) by (auto simp: fresh_def)
    show "\<forall>c < unat (sb_size sb). in_use V sb c \<longrightarrow> in_use ?V sb c" using iu assms(2) by (simp add: fresh_def)
    show "\<forall>c. c \<notin> insert (unat r) (own V x) \<longrightarrow> (\<forall>k < unat (sb_size sb). c \<noteq> map_block sb k) \<longrightarrow> ?V c = V c" using fr oi by auto
  qed blast
  have keep: "?V (unat (fblock V x k)) = V (unat (fblock V x k))" if "k < MAXFILE" "fblock V x k \<noteq> 0" for k
  proof -
    have "fblock V x k \<noteq> ind x" using assms(1,3) that(1) by (auto simp: file_wf_def)
    then show ?thesis using F(8) own_fblock [OF that] by (simp add: word_unat_eq_iff)
  qed
  have "nfree sb V \<le> nfree sb ?V + 1" "bitmap_ok ?V sb"
    using nfree_upd [OF du] bitmap_ok_upd [OF du assms(7)] assms(2) by (simp_all add: fresh_def)
  then show ?thesis unfolding mapped_def using at(1,2) F(2,5) g keep assms(6) by simp
qed

lemma mapped_via_new:
  assumes "file_wf V sb x" "fresh sb V x b V1" "ind x = 0" "NDIRECT \<le> n" "n < MAXFILE"
    and m: "mapped 1 sb V1 (x\<lparr>addrs := (addrs x)[NDIRECT := b]\<rparr>) n V2 (x\<lparr>addrs := (addrs x)[NDIRECT := b]\<rparr>) r"
  shows "mapped 2 sb V x n V2 (x\<lparr>addrs := (addrs x)[NDIRECT := b]\<rparr>) r"
proof -
  let ?y = "x\<lparr>addrs := (addrs x)[NDIRECT := b]\<rparr>"
  have F: "file_wf V1 sb x" "fblock V1 x = fblock V x" "own V1 x = own V x" "unat b \<notin> own V1 x" "b \<noteq> 0" "data_used V1 sb (unat b)"
    "V1 (unat b) = replicate BSIZE 0" "\<forall>c \<in> own V x. V1 c = V c" "nfree sb V = Suc (nfree sb V1)"
    using assms(2) by (auto simp: fresh_def)
  note at = attach_indirect [OF F(1) assms(3) F(6,4,5,7)]
  have "grown sb V x V1 ?y"
    unfolding grown_def at(3) F(3) using assms(2) unfolding fresh_def by blast
  moreover have "grown sb V1 ?y V2 ?y" "file_wf V2 sb ?y" using m by (simp_all add: mapped_def)
  moreover from this(2) have "\<forall>c \<in> own V2 ?y. c < unat (sb_size sb)" using own_bound by blast
  ultimately have g: "grown sb V x V2 ?y" using grown_trans by blast
  have f: "fblock V1 ?y k = fblock V x k" if "k < MAXFILE" for k using at(2) [OF that] F(2) by simp
  have "V2 (unat (fblock V x k)) = V (unat (fblock V x k))" if "k < MAXFILE" "fblock V x k \<noteq> 0" for k
  proof -
    have "fblock V1 ?y k \<noteq> 0 \<longrightarrow> V2 (unat (fblock V1 ?y k)) = V1 (unat (fblock V1 ?y k))" using m that(1) unfolding mapped_def by blast
    then show ?thesis unfolding f [OF that(1)] using that(2) F(8) own_fblock [OF that] by simp
  qed
  moreover have "\<forall>k < MAXFILE. fblock V2 ?y k = ((fblock V x)(n := r)) k" using m f by (simp add: mapped_def)
  moreover have "fblock V x n = 0 \<or> fblock V x n = r" using m f [OF assms(5)] by (simp add: mapped_def)
  ultimately show ?thesis using m g F(9) unfolding mapped_def by simp
qed


subsection \<open>The block map\<close>

text \<open>The rules of the transaction for code that holds one block.\<close>

lemmas release_only = tx.release_block [where h = Map.empty, OF _ refl]
lemmas update_only = tx_update [where h = Map.empty, OF _ refl]

lemma bn_minus_direct: "NDIRECT \<le> unat bn \<Longrightarrow> unat (bn - of_nat NDIRECT :: uint) = unat bn - NDIRECT"
  by (simp add: NDIRECT_def unat_sub word_le_nat_alt)

lemma fs_inode: "fs_st p L D W m sb ics h V bl s \<Longrightarrow> icache s = ics"
  by (simp add: fs_st_def)

lemma own_in_range: "file_wf V sb x \<Longrightarrow> sb_ok L n sb \<Longrightarrow> c \<in> own V x \<Longrightarrow> c < n \<and> \<not> in_log L c"
proof -
  assume a: "file_wf V sb x" "sb_ok L n sb" "c \<in> own V x"
  then have d: "data_used V sb c" using own_bound by blast
  then have "c < n" using a(2) by (simp add: data_used_def sb_ok_def)
  moreover have "\<not> in_log L c" by (rule past_log [OF a(2)]) (use d a(2) in \<open>simp add: data_used_def sb_ok_def data_start_def\<close>)
  ultimately show ?thesis by blast
qed

text \<open>The part of \<^verbatim>\<open>bmap\<close> that goes through the indirect block.\<close>

definition bmap_entry :: "nat \<Rightarrow> uint \<Rightarrow> ('x kino_scheme, uint) kern" where
  "bmap_entry k addr = bnd (bread 1 addr) (\<lambda>bp. bnd (buf_data bp) (\<lambda>a. let addr = get32 a (4 * k) in
      bnd (if addr = 0 then bnd (balloc 1) (\<lambda>addr. sq (upd_data bp (put32 (4 * k) addr)) (sq (log_write bp) (ret addr))) else ret addr)
        (\<lambda>addr. sq (brelse bp) (ret addr))))"

lemma bmap_indirect:
  assumes "icache s = ics" "ics ! ip = x" "i_dev x = 1" "\<not> unat bn < NDIRECT" "unat bn < MAXFILE"
  shows "runs (bmap ip bn) s Q = runs (bnd (if ind x = 0 then bnd (balloc 1)
      (\<lambda>addr. sq (modify (upd_inode ip (\<lambda>x. x\<lparr>addrs := (addrs x)[NDIRECT := addr]\<rparr>))) (ret addr)) else ret (ind x))
    (bmap_entry (unat bn - NDIRECT))) s Q"
proof -
  have "unat (bn - of_nat NDIRECT) = unat bn - NDIRECT" "unat bn - NDIRECT < NINDIRECT" "inode_at ip s = x"
    using assms bn_minus_direct [of bn] NDIRECT_bounds(2) [of "unat bn"] by auto
  then show ?thesis
    unfolding bmap_def runs_bnd [of "gets _"] runs_gets by (simp only: assms Let_def bmap_entry_def [abs_def] if_False if_True)
qed

lemma bmap_mapped:
  assumes s: "fs_st p L D W m sb ics Map.empty V bl s" and x: "ics ! ip = x" "i_dev x = 1" "file_wf V sb x"
    and sb: "sb_ok L (length D) sb" and n: "unat bn < MAXFILE" "fblock V x (unat bn) \<noteq> 0" and r: "length bl < NBUF"
  shows "runs (bmap ip bn) s (\<lambda>r t. r = fblock V x (unat bn) \<and> fs_st p L D W m sb ics Map.empty V bl t)"
proof (cases "unat bn < NDIRECT")
  case True
  then show ?thesis using n(2) s x(1) fs_inode [OF s] by (simp add: bmap_def kern fblock_def Let_def)
next
  case False
  then have u: "unat (bn - of_nat NDIRECT) = unat bn - NDIRECT" and lt: "unat bn - NDIRECT < NINDIRECT"
    using bn_minus_direct [of bn] NDIRECT_bounds(2) [OF n(1)] by auto
  have i0: "ind x \<noteq> 0" using n(2) False by (auto simp: fblock_def)
  have oi: "unat (ind x) \<in> own V x" by (rule own_ind [OF i0])
  let ?Q = "\<lambda>r t. r = fblock V x (unat bn) \<and> fs_st p L D W m sb ics Map.empty V bl t"
  have e: "get32 (V (unat (ind x))) (4 * (unat bn - NDIRECT)) = fblock V x (unat bn)" using False i0 by (simp add: fblock_def)
  have "runs (bmap_entry (unat bn - NDIRECT) (ind x)) s ?Q"
    unfolding bmap_entry_def using s
  proof (rule tx.with_block)
    fix i t assume t: "Map.empty i = None" "fs_st p L D W m sb ics [i \<mapsto> unat (ind x)] V bl t" "data (buf_at i t) = V (unat (ind x))"
      and c: "unat (ind x) \<in> unat ` set bl \<or> V (unat (ind x)) = D ! unat (ind x)"
    have "runs (sq (brelse i) (ret (fblock V x (unat bn)))) t ?Q" using t(2) c by (rule release_only) (simp add: runs_ret)
    then show "runs (bnd (buf_data i) (\<lambda>a. let addr = get32 a (4 * (unat bn - NDIRECT)) in
      bnd (if addr = 0 then bnd (balloc 1) (\<lambda>addr. sq (upd_data i (put32 (4 * (unat bn - NDIRECT)) addr)) (sq (log_write i) (ret addr))) else ret addr)
        (\<lambda>addr. sq (brelse i) (ret addr)))) t ?Q"
      unfolding runs_bnd [of "buf_data i"] runs_gets t(3) Let_def e using n(2) by (simp add: runs_bnd runs_ret)
  qed (use own_in_range [OF x(3) sb oi] r in auto)
  then show ?thesis using bmap_indirect [of s ics ip x bn] fs_inode [OF s] x(1,2) False n(1) i0 by (simp add: runs_bnd runs_ret)
qed

text \<open>Allocation through the indirect block.\<close>

lemma bmap_through:
  assumes s: "fs_st p L D W m sb ics Map.empty V bl s" and x: "file_wf V sb x" "ind x \<noteq> 0"
    and sb: "sb_ok L (length D) sb" "bitmap_ok V sb" "0 < nfree sb V"
    and n: "NDIRECT \<le> n" "n < MAXFILE" "fblock V x n = 0" and r: "length bl + 2 < NBUF" "length bl + 2 < log_room L"
  shows "runs (bmap_entry (n - NDIRECT) (ind x)) s
    (\<lambda>r t. \<exists>V' bl'. fs_st p L D W m sb ics Map.empty V' bl' t \<and> length bl' \<le> length bl + 3 \<and> mapped 1 sb V x n V' x r)"
    (is "runs _ s ?Q")
  unfolding bmap_entry_def using s
proof (rule tx.with_block)
  have oi: "unat (ind x) \<in> own V x" by (rule own_ind [OF x(2)])
  note rg = own_in_range [OF x(1) sb(1) oi]
  show "unat (ind x) < length D" "unat (ind x) \<notin> ran Map.empty" "card (ran (Map.empty :: nat \<Rightarrow> nat option)) + length bl < NBUF"
    using rg r by simp_all
  fix i t assume t: "Map.empty i = None" "fs_st p L D W m sb ics [i \<mapsto> unat (ind x)] V bl t" "data (buf_at i t) = V (unat (ind x))"
  let ?f = "\<lambda>r. put32 (4 * (n - NDIRECT)) r"
  have e: "get32 (V (unat (ind x))) (4 * (n - NDIRECT)) = 0" using n x(2) by (simp add: fblock_def)
  have "runs (balloc 1) t (\<lambda>r t. \<exists>V1 bl1. fs_st p L D W m sb ics [i \<mapsto> unat (ind x)] V1 bl1 t \<and> length bl1 \<le> length bl + 2 \<and> fresh sb V x r V1)"
    using oi r by (intro balloc_fresh [OF t(2) sb(1,2) x(1) _ sb(3)]) auto
  then have "runs (balloc 1) t (\<lambda>r t. runs (sq (upd_data i (?f r)) (sq (log_write i) (sq (brelse i) (ret r)))) t ?Q)"
  proof (rule runs_weaken, elim exE conjE)
    fix r u V1 bl1
    assume u: "fs_st p L D W m sb ics [i \<mapsto> unat (ind x)] V1 bl1 u" "length bl1 \<le> length bl + 2" and fr: "fresh sb V x r V1"
    have l1: "length (V1 (unat (ind x))) = BSIZE" using fr oi own_bound [of V1 sb x "unat (ind x)"] by (auto simp: fresh_def)
    have m: "mapped 1 sb V x n (V1(unat (ind x) := ?f r (V1 (unat (ind x))))) x r"
      using sb(1) by (intro mapped_through [OF x(1) fr x(2) n]) (simp add: sb_ok_def)
    show "runs (sq (upd_data i (?f r)) (sq (log_write i) (sq (brelse i) (ret r)))) u ?Q"
    proof (rule update_only [OF u(1)])
      show "length (?f r (V1 (unat (ind x)))) = BSIZE" using l1 n by (simp add: MAXFILE_def NINDIRECT_def BSIZE_def)
      show "\<not> in_log L (unat (ind x))" using rg by simp
      show "length bl1 < log_room L" using u(2) r by simp
      fix v assume v: "fs_st p L D W m sb ics Map.empty (V1(unat (ind x) := ?f r (V1 (unat (ind x))))) (absorb (ind x) bl1) v"
      have "length (absorb (ind x) bl1) \<le> length bl + 3" using length_absorb(2) [of "ind x" bl1] u(2) by simp
      with v m show "runs (ret r) v ?Q" unfolding runs_ret by blast
    qed
  qed
  then show "runs (bnd (buf_data i) (\<lambda>a. let addr = get32 a (4 * (n - NDIRECT)) in
      bnd (if addr = 0 then bnd (balloc 1) (\<lambda>addr. sq (upd_data i (put32 (4 * (n - NDIRECT)) addr)) (sq (log_write i) (ret addr))) else ret addr)
        (\<lambda>addr. sq (brelse i) (ret addr)))) t ?Q"
    unfolding runs_bnd [of "buf_data i"] runs_gets t(3) Let_def e by (simp add: runs_bnd runs_sq runs_ret)
qed


lemma mapped_weaken: "mapped j sb V x n V' x' r \<Longrightarrow> j \<le> k \<Longrightarrow> mapped k sb V x n V' x' r"
  by (auto simp: mapped_def)

lemma bmap_runs:
  assumes s: "fs_st p L D W m sb ics Map.empty V bl s" and x: "ics ! ip = x" "ip < length ics" "i_dev x = 1" "file_wf V sb x"
    and sb: "sb_ok L (length D) sb" "bitmap_ok V sb" "2 \<le> nfree sb V" and n: "unat bn < MAXFILE"
    and r: "length bl + 4 < NBUF" "length bl + 4 < log_room L"
  shows "runs (bmap ip bn) s (\<lambda>r t. \<exists>V' x' bl'. fs_st p L D W m sb (ics[ip := x']) Map.empty V' bl' t \<and> length bl' \<le> length bl + 5 \<and>
     mapped 2 sb V x (unat bn) V' x' r)" (is "runs _ _ ?Q")
proof (cases "fblock V x (unat bn) = 0")
  case False
  have "length bl < NBUF" using r by simp
  have "runs (bmap ip bn) s (\<lambda>r t. r = fblock V x (unat bn) \<and> fs_st p L D W m sb ics Map.empty V bl t)"
    using s x(1,3,4) sb(1) n False \<open>length bl < NBUF\<close> by (rule bmap_mapped)
  then show ?thesis
  proof (rule runs_weaken, elim conjE)
    fix r t assume "r = fblock V x (unat bn)" "fs_st p L D W m sb ics Map.empty V bl t"
    then show "?Q r t" using mapped_same [OF x(4) sb(2) False, of 2] x(1,2) by (intro exI [of _ V] exI [of _ x] exI [of _ bl]) auto
  qed
next
  case T: True
  have ic: "icache s = ics" by (rule fs_inode [OF s])
  have al: "runs (balloc 1) s (\<lambda>r t. \<exists>V1 bl1. fs_st p L D W m sb ics Map.empty V1 bl1 t \<and> length bl1 \<le> length bl + 2 \<and> fresh sb V x r V1)"
    using r sb(3) by (intro balloc_fresh [OF s sb(1,2) x(4)]) auto
  show ?thesis
  proof (cases "unat bn < NDIRECT")
    case True
    then have a0: "addrs x ! unat bn = 0" using T by (simp add: fblock_def)
    have "runs (balloc 1) s (\<lambda>r t. ?Q r (upd_inode ip (\<lambda>x. x\<lparr>addrs := (addrs x)[unat bn := r]\<rparr>) t))"
    proof (rule runs_weaken [OF al], elim exE conjE)
      fix r t V1 bl1 assume t: "fs_st p L D W m sb ics Map.empty V1 bl1 t" "length bl1 \<le> length bl + 2" "fresh sb V x r V1"
      let ?y = "x\<lparr>addrs := (addrs x)[unat bn := r]\<rparr>"
      have "fs_st p L D W m sb (ics[ip := ?y]) Map.empty V1 bl1 (upd_inode ip (\<lambda>x. x\<lparr>addrs := (addrs x)[unat bn := r]\<rparr>) t)"
        using fs_st_upd_inode [OF t(1), of ip "\<lambda>x. x\<lparr>addrs := (addrs x)[unat bn := r]\<rparr>"] x(1) by simp
      moreover have "mapped 2 sb V x (unat bn) V1 ?y r" using mapped_direct [OF x(4) t(3) True a0] by (rule mapped_weaken) simp
      ultimately show "?Q r (upd_inode ip (\<lambda>x. x\<lparr>addrs := (addrs x)[unat bn := r]\<rparr>) t)" using t(2) by fastforce
    qed
    then show ?thesis using True a0 ic x(1,3) by (simp add: bmap_def runs_bnd runs_gets runs_sq runs_modify runs_ret Let_def)
  next
    case False
    then have nd: "NDIRECT \<le> unat bn" by simp
    show ?thesis
    proof (cases "ind x = 0")
      case i0: False
      have "runs (bmap_entry (unat bn - NDIRECT) (ind x)) s
        (\<lambda>r t. \<exists>V' bl'. fs_st p L D W m sb ics Map.empty V' bl' t \<and> length bl' \<le> length bl + 3 \<and> mapped 1 sb V x (unat bn) V' x r)"
        using sb(3) r by (intro bmap_through [OF s x(4) i0 sb(1,2) _ nd n T]) auto
      then have "runs (bmap_entry (unat bn - NDIRECT) (ind x)) s ?Q"
      proof (rule runs_weaken, elim exE conjE)
        fix r t V' bl' assume "fs_st p L D W m sb ics Map.empty V' bl' t" "length bl' \<le> length bl + 3" "mapped 1 sb V x (unat bn) V' x r"
        then show "?Q r t" using x(1,2) mapped_weaken [of 1 sb V x _ V' x r 2] by (intro exI [of _ V'] exI [of _ x] exI [of _ bl']) auto
      qed
      then show ?thesis using bmap_indirect [OF ic x(1,3) False n] i0 by (simp add: runs_bnd runs_ret)
    next
      case i0: True
      have "runs (balloc 1) s (\<lambda>b t. runs (bmap_entry (unat bn - NDIRECT) b) (upd_inode ip (\<lambda>x. x\<lparr>addrs := (addrs x)[NDIRECT := b]\<rparr>) t) ?Q)"
      proof (rule runs_weaken [OF al], elim exE conjE)
        fix b t V1 bl1 assume t: "fs_st p L D W m sb ics Map.empty V1 bl1 t" "length bl1 \<le> length bl + 2" and fr: "fresh sb V x b V1"
        let ?y = "x\<lparr>addrs := (addrs x)[NDIRECT := b]\<rparr>" and ?u = "upd_inode ip (\<lambda>x. x\<lparr>addrs := (addrs x)[NDIRECT := b]\<rparr>) t"
        have u: "fs_st p L D W m sb (ics[ip := ?y]) Map.empty V1 bl1 ?u"
          using fs_st_upd_inode [OF t(1), of ip "\<lambda>x. x\<lparr>addrs := (addrs x)[NDIRECT := b]\<rparr>"] x(1) by simp
        have F: "file_wf V1 sb x" "fblock V1 x = fblock V x" "unat b \<notin> own V1 x" "b \<noteq> 0" "data_used V1 sb (unat b)"
          "V1 (unat b) = replicate BSIZE 0" "nfree sb V = Suc (nfree sb V1)" "bitmap_ok V1 sb" "own V1 x = own V x"
          using fr by (auto simp: fresh_def)
        note at = attach_indirect [OF F(1) i0 F(5,3,4,6)]
        have iy: "ind ?y = b" "ind ?y \<noteq> 0" "fblock V1 ?y (unat bn) = 0" using at(2) [OF n] at(4) F(2,4) T by simp_all
        have "runs (bmap_entry (unat bn - NDIRECT) (ind ?y)) ?u
          (\<lambda>r t. \<exists>V' bl'. fs_st p L D W m sb (ics[ip := ?y]) Map.empty V' bl' t \<and> length bl' \<le> length bl1 + 3 \<and> mapped 1 sb V1 ?y (unat bn) V' ?y r)"
          using sb(3) F(7) r t(2) by (intro bmap_through [OF u at(1) iy(2) sb(1) F(8) _ nd n iy(3)]) auto
        then show "runs (bmap_entry (unat bn - NDIRECT) b) ?u ?Q"
          unfolding iy(1)
        proof (rule runs_weaken, elim exE conjE)
          fix r v V' bl' assume v: "fs_st p L D W m sb (ics[ip := ?y]) Map.empty V' bl' v" "length bl' \<le> length bl1 + 3" "mapped 1 sb V1 ?y (unat bn) V' ?y r"
          have "mapped 2 sb V x (unat bn) V' ?y r" by (rule mapped_via_new [OF x(4) fr i0 nd n v(3)])
          then show "?Q r v" using v(1,2) t(2) by (intro exI [of _ V'] exI [of _ ?y] exI [of _ bl']) auto
        qed
      qed
      then show ?thesis using bmap_indirect [OF ic x(1,3) False n] i0 by (simp add: runs_bnd runs_ret runs_sq runs_modify)
    qed
  qed
qed


subsection \<open>Bytes\<close>

definition fbyte :: "(nat \<Rightarrow> uchar list) \<Rightarrow> inode \<Rightarrow> nat \<Rightarrow> uchar" where
  "fbyte V x i = V (unat (fblock V x (i div BSIZE))) ! (i mod BSIZE)"

definition file_ok :: "(nat \<Rightarrow> uchar list) \<Rightarrow> superblock \<Rightarrow> inode \<Rightarrow> bool" where
  "file_ok V sb x \<longleftrightarrow> file_wf V sb x \<and> unat (isize x) \<le> MAXFILE * BSIZE \<and> (\<forall>i < unat (isize x). fblock V x (i div BSIZE) \<noteq> 0)"

text \<open>The file as a sequence of bytes.\<close>

definition content :: "(nat \<Rightarrow> uchar list) \<Rightarrow> inode \<Rightarrow> uchar list" where
  "content V x = map (fbyte V x) [0..<unat (isize x)]"

lemma length_content [simp]: "length (content V x) = unat (isize x)"
  by (simp add: content_def)

lemma BSIZE_pos [simp]: "0 < BSIZE" by (simp add: BSIZE_def)

lemma in_file: "i < MAXFILE * BSIZE \<Longrightarrow> i div BSIZE < MAXFILE"
  by (simp add: less_mult_imp_div_less)

lemma same_block:
  assumes "off mod BSIZE + m \<le> BSIZE" "off \<le> i" "i < off + m"
  shows "i div BSIZE = off div BSIZE" "i mod BSIZE = off mod BSIZE + (i - off)"
proof -
  let ?j = "off mod BSIZE + (i - off)"
  have j: "?j < BSIZE" using assms by simp
  have "i = off div BSIZE * BSIZE + ?j" using assms(2) by (metis add.assoc add_diff_inverse_nat div_mult_mod_eq leD)
  then show "i div BSIZE = off div BSIZE" "i mod BSIZE = ?j" using j by (metis BSIZE_pos add.commute div_mult_self3 div_less add_0_right less_not_refl2, metis j mod_less mod_mult_self3)
qed

lemma other_offset:
  assumes "i div BSIZE = off div BSIZE" "\<not> (off \<le> i \<and> i < off + m)"
  shows "\<not> (off mod BSIZE \<le> i mod BSIZE \<and> i mod BSIZE < off mod BSIZE + m)"
  using assms by (metis add_le_cancel_left add_less_cancel_left add.assoc div_mult_mod_eq)

lemma unat_div_BSIZE: "unat (off div of_nat BSIZE :: uint) = unat off div BSIZE"
  by (rule unat_div_of_nat) (simp add: BSIZE_def)

lemma get_bytes_fbyte:
  assumes "off mod BSIZE + m \<le> BSIZE" "length (V (unat (fblock V x (off div BSIZE)))) = BSIZE"
  shows "get_bytes (off mod BSIZE) m (V (unat (fblock V x (off div BSIZE)))) = map (fbyte V x) [off..<off + m]"
proof (rule nth_equalityI)
  fix i assume "i < length (get_bytes (off mod BSIZE) m (V (unat (fblock V x (off div BSIZE)))))"
  then have i: "i < m" using assms by simp
  then show "get_bytes (off mod BSIZE) m (V (unat (fblock V x (off div BSIZE)))) ! i = map (fbyte V x) [off..<off + m] ! i"
    using assms same_block [OF assms(1), of "off + i"] by (simp add: nth_get_bytes fbyte_def)
qed (use assms in simp)


subsection \<open>Reading\<close>

lemma chunk: 
  assumes "0 < n" "m = min n (BSIZE - off mod BSIZE)"
  shows "0 < m" "m \<le> n" "off mod BSIZE + m \<le> BSIZE"
proof -
  have "off mod BSIZE < BSIZE" by (rule mod_less_divisor [OF BSIZE_pos])
  then show "0 < m" "m \<le> n" "off mod BSIZE + m \<le> BSIZE" using assms by linarith+
qed

lemma unat_step: "unat off + n \<le> MAXFILE * BSIZE \<Longrightarrow> m \<le> n \<Longrightarrow> unat (off + of_nat m :: uint) = unat off + m"
  by (rule unat_add_of_nat) (simp add: MAXFILE_def NDIRECT_def NINDIRECT_def BSIZE_def)

lemma readi_loop_runs:
  assumes s: "fs_st p L D W m sb ics Map.empty V bl s" and x: "ics ! ip = x" "i_dev x = 1" "file_wf V sb x"
    and sb: "sb_ok L (length D) sb" and r: "length bl < NBUF"
    and b: "unat off + n \<le> MAXFILE * BSIZE" "\<forall>i. unat off \<le> i \<and> i < unat off + n \<longrightarrow> fblock V x (i div BSIZE) \<noteq> 0"
  shows "runs (readi_loop ip off n) s (\<lambda>bs t. bs = map (fbyte V x) [unat off..<unat off + n] \<and> fs_st p L D W m sb ics Map.empty V bl t)"
  using s b
proof (induction n arbitrary: off s rule: less_induct)
  case (less n)
  let ?Q = "\<lambda>bs t. bs = map (fbyte V x) [unat off..<unat off + n] \<and> fs_st p L D W m sb ics Map.empty V bl t"
  show ?case
  proof (cases "n = 0")
    case True
    then show ?thesis using less.prems(1) by (subst readi_loop.simps) (simp add: runs_ret)
  next
    case False
    define k where "k = min n (BSIZE - unat off mod BSIZE)"
    define b where "b = unat off div BSIZE"
    note ch = chunk [OF _ k_def]
    have k: "0 < k" "k \<le> n" "unat off mod BSIZE + k \<le> BSIZE" using ch False by simp_all
    have b: "b < MAXFILE" "fblock V x b \<noteq> 0" unfolding b_def using less.prems(2,3) False in_file [of "unat off"] by auto
    have ow: "unat (fblock V x b) \<in> own V x" by (rule own_fblock [OF b])
    note rg = own_in_range [OF x(3) sb ow]
    have lb: "length (V (unat (fblock V x b))) = BSIZE" using own_bound [OF x(3) ow] by simp
    have uo: "unat (off + of_nat k) = unat off + k" using less.prems(2) k(2) by (rule unat_step)
    have IH: "runs (readi_loop ip (off + of_nat k) (n - k)) u (\<lambda>bs t. bs = map (fbyte V x) [unat off + k..<unat off + n] \<and> fs_st p L D W m sb ics Map.empty V bl t)"
      if "fs_st p L D W m sb ics Map.empty V bl u" for u
      using less.IH [of "n - k" u "off + of_nat k"] that less.prems(2,3) k uo by simp
    have rest: "runs (bnd (readi_loop ip (off + of_nat k) (n - k)) (\<lambda>rest. ret (get_bytes (unat off mod BSIZE) k (V (unat (fblock V x b))) @ rest))) u ?Q"
      if "fs_st p L D W m sb ics Map.empty V bl u" for u
      unfolding runs_bnd runs_ret
    proof (rule runs_weaken [OF IH [OF that]], elim conjE)
      fix bs v assume "bs = map (fbyte V x) [unat off + k..<unat off + n]" "fs_st p L D W m sb ics Map.empty V bl v"
      moreover have "[unat off..<unat off + n] = [unat off..<unat off + k] @ [unat off + k..<unat off + n]"
        using k(2) upt_add_eq_append [of "unat off" "unat off + k" "n - k"] by simp
      ultimately show "?Q (get_bytes (unat off mod BSIZE) k (V (unat (fblock V x b))) @ bs) v"
        using get_bytes_fbyte [OF k(3), of V x] lb by (simp add: b_def)
    qed
    have rd: "runs (bnd (bread 1 (fblock V x b)) (\<lambda>bp. bnd (buf_data bp) (\<lambda>d. sq (brelse bp) (bnd (readi_loop ip (off + of_nat k) (n - k))
        (\<lambda>rest. ret (get_bytes (unat off mod BSIZE) k d @ rest)))))) t ?Q"
      if "fs_st p L D W m sb ics Map.empty V bl t" for t
      using that
    proof (rule tx.with_block)
      fix i u assume u: "fs_st p L D W m sb ics [i \<mapsto> unat (fblock V x b)] V bl u" "data (buf_at i u) = V (unat (fblock V x b))"
        "unat (fblock V x b) \<in> unat ` set bl \<or> V (unat (fblock V x b)) = D ! unat (fblock V x b)"
      show "runs (bnd (buf_data i) (\<lambda>d. sq (brelse i) (bnd (readi_loop ip (off + of_nat k) (n - k))
          (\<lambda>rest. ret (get_bytes (unat off mod BSIZE) k d @ rest))))) u ?Q"
        unfolding runs_bnd [of "buf_data i"] runs_gets u(2) by (rule release_only [OF u(1,3)]) (rule rest)
    qed (use rg r in auto)
    have bm: "runs (bmap ip (off div of_nat BSIZE)) s (\<lambda>r t. r = fblock V x b \<and> fs_st p L D W m sb ics Map.empty V bl t)"
      using bmap_mapped [OF less.prems(1) x sb, of "off div of_nat BSIZE"] b r by (simp add: unat_div_BSIZE b_def)
    show ?thesis
      unfolding readi_loop.simps [of ip off n] if_not_P [OF False] runs_bnd [of "bmap _ _"] k_def [symmetric] Let_def
    proof (rule runs_weaken [OF bm], elim conjE)
      fix r t assume r: "r = fblock V x b" and t: "fs_st p L D W m sb ics Map.empty V bl t"
      have "i_dev (inode_at ip t) = 1" using fs_inode [OF t] x by simp
      then show "runs (bnd (gets (\<lambda>s. i_dev (inode_at ip s))) (\<lambda>dev. bnd (bread dev r) (\<lambda>bp. bnd (buf_data bp) (\<lambda>d. sq (brelse bp)
          (bnd (readi_loop ip (off + of_nat k) (n - k)) (\<lambda>rest. ret (get_bytes (unat off mod BSIZE) k d @ rest))))))) t ?Q"
        using rd [OF t] r by (simp add: runs_bnd [of "gets _"] runs_gets)
    qed
  qed
qed


subsection \<open>Writing\<close>

text \<open>The bytes \<open>bs\<close> have been stored from offset \<open>off\<close> on.\<close>

definition written :: "superblock \<Rightarrow> (nat \<Rightarrow> uchar list) \<Rightarrow> inode \<Rightarrow> nat \<Rightarrow> uchar list \<Rightarrow> (nat \<Rightarrow> uchar list) \<Rightarrow> inode \<Rightarrow> bool" where
  "written sb V x off bs V' x' \<longleftrightarrow> file_wf V' sb x' \<and> bitmap_ok V' sb \<and> grown sb V x V' x' \<and>
     (\<forall>i < MAXFILE * BSIZE. fblock V x (i div BSIZE) \<noteq> 0 \<or> (off \<le> i \<and> i < off + length bs) \<longrightarrow> fblock V' x' (i div BSIZE) \<noteq> 0 \<and>
        fbyte V' x' i = (if off \<le> i \<and> i < off + length bs then bs ! (i - off) else fbyte V x i))"

lemma writtenD:
  assumes "written sb V x off bs V' x'" "i < MAXFILE * BSIZE" "fblock V x (i div BSIZE) \<noteq> 0 \<or> (off \<le> i \<and> i < off + length bs)"
  shows "fblock V' x' (i div BSIZE) \<noteq> 0" "off \<le> i \<Longrightarrow> i < off + length bs \<Longrightarrow> fbyte V' x' i = bs ! (i - off)"
    "\<not> (off \<le> i \<and> i < off + length bs) \<Longrightarrow> fbyte V' x' i = fbyte V x i"
  using assms unfolding written_def by metis+

lemma written_nil: "file_wf V sb x \<Longrightarrow> bitmap_ok V sb \<Longrightarrow> written sb V x off [] V x"
  by (auto simp: written_def grown_refl)

lemma written_append:
  assumes "written sb V x off bs V1 x1" "written sb V1 x1 (off + length bs) cs V2 x2"
  shows "written sb V x off (bs @ cs) V2 x2"
proof -
  have "\<forall>c \<in> own V2 x2. c < unat (sb_size sb)" using assms(2) own_bound [of V2 sb x2] by (auto simp: written_def)
  then have g: "grown sb V x V2 x2" using assms grown_trans [of sb V x V1 x1 V2 x2] by (simp add: written_def)
  have "fblock V2 x2 (i div BSIZE) \<noteq> 0 \<and> fbyte V2 x2 i = (if off \<le> i \<and> i < off + length (bs @ cs) then (bs @ cs) ! (i - off) else fbyte V x i)"
    if i: "i < MAXFILE * BSIZE" "fblock V x (i div BSIZE) \<noteq> 0 \<or> (off \<le> i \<and> i < off + length (bs @ cs))" for i
  proof (cases "off + length bs \<le> i \<and> i < off + length bs + length cs")
    case True
    then have "\<not> i - off < length bs" by linarith
    then show ?thesis using True writtenD(1,2) [OF assms(2) i(1)] by (simp add: nth_append)
  next
    case False
    then have old: "fblock V x (i div BSIZE) \<noteq> 0 \<or> (off \<le> i \<and> i < off + length bs)" using i(2) by auto
    note w1 = writtenD [OF assms(1) i(1) old]
    note w2 = writtenD [OF assms(2) i(1) disjI1 [OF w1(1)]]
    show ?thesis using w1(2,3) w2(1,3) False by (auto simp: nth_append)
  qed
  then show ?thesis using g assms(2) by (simp add: written_def)
qed

lemma written_chunk:
  assumes m: "mapped j sb V x (off div BSIZE) V1 x1 r" and o: "off div BSIZE < MAXFILE" "off mod BSIZE + length bs \<le> BSIZE"
    and d: "data_start sb \<le> unat (sb_size sb)"
  defines "V2 \<equiv> V1(unat r := put_bytes (off mod BSIZE) bs (V1 (unat r)))"
  shows "written sb V x off bs V2 x1" "nfree sb V \<le> nfree sb V2 + j" "length (put_bytes (off mod BSIZE) bs (V1 (unat r))) = BSIZE"
    "unat r \<in> own V1 x1" "file_wf V1 sb x1"
proof -
  let ?n = "off div BSIZE"
  have M: "file_wf V1 sb x1" "bitmap_ok V1 sb" "grown sb V x V1 x1" "nfree sb V \<le> nfree sb V1 + j" "r \<noteq> 0"
    "\<And>k. k < MAXFILE \<Longrightarrow> fblock V1 x1 k = ((fblock V x)(?n := r)) k" "fblock V x ?n = 0 \<or> fblock V x ?n = r"
    "\<And>k. k < MAXFILE \<Longrightarrow> fblock V x k \<noteq> 0 \<Longrightarrow> V1 (unat (fblock V x k)) = V (unat (fblock V x k))"
    using m by (simp_all add: mapped_def)
  have r: "r = fblock V1 x1 ?n" using M(6) [OF o(1)] by simp
  then show ow: "unat r \<in> own V1 x1" using own_fblock [OF o(1), of V1 x1] M(5) by simp
  have du: "data_used V1 sb (unat r)" "length (V1 (unat r)) = BSIZE" using own_bound [OF M(1) ow] by simp_all
  then show l: "length (put_bytes (off mod BSIZE) bs (V1 (unat r))) = BSIZE" using o(2) by simp
  show "file_wf V1 sb x1" by (rule M(1))
  have fw: "file_wf V2 sb x1" "fblock V2 x1 = fblock V1 x1" "own V2 x1 = own V1 x1"
    using file_wf_write [OF M(1) o(1) _ l] r M(5) unfolding V2_def by simp_all
  have nm: "map_block sb c \<noteq> unat r" if "c < unat (sb_size sb)" for c by (rule data_used_not_map [OF du(1) that])
  have iu: "in_use V2 sb c = in_use V1 sb c" if "c < unat (sb_size sb)" for c using nm [OF that] by (intro in_use_cong) (simp add: V2_def)
  have g: "grown sb V x V2 x1" unfolding V2_def by (rule grown_upd [OF M(3) ow fw(3) [unfolded V2_def]]) (rule nm)
  show "nfree sb V \<le> nfree sb V2 + j" using M(4) nfree_upd [OF du(1)] by (simp add: V2_def)
  have b2: "bitmap_ok V2 sb" using bitmap_ok_upd [OF du(1) d] M(2) by (simp add: V2_def)
  have "fblock V2 x1 (i div BSIZE) \<noteq> 0 \<and> fbyte V2 x1 i = (if off \<le> i \<and> i < off + length bs then bs ! (i - off) else fbyte V x i)"
    if i: "i < MAXFILE * BSIZE" "fblock V x (i div BSIZE) \<noteq> 0 \<or> (off \<le> i \<and> i < off + length bs)" for i
  proof -
    note ib = in_file [OF i(1)]
    show ?thesis
    proof (cases "i div BSIZE = ?n")
      case True
      then have e: "fblock V2 x1 (i div BSIZE) = r" using fw(2) r by simp
      have fb: "fbyte V2 x1 i = put_bytes (off mod BSIZE) bs (V1 (unat r)) ! (i mod BSIZE)" unfolding fbyte_def e by (simp add: V2_def)
      show ?thesis
      proof (cases "off \<le> i \<and> i < off + length bs")
        case T: True
        then obtain k where k: "i = off + k" "k < length bs" by (metis add_less_cancel_left le_iff_add)
        then have "i mod BSIZE = off mod BSIZE + k" using same_block(2) [OF o(2), of i] by simp
        then show ?thesis using fb e M(5) du(2) o(2) k by (simp add: nth_put_bytes)
      next
        case F: False
        then have old: "fblock V x (i div BSIZE) \<noteq> 0" using i(2) by blast
        then have "fblock V x (i div BSIZE) = r" using M(7) True by simp
        then have "fbyte V x i = V1 (unat r) ! (i mod BSIZE)" using M(8) [OF ib old] by (simp add: fbyte_def)
        moreover have "fbyte V2 x1 i = V1 (unat r) ! (i mod BSIZE)"
          using fb other_offset [OF True F] du(2) o(2) by (simp add: nth_put_bytes)
        ultimately show ?thesis unfolding if_not_P [OF F] using e M(5) by simp
      qed
    next
      case False
      then have no: "\<not> (off \<le> i \<and> i < off + length bs)" using same_block(1) [OF o(2), of i] by blast
      then have old: "fblock V x (i div BSIZE) \<noteq> 0" using i(2) by blast
      have e: "fblock V2 x1 (i div BSIZE) = fblock V x (i div BSIZE)" using fw(2) M(6) [OF ib] False by simp
      have "fblock V1 x1 (i div BSIZE) \<noteq> fblock V1 x1 ?n" using M(1) ib o(1) False e old fw(2) unfolding file_wf_def by metis
      then have "unat (fblock V x (i div BSIZE)) \<noteq> unat r" using e fw(2) r by (simp add: word_unat_eq_iff)
      then have "fbyte V2 x1 i = fbyte V x i" unfolding fbyte_def e using M(8) [OF ib old] by (simp add: V2_def)
      then show ?thesis unfolding if_not_P [OF no] using e old by simp
    qed
  qed
  then show "written sb V x off bs V2 x1" using fw(1) b2 g by (simp add: written_def)
qed


text \<open>The number of blocks that \<open>len\<close> bytes from \<open>off\<close> on touch.\<close>

function nblk :: "nat \<Rightarrow> nat \<Rightarrow> nat" where
  "nblk off len = (if len = 0 then 0 else let k = min len (BSIZE - off mod BSIZE) in Suc (nblk (off + k) (len - k)))"
  by pat_completeness auto
termination
  by (relation "measure (\<lambda>(off, len). len)") (auto simp: BSIZE_def intro!: diff_less)

declare nblk.simps [simp del]

lemma nblk_zero [simp]: "nblk off 0 = 0"
  by (simp add: nblk.simps)

lemma nblk_bytes: "0 < len \<Longrightarrow> nblk off len * BSIZE \<le> off mod BSIZE + len + BSIZE - 1"
proof (induction len arbitrary: off rule: less_induct)
  case (less len)
  define k where "k = min len (BSIZE - off mod BSIZE)"
  have k: "0 < k" "k \<le> len" "off mod BSIZE + k \<le> BSIZE" using chunk [OF less.prems k_def] by simp_all
  have n: "nblk off len = Suc (nblk (off + k) (len - k))" using less.prems by (subst nblk.simps) (simp add: Let_def k_def)
  show ?case
  proof (cases "len = k")
    case True
    then show ?thesis using n less.prems by simp
  next
    case False
    then have e: "off mod BSIZE + k = BSIZE" using k(2) mod_less_divisor [OF BSIZE_pos, of off] unfolding k_def by linarith
    have "(off + k) mod BSIZE = (off mod BSIZE + k) mod BSIZE" by (simp add: mod_add_left_eq)
    then have "(off + k) mod BSIZE = 0" using e by simp
    then have "nblk (off + k) (len - k) * BSIZE \<le> len - k + BSIZE - 1" using less.IH [of "len - k" "off + k"] k False by simp
    then show ?thesis using n e k False by simp
  qed
qed

text \<open>The most blocks a write of \<open>len\<close> bytes can touch, wherever it starts.\<close>

definition max_blocks :: "nat \<Rightarrow> nat" where
  "max_blocks len = (len + 2 * BSIZE - 2) div BSIZE"

lemma nblk_bound: "nblk off len \<le> max_blocks len"
proof (cases "len = 0")
  case False
  have "off mod BSIZE < BSIZE" by (rule mod_less_divisor [OF BSIZE_pos])
  moreover have "nblk off len * BSIZE \<le> off mod BSIZE + len + BSIZE - 1" using False by (intro nblk_bytes) simp
  ultimately have "nblk off len * BSIZE \<le> len + 2 * BSIZE - 2" by linarith
  then show ?thesis unfolding max_blocks_def by (simp add: less_eq_div_iff_mult_less_eq)
qed simp

lemma writei_loop_runs:
  assumes s: "fs_st p L D W m sb ics Map.empty V bl s" and x: "ics ! ip = x" "ip < length ics" "i_dev x = 1" "file_wf V sb x"
    and sb: "sb_ok L (length D) sb" "bitmap_ok V sb" and b: "unat off + length bs \<le> MAXFILE * BSIZE" and f: "2 * nblk (unat off) (length bs) \<le> nfree sb V"
    and r: "length bl + 6 * nblk (unat off) (length bs) < NBUF" "length bl + 6 * nblk (unat off) (length bs) < log_room L"
  shows "runs (writei_loop ip off bs) s (\<lambda>_ t. \<exists>V' x' bl'. fs_st p L D W m sb (ics[ip := x']) Map.empty V' bl' t \<and>
     length bl' \<le> length bl + 6 * nblk (unat off) (length bs) \<and> written sb V x (unat off) bs V' x')"
  using assms
proof (induction "length bs" arbitrary: off bs s ics V x bl rule: less_induct)
  case less
  let ?Q = "\<lambda>_ t. \<exists>V' x' bl'. fs_st p L D W m sb (ics[ip := x']) Map.empty V' bl' t \<and>
     length bl' \<le> length bl + 6 * nblk (unat off) (length bs) \<and> written sb V x (unat off) bs V' x'"
  note P = less.prems
  show ?case
  proof (cases "bs = []")
    case True
    have "ics[ip := x] = ics" using P(2,3) by auto
    then show ?thesis using P(1) True written_nil [OF P(5,7)]
      by (subst writei_loop.simps) (auto simp: runs_ret intro!: exI [of _ V] exI [of _ x] exI [of _ bl])
  next
    case False
    define k where "k = min (length bs) (BSIZE - unat off mod BSIZE)"
    define n where "n = unat off div BSIZE"
    have k: "0 < k" "k \<le> length bs" "unat off mod BSIZE + k \<le> BSIZE" using chunk [OF _ k_def] False by simp_all
    have nb: "nblk (unat off) (length bs) = Suc (nblk (unat off + k) (length bs - k))" using False by (subst nblk.simps) (simp add: Let_def k_def)
    have n: "n < MAXFILE" unfolding n_def using P(8) False k by (intro in_file) (cases bs; simp)
    have uo: "unat (off + of_nat k) = unat off + k" using P(8) k(2) by (rule unat_step)
    have d: "data_start sb \<le> unat (sb_size sb)" using P(6) by (simp add: sb_ok_def)
    have bm: "runs (bmap ip (off div of_nat BSIZE)) s (\<lambda>r t. \<exists>V' x' bl'. fs_st p L D W m sb (ics[ip := x']) Map.empty V' bl' t \<and> length bl' \<le> length bl + 5 \<and>
      mapped 2 sb V x n V' x' r)"
      using bmap_runs [OF P(1-7), of "off div of_nat BSIZE"] P(9-11) nb n by (simp add: unat_div_BSIZE n_def)
    show ?thesis
      unfolding writei_loop.simps [of ip off bs] if_not_P [OF False] runs_bnd [of "bmap _ _"] k_def [symmetric] Let_def
    proof (rule runs_weaken [OF bm], elim exE conjE)
      fix r t V1 x1 bl1
      assume t: "fs_st p L D W m sb (ics[ip := x1]) Map.empty V1 bl1 t" and l1: "length bl1 \<le> length bl + 5" and mp: "mapped 2 sb V x n V1 x1 r"
      let ?f = "put_bytes (unat off mod BSIZE) (take k bs)"
      let ?V2 = "V1(unat r := ?f (V1 (unat r)))"
      have tk: "length (take k bs) = k" using k by simp
      note wc = written_chunk [OF mp [unfolded n_def] n [unfolded n_def], of "take k bs", unfolded tk, OF k(3) d]
      have dv: "i_dev (inode_at ip t) = 1" "i_dev x1 = 1" using fs_inode [OF t] P(3,4) mp by (auto simp: mapped_def grown_def)
      note rg = own_in_range [OF wc(5) P(6) wc(4)]
      have W: "runs (writei_loop ip (off + of_nat k) (drop k bs)) u ?Q"
        if u: "fs_st p L D W m sb (ics[ip := x1]) Map.empty ?V2 (absorb r bl1) u" for u
      proof -
        have la: "length (absorb r bl1) \<le> length bl + 6" using length_absorb(2) [of r bl1] l1 by simp
        have "runs (writei_loop ip (off + of_nat k) (drop k bs)) u (\<lambda>_ t. \<exists>V' x' bl'. fs_st p L D W m sb (ics[ip := x1, ip := x']) Map.empty V' bl' t \<and>
           length bl' \<le> length (absorb r bl1) + 6 * nblk (unat (off + of_nat k)) (length (drop k bs)) \<and> written sb ?V2 x1 (unat (off + of_nat k)) (drop k bs) V' x')"
        proof (rule less.hyps)
          show "length (drop k bs) < length bs" using k by simp
          show "fs_st p L D W m sb (ics[ip := x1]) Map.empty ?V2 (absorb r bl1) u" by (rule u)
          show "ics[ip := x1] ! ip = x1" "ip < length (ics[ip := x1])" using P(3) by simp_all
          show "i_dev x1 = 1" by (rule dv(2))
          show "file_wf ?V2 sb x1" "bitmap_ok ?V2 sb" using wc(1) by (simp_all add: written_def)
          show "sb_ok L (length D) sb" by (rule P(6))
          show "unat (off + of_nat k) + length (drop k bs) \<le> MAXFILE * BSIZE" using P(8) uo k by simp
          show "2 * nblk (unat (off + of_nat k)) (length (drop k bs)) \<le> nfree sb ?V2" using P(9) wc(2) nb uo by simp
          show "length (absorb r bl1) + 6 * nblk (unat (off + of_nat k)) (length (drop k bs)) < NBUF"
            "length (absorb r bl1) + 6 * nblk (unat (off + of_nat k)) (length (drop k bs)) < log_room L" using P(10,11) la nb uo by simp_all
        qed
        then show ?thesis
        proof (rule runs_weaken, elim exE conjE)
          fix v V' x' bl'
          assume v: "fs_st p L D W m sb (ics[ip := x1, ip := x']) Map.empty V' bl' v"
            "length bl' \<le> length (absorb r bl1) + 6 * nblk (unat (off + of_nat k)) (length (drop k bs))"
            "written sb ?V2 x1 (unat (off + of_nat k)) (drop k bs) V' x'"
          have "written sb V x (unat off) (take k bs @ drop k bs) V' x'" 
            using written_append [OF wc(1), of "drop k bs" V' x'] v(3) unfolding tk uo by blast
          then show "?Q a v" for a using v(1,2) la nb uo by (intro exI [of _ V'] exI [of _ x'] exI [of _ bl']) simp
        qed
      qed
      have "runs (bnd (bread 1 r) (\<lambda>bp. sq (upd_data bp ?f) (sq (log_write bp) (sq (brelse bp) (writei_loop ip (off + of_nat k) (drop k bs)))))) t ?Q"
        using t
      proof (rule tx.with_block)
        fix i u assume u: "fs_st p L D W m sb (ics[ip := x1]) [i \<mapsto> unat r] V1 bl1 u"
        show "runs (sq (upd_data i ?f) (sq (log_write i) (sq (brelse i) (writei_loop ip (off + of_nat k) (drop k bs))))) u ?Q"
          by (rule update_only [OF u]) (use wc(3) rg l1 P(11) nb W in auto)
      qed (use rg l1 P(10) nb in auto)
      then show "runs (bnd (gets (\<lambda>s. i_dev (inode_at ip s))) (\<lambda>dev. bnd (bread dev r) (\<lambda>bp. sq (upd_data bp ?f)
          (sq (log_write bp) (sq (brelse bp) (writei_loop ip (off + of_nat k) (drop k bs))))))) t ?Q"
        using dv(1) by (simp add: runs_bnd [of "gets _"] runs_gets)
    qed
  qed
qed


subsection \<open>The inode on the disk\<close>

lemma IBLOCK_bounds:
  assumes "sb_ok L n sb" "unat i < unat (sb_ninodes sb)"
  shows "unat (IBLOCK i sb) < data_start sb" "unat (IBLOCK i sb) < n" "\<not> in_log L (unat (IBLOCK i sb))" "unat (IBLOCK i sb) \<noteq> map_block sb k"
proof -
  have e: "unat (i div of_nat IPB) = unat i div IPB"
    by (rule unat_div_of_nat) (simp add: IPB_def BSIZE_def sizeof_dinode_def NDIRECT_def)
  have a: "unat (sb_inodestart sb) + unat (sb_ninodes sb) div IPB + 1 \<le> unat (sb_bmapstart sb)" "data_start sb \<le> n" "n < 2 ^ 31"
    using assms(1) by (simp_all add: sb_ok_def)
  have d: "unat i div IPB \<le> unat (sb_ninodes sb) div IPB" using assms(2) by (intro div_le_mono) simp
  have "unat (i div of_nat IPB) + unat (sb_inodestart sb) < 2 ^ 32" using a d e by (simp add: data_start_def)
  then have u: "unat (IBLOCK i sb) = unat i div IPB + unat (sb_inodestart sb)"
    unfolding IBLOCK_def using e by (simp add: unat_word_ariths)
  then have lt: "unat (IBLOCK i sb) < unat (sb_bmapstart sb)" using a d by simp
  then show "unat (IBLOCK i sb) < data_start sb" by (simp add: data_start_def)
  then show "unat (IBLOCK i sb) < n" using a by simp
  show "\<not> in_log L (unat (IBLOCK i sb))" by (rule past_log [OF assms(1)]) (simp add: u)
  show "unat (IBLOCK i sb) \<noteq> map_block sb k" using lt by (simp add: map_block_def)
qed

lemma length_enc_dinode:
  assumes "length d = BSIZE" "length (addrs x) = NDIRECT + 1"
  shows "length (enc_dinode (dinode_off i) x d) = BSIZE"
proof -
  have "unat i mod IPB < IPB" by (rule mod_less_divisor) (simp add: IPB_def BSIZE_def sizeof_dinode_def NDIRECT_def)
  then have o: "dinode_off i + sizeof_dinode \<le> BSIZE"
    by (simp add: dinode_off_def IPB_def BSIZE_def sizeof_dinode_def NDIRECT_def)
  have "length (concat (map enc32 (addrs x))) = 4 * (NDIRECT + 1)"
    using assms(2) by (simp add: length_concat sum_list_triv o_def comp_def)
  then show ?thesis using assms(1) o by (simp add: enc_dinode_def put_addrs_def sizeof_dinode_def)
qed

lemma iupdate_runs:
  assumes s: "fs_st p L D W m sb ics Map.empty V bl s" and x: "ics ! ip = x" "i_dev x = 1" "length (addrs x) = NDIRECT + 1"
    and sb: "sb_ok L (length D) sb" "unat (i_num x) < unat (sb_ninodes sb)" and r: "length bl < NBUF" "length bl < log_room L"
  shows "runs (iupdate ip) s (\<lambda>_. fs_st p L D W m sb ics Map.empty
     (V(unat (IBLOCK (i_num x) sb) := enc_dinode (dinode_off (i_num x)) x (V (unat (IBLOCK (i_num x) sb))))) (absorb (IBLOCK (i_num x) sb) bl))"
    (is "runs _ _ ?Q")
proof -
  note ib = IBLOCK_bounds [OF sb]
  have "runs (bnd (bread 1 (IBLOCK (i_num x) sb)) (\<lambda>bp. sq (upd_data bp (enc_dinode (dinode_off (i_num x)) x)) (sq (log_write bp) (brelse bp)))) s ?Q"
    using s
  proof (rule tx.with_block)
    fix i t assume t: "fs_st p L D W m sb ics [i \<mapsto> unat (IBLOCK (i_num x) sb)] V bl t" "length (V (unat (IBLOCK (i_num x) sb))) = BSIZE"
    show "runs (sq (upd_data i (enc_dinode (dinode_off (i_num x)) x)) (sq (log_write i) (brelse i))) t ?Q"
      by (rule tx_update_last [where h = Map.empty, OF t(1)]) (use ib r x(3) t(2) length_enc_dinode in auto)
  qed (use ib r in auto)
  then show ?thesis using s x unfolding iupdate_def runs_bnd [of "gets _"] runs_gets by (simp add: fs_st_def)
qed


subsection \<open>Files beside each other\<close>

text \<open>A change of other blocks leaves a file alone.\<close>

lemma file_same:
  assumes "file_ok V sb y" "\<And>c. c \<in> own V y \<Longrightarrow> V' c = V c" "\<And>c. c < unat (sb_size sb) \<Longrightarrow> in_use V sb c \<Longrightarrow> in_use V' sb c"
  shows "file_ok V' sb y" "content V' y = content V y" "own V' y = own V y"
proof -
  have i: "ind y \<noteq> 0 \<Longrightarrow> V' (unat (ind y)) = V (unat (ind y))" using assms(2) own_ind by blast
  then have f: "fblock V' y n = fblock V y n" for n by (rule fblock_cong)
  show o: "own V' y = own V y" using i by (rule own_cong)
  have "data_used V' sb c \<and> length (V' c) = BSIZE" if "c \<in> own V y" for c
    using assms that own_bound [of V sb y c] by (auto simp: file_ok_def data_used_def)
  then show "file_ok V' sb y" using assms(1) by (simp add: file_ok_def file_wf_def f o)
  have "fbyte V' y i = fbyte V y i" if "i < unat (isize y)" for i
  proof -
    have "i < MAXFILE * BSIZE" "fblock V y (i div BSIZE) \<noteq> 0" using assms(1) that by (auto simp: file_ok_def)
    then have "unat (fblock V y (i div BSIZE)) \<in> own V y" by (intro own_fblock in_file)
    then show ?thesis using assms(2) by (simp add: fbyte_def f)
  qed
  then show "content V' y = content V y" by (simp add: content_def)
qed

lemma grown_other:
  assumes g: "grown sb V x V' x'" and y: "file_ok V sb y" "own V y \<inter> own V x = {}"
  shows "file_ok V' sb y" "content V' y = content V y" "own V' y = own V y" "own V y \<inter> own V' x' = {}"
proof -
  have d: "data_used V sb c" if "c \<in> own V y" for c using y(1) that own_bound by (auto simp: file_ok_def)
  show n: "own V y \<inter> own V' x' = {}" using g y(2) d by (fastforce simp: grown_def data_used_def)
  have same: "V' c = V c" if "c \<in> own V y" for c
  proof -
    have "c \<notin> own V' x'" using n that by blast
    moreover have "\<forall>k < unat (sb_size sb). c \<noteq> map_block sb k" using data_used_not_map [OF d [OF that]] by blast
    ultimately show ?thesis using g by (simp add: grown_def)
  qed
  have iu: "in_use V' sb c" if "c < unat (sb_size sb)" "in_use V sb c" for c using g that by (simp add: grown_def)
  show "file_ok V' sb y" "content V' y = content V y" "own V' y = own V y" using file_same [of V sb y V', OF y(1)] same iu by blast+
qed

lemma meta_upd:
  assumes "file_ok V sb y" "c < data_start sb" "\<And>k. c \<noteq> map_block sb k"
  shows "file_ok (V(c := d)) sb y" "content (V(c := d)) y = content V y" "own (V(c := d)) y = own V y"
proof -
  have s: "(V(c := d)) k = V k" if "k \<in> own V y" for k
    using that assms(1,2) own_bound [of V sb y k] by (auto simp: file_ok_def data_used_def)
  have u: "in_use (V(c := d)) sb k" if "k < unat (sb_size sb)" "in_use V sb k" for k using that assms(3) [of k] in_use_cong [of "V(c := d)" sb k V] by simp
  show "file_ok (V(c := d)) sb y" "content (V(c := d)) y = content V y" "own (V(c := d)) y = own V y"
    using file_same [of V sb y "V(c := d)", OF assms(1)] s u by blast+
qed

text \<open>The content after a write, with the size the inode gets.\<close>

lemma written_content:
  assumes w: "written sb V x off bs V' x'" and x: "file_ok V sb x" and o: "off \<le> unat (isize x)" "off + length bs \<le> MAXFILE * BSIZE"
    and z: "unat sz' = max (unat (isize x)) (off + length bs)"
  shows "file_ok V' sb (x'\<lparr>isize := sz'\<rparr>)" "content V' (x'\<lparr>isize := sz'\<rparr>) = take off (content V x) @ bs @ drop (off + length bs) (content V x)"
    "own V' (x'\<lparr>isize := sz'\<rparr>) = own V' x'"
proof -
  let ?y = "x'\<lparr>isize := sz'\<rparr>"
  have f: "fblock V' ?y = fblock V' x'" "fbyte V' ?y = fbyte V' x'" by (simp_all add: fblock_def fbyte_def fun_eq_iff)
  show ow: "own V' ?y = own V' x'" by (simp add: own_def f)
  have wf: "file_wf V' sb ?y" using w by (simp add: written_def file_wf_def f ow)
  have i: "i < MAXFILE * BSIZE" "fblock V x (i div BSIZE) \<noteq> 0 \<or> (off \<le> i \<and> i < off + length bs)" if "i < max (unat (isize x)) (off + length bs)" for i
  proof -
    show "i < MAXFILE * BSIZE" using that x o unfolding file_ok_def by linarith
    show "fblock V x (i div BSIZE) \<noteq> 0 \<or> (off \<le> i \<and> i < off + length bs)"
      using that x o by (cases "i < unat (isize x)") (auto simp: file_ok_def)
  qed
  show "file_ok V' sb ?y" using wf x o z i writtenD(1) [OF w] by (auto simp: file_ok_def f)
  show "content V' ?y = take off (content V x) @ bs @ drop (off + length bs) (content V x)" (is "_ = ?r")
  proof (rule nth_equalityI)
    show "length (content V' ?y) = length ?r" using o z by simp
    fix i assume "i < length (content V' ?y)"
    then have lt: "i < max (unat (isize x)) (off + length bs)" using z by simp
    note wd = writtenD [OF w i [OF lt]]
    have c: "content V' ?y ! i = fbyte V' x' i" using lt z by (simp add: content_def f)
    consider "i < off" | "off \<le> i" "i < off + length bs" | "off + length bs \<le> i" "i < unat (isize x)" using lt by linarith
    then show "content V' ?y ! i = ?r ! i"
    proof cases
      case 1
      then show ?thesis unfolding c using wd(3) o by (simp add: nth_append content_def)
    next
      case 2
      then have "i - off < length bs" by linarith
      then show ?thesis unfolding c using wd(2) o 2 by (simp add: nth_append)
    next
      case 3
      then have "\<not> i - off < length bs" "\<not> i < off" by linarith+
      then show ?thesis unfolding c using wd(3) o 3 by (simp add: nth_append content_def)
    qed
  qed
qed

lemma sint_unat: "unat (n :: uint) < 2 ^ 31 \<Longrightarrow> sint n = int (unat n)"
proof -
  assume "unat n < 2 ^ 31"
  then have "int (unat n) < 2 ^ 31" by (simp only: of_nat_less_numeral_power_cancel_iff)
  then have u: "uint n < 2 ^ 31" "0 \<le> uint n" by (simp_all only: uint_nat of_nat_0_le_iff)
  have "sint n = signed_take_bit 31 (uint n)" by (simp only: sint_uint) simp
  also have "\<dots> = uint n" using u by (intro signed_take_bit_int_eq_self) linarith+
  finally show ?thesis by (simp only: uint_nat)
qed

subsection \<open>Reading and writing a file\<close>

definition file_end :: nat where "file_end = MAXFILE * BSIZE"

lemma file_end_bounds: "file_end = 71680" "n \<le> file_end \<Longrightarrow> n < 2 ^ 31" "n \<le> file_end \<Longrightarrow> n < 2 ^ 32"
  by (simp_all add: file_end_def MAXFILE_def NDIRECT_def NINDIRECT_def BSIZE_def)

lemma readi_runs:
  assumes s: "fs_st p L D W m sb ics Map.empty V bl s" and x: "ics ! ip = x" "i_dev x = 1" "itype x \<noteq> T_DEV" "file_ok V sb x"
    and sb: "sb_ok L (length D) sb" and r: "length bl < NBUF"
  shows "runs (readi ip off n) s (\<lambda>(r, bs) t. fs_st p L D W m sb ics Map.empty V bl t \<and>
    (if isize x < off \<or> off + n < off then r = -1 \<and> bs = []
     else bs = take (unat n) (drop (unat off) (content V x)) \<and> r = int (length bs)))" (is "runs _ _ ?Q")
proof (cases "isize x < off \<or> off + n < off")
  case True
  then show ?thesis using s x(1,3) fs_inode [OF s] by (auto simp: readi_def kern)
next
  case False
  define k where "k = (if off + n > isize x then isize x - off else n)"
  have le: "unat off \<le> unat (isize x)" using False by (simp add: word_le_nat_alt not_less)
  have fe: "unat (isize x) \<le> file_end" using x(4) by (simp add: file_ok_def file_end_def)
  have ov: "unat (off + n) = unat off + unat n" using False by (metis not_less unat_plus_simple)
  have k: "unat k = min (unat n) (unat (isize x) - unat off)"
  proof (cases "off + n > isize x")
    case True
    then have "unat k = unat (isize x) - unat off" using le by (simp add: k_def unat_sub word_le_nat_alt)
    moreover have "unat (isize x) < unat off + unat n" using True ov by (simp add: word_less_nat_alt)
    ultimately show ?thesis by simp
  next
    case F: False
    then have "unat off + unat n \<le> unat (isize x)" using ov by (simp add: word_less_nat_alt)
    then show ?thesis using F by (simp add: k_def)
  qed
  have len: "unat off + unat k \<le> unat (isize x)" using k le by simp
  have wf: "file_wf V sb x" using x(4) by (simp add: file_ok_def)
  have l: "runs (readi_loop ip off (unat k)) s (\<lambda>bs t. bs = map (fbyte V x) [unat off..<unat off + unat k] \<and> fs_st p L D W m sb ics Map.empty V bl t)"
    using s x(1,2) wf sb r by (rule readi_loop_runs) (use len x(4) in \<open>auto simp: file_ok_def\<close>)
  have c: "map (fbyte V x) [unat off..<unat off + unat k] = take (unat n) (drop (unat off) (content V x))"
    using k le by (intro nth_equalityI) (auto simp: content_def)
  have "sint k = int (unat k)" using len fe file_end_bounds(2) [of "unat k"] by (intro sint_unat) simp
  then have "sint k = int (length (map (fbyte V x) [unat off..<unat off + unat k]))" by simp
  then have rl: "sint k = int (length (take (unat n) (drop (unat off) (content V x))))" unfolding c .
  have "runs (bnd (readi_loop ip off (unat k)) (\<lambda>bs. ret (sint k, bs))) s ?Q"
    unfolding runs_bnd runs_ret if_not_P [OF False] prod.case c rl by (rule runs_weaken [OF l [unfolded c]]) blast
  then show ?thesis unfolding readi_def runs_bnd [of "gets _"] runs_gets using fs_inode [OF s] x(1,3) False
    by (cases "isize x < off + n") (simp_all add: Let_def k_def)
qed

text \<open>A file beside the one that is written: it has its own blocks.\<close>

definition beside :: "(nat \<Rightarrow> uchar list) \<Rightarrow> superblock \<Rightarrow> inode \<Rightarrow> inode \<Rightarrow> bool" where
  "beside V sb x y \<longleftrightarrow> file_ok V sb y \<and> own V y \<inter> own V x = {}"

lemma writei_runs:
  assumes s: "fs_st p L D W m sb ics Map.empty V bl s" and x: "ics ! ip = x" "ip < length ics" "i_dev x = 1" "itype x \<noteq> T_DEV" "file_ok V sb x"
    and sb: "sb_ok L (length D) sb" "bitmap_ok V sb" "unat (i_num x) < unat (sb_ninodes sb)"
    and o: "unat off \<le> unat (isize x)" "unat off + unat n \<le> file_end" "length src = unat n"
    and f: "2 * max_blocks (unat n) \<le> nfree sb V"
    and r: "length bl + 6 * max_blocks (unat n) < NBUF" "length bl + 6 * max_blocks (unat n) < log_room L"
  shows "runs (writei ip src off n) s (\<lambda>r t. r = int (unat n) \<and> (\<exists>V' x' bl'. fs_st p L D W m sb (ics[ip := x']) Map.empty V' bl' t \<and>
     length bl' \<le> Suc (length bl + 6 * max_blocks (unat n)) \<and> file_ok V' sb x' \<and> bitmap_ok V' sb \<and> content V' x' = take (unat off) (content V x) @ src @ drop (unat off + unat n) (content V x) \<and>
     (\<exists>a z. x' = x\<lparr>addrs := a, isize := z\<rparr>) \<and> (\<forall>y. beside V sb x y \<longrightarrow> beside V' sb x' y \<and> content V' y = content V y)))" (is "runs _ _ ?Q")
proof -
  have fe: "unat off + length src \<le> MAXFILE * BSIZE" using o by (simp add: file_end_def)
  have nb: "nblk (unat off) (length src) \<le> max_blocks (unat n)" using nblk_bound o(3) by simp
  have wf: "file_wf V sb x" using x(5) by (simp add: file_ok_def)
  have ov: "unat (off + n) = unat off + unat n" using o(2) file_end_bounds(3) [of "unat off + unat n"] by (simp add: unat_word_ariths)
  have sn: "sint n = int (unat n)" using o(2) file_end_bounds(2) [of "unat n"] by (intro sint_unat) simp
  have lp: "runs (writei_loop ip off src) s (\<lambda>_ t. \<exists>V' x' bl'. fs_st p L D W m sb (ics[ip := x']) Map.empty V' bl' t \<and>
     length bl' \<le> length bl + 6 * nblk (unat off) (length src) \<and> written sb V x (unat off) src V' x')"
    using f r nb by (intro writei_loop_runs [OF s x(1-3) wf sb(1,2) fe]) auto
  let ?K = "bnd (gets (\<lambda>s. isize (inode_at ip s))) (\<lambda>dsize. sq (whenM (n > 0 \<and> off + n > dsize)
     (sq (modify (upd_inode ip (\<lambda>x. x\<lparr>isize := off + n\<rparr>))) (iupdate ip))) (ret (sint n)))"
  have "runs (writei_loop ip off src) s (\<lambda>_ t. runs ?K t ?Q)"
  proof (rule runs_weaken [OF lp], elim exE conjE)
    fix t V1 x1 bl1
    assume t: "fs_st p L D W m sb (ics[ip := x1]) Map.empty V1 bl1 t" "length bl1 \<le> length bl + 6 * nblk (unat off) (length src)"
      and w: "written sb V x (unat off) src V1 x1"
    have g: "grown sb V x V1 x1" "bitmap_ok V1 sb" using w by (simp_all add: written_def)
    obtain a where a: "x1 = x\<lparr>addrs := a\<rparr>" using g by (auto simp: grown_def)
    have i1: "inode_at ip t = x1" using fs_inode [OF t(1)] x(2) by simp
    have bs: "file_ok V1 sb y \<and> content V1 y = content V y \<and> own V1 y = own V y \<and> own V y \<inter> own V1 x1 = {}" if "beside V sb x y" for y
      using grown_other [OF g(1)] that by (auto simp: beside_def)
    show "runs ?K t ?Q"
    proof (cases "n > 0 \<and> off + n > isize x")
      case False
      then have big: "unat off + unat n \<le> unat (isize x)"
        using o(1) ov by (auto simp: word_less_nat_alt not_less unat_eq_zero word_gt_0)
      then have "unat (isize x) = max (unat (isize x)) (unat off + length src)" using o(3) by simp
      from written_content [OF w x(5) o(1) fe this] have
        wc: "file_ok V1 sb x1" "content V1 x1 = take (unat off) (content V x) @ src @ drop (unat off + unat n) (content V x)" using a o(3) by simp_all
      have "x1 = x\<lparr>addrs := a, isize := isize x\<rparr>" using a by simp
      moreover have "length bl1 \<le> Suc (length bl + 6 * max_blocks (unat n))" using t(2) nb by simp
      ultimately have "?Q (sint n) t" using t(1) wc g(2) bs sn unfolding beside_def by blast
      moreover have "(n > 0 \<and> off + n > isize (inode_at ip t)) = False" using False i1 a by simp
      ultimately show ?thesis by (simp only: runs_bnd runs_gets runs_sq runs_ret runs_when simp_thms if_False)
    next
      case True
      let ?x2 = "x1\<lparr>isize := off + n\<rparr>" and ?u = "upd_inode ip (\<lambda>x. x\<lparr>isize := off + n\<rparr>) t"
      have u: "fs_st p L D W m sb (ics[ip := ?x2]) Map.empty V1 bl1 ?u"
        using fs_st_upd_inode [OF t(1), of ip "\<lambda>x. x\<lparr>isize := off + n\<rparr>"] x(2) by simp
      have "unat (off + n) = max (unat (isize x)) (unat off + length src)" using True ov o(3) by (simp add: word_less_nat_alt)
      from written_content [OF w x(5) o(1) fe this] have
        wc: "file_ok V1 sb ?x2" "content V1 ?x2 = take (unat off) (content V x) @ src @ drop (unat off + unat n) (content V x)" "own V1 ?x2 = own V1 x1"
        using o(3) by simp_all
      let ?ib = "unat (IBLOCK (i_num x) sb)"
      let ?V2 = "V1(?ib := enc_dinode (dinode_off (i_num x)) ?x2 (V1 ?ib))"
      note ib = IBLOCK_bounds [OF sb(1,3)]
      have iu: "runs (iupdate ip) ?u (\<lambda>_. fs_st p L D W m sb (ics[ip := ?x2]) Map.empty ?V2 (absorb (IBLOCK (i_num x) sb) bl1))"
        using iupdate_runs [OF u, of ip ?x2] x(2,3) sb(1,3) wc(1) a r t(2) nb by (simp add: file_ok_def file_wf_def)
      have "?Q (sint n) v" if v: "fs_st p L D W m sb (ics[ip := ?x2]) Map.empty ?V2 (absorb (IBLOCK (i_num x) sb) bl1) v" for v
      proof -
        have "?V2 (map_block sb c) = V1 (map_block sb c)" for c using ib(4) [of c] by auto
        then have "in_use ?V2 sb c = in_use V1 sb c" for c by (rule in_use_cong)
        then have "bitmap_ok ?V2 sb" using g(2) by (simp add: bitmap_ok_def)
        moreover have "file_ok ?V2 sb ?x2" "content ?V2 ?x2 = take (unat off) (content V x) @ src @ drop (unat off + unat n) (content V x)" "own ?V2 ?x2 = own V1 x1"
          using meta_upd [OF wc(1) ib(1,4)] wc(2,3) by simp_all
        moreover have "beside ?V2 sb ?x2 y \<and> content ?V2 y = content V y" if y: "beside V sb x y" for y
          using bs [OF y] meta_upd [of V1 sb y ?ib, OF _ ib(1,4)] calculation(4) by (simp add: beside_def)
        moreover have "?x2 = x\<lparr>addrs := a, isize := off + n\<rparr>" using a by simp
        moreover have "length (absorb (IBLOCK (i_num x) sb) bl1) \<le> Suc (length bl + 6 * max_blocks (unat n))"
          using length_absorb(2) [of "IBLOCK (i_num x) sb" bl1] t(2) nb by simp
        ultimately show ?thesis using v sn by blast
      qed
      then have "runs (iupdate ip) ?u (\<lambda>_. ?Q (sint n))" by (rule runs_weaken [OF iu])
      moreover have "(n > 0 \<and> off + n > isize (inode_at ip t)) = True" using True i1 a by simp
      ultimately show ?thesis by (simp only: runs_bnd runs_gets runs_sq runs_ret runs_when runs_modify simp_thms if_True)
    qed
  qed
  moreover have "\<not> (isize x < off \<or> off + n < off)" "\<not> off + n > of_nat (MAXFILE * BSIZE)"
    using o ov file_end_bounds(1) unat_of_nat32 [of file_end] by (auto simp: word_less_nat_alt file_end_def)
  moreover have "inode_at ip s = x" using fs_inode [OF s] x(1) by simp
  ultimately show ?thesis unfolding writei_def using x(4) o(3) by (simp only: runs_bnd runs_gets runs_sq if_False if_True simp_thms take_all order_refl)
qed

lemma writei_rejects:
  assumes x: "inode_at ip s = x" "itype x \<noteq> T_DEV" and o: "\<not> (unat off \<le> unat (isize x) \<and> unat off + unat n \<le> file_end)"
  shows "writei ip src off n s = Done (-1) s"
proof -
  have "isize x < off \<or> off + n < off \<or> of_nat (MAXFILE * BSIZE) < off + n"
  proof (cases "off + n < off")
    case False
    then have "unat (off + n) = unat off + unat n" by (metis not_less unat_plus_simple)
    moreover have "unat (of_nat file_end :: uint) = file_end" by (simp add: file_end_bounds(1))
    ultimately show ?thesis using o by (auto simp: word_less_nat_alt file_end_def)
  qed simp
  then show ?thesis using x by (auto simp: writei_def bnd_def gets_def ret_def)
qed

subsection \<open>A file is the sequence of its bytes\<close>

text \<open>C2. A file is a byte sequence and readi and writei are its operations. For an inode whose blocks are
  data blocks in use, none of them serving twice: readi at an offset past the end, or whose end wraps, returns
  -1; otherwise it returns exactly the bytes of the file from the offset on, at most n of them, and changes
  neither the file system nor the log. A writei that starts inside the file and ends below the largest file size
  succeeds, given the free blocks, buffers and log room it can need: the file then holds its old bytes with the
  written range replaced and, where the write ends past the old end, extended; the inode keeps everything but its block
  addresses and its size; the free map stays sound; and every other file that shares no block with this one
  keeps its bytes and still shares none. Any other writei returns -1 and changes nothing.\<close>

theorem file_contents:
  assumes s: "fs_st p L D W m sb ics Map.empty V bl s"
    and x: "ics ! ip = x" "ip < length ics" "i_dev x = 1" "itype x \<noteq> T_DEV" "file_ok V sb x"
    and sb: "sb_ok L (length D) sb" "bitmap_ok V sb" "unat (i_num x) < unat (sb_ninodes sb)"
  shows "(length bl < NBUF \<longrightarrow> runs (readi ip off n) s (\<lambda>(r, bs) t. fs_st p L D W m sb ics Map.empty V bl t \<and>
      (if isize x < off \<or> off + n < off then r = -1 \<and> bs = []
       else bs = take (unat n) (drop (unat off) (content V x)) \<and> r = int (length bs)))) \<and>
    (if unat off \<le> unat (isize x) \<and> unat off + unat n \<le> file_end
     then length src = unat n \<and> 2 * max_blocks (unat n) \<le> nfree sb V \<and> length bl + 6 * max_blocks (unat n) < min NBUF (log_room L) \<longrightarrow>
       runs (writei ip src off n) s (\<lambda>r t. r = int (unat n) \<and> (\<exists>V' x' bl'. fs_st p L D W m sb (ics[ip := x']) Map.empty V' bl' t \<and>
         length bl' \<le> Suc (length bl + 6 * max_blocks (unat n)) \<and> file_ok V' sb x' \<and> bitmap_ok V' sb \<and> content V' x' = take (unat off) (content V x) @ src @ drop (unat off + unat n) (content V x) \<and>
         (\<exists>a z. x' = x\<lparr>addrs := a, isize := z\<rparr>) \<and> (\<forall>y. beside V sb x y \<longrightarrow> beside V' sb x' y \<and> content V' y = content V y)))
     else runs (writei ip src off n) s (\<lambda>r t. r = -1 \<and> t = s))" (is "_ \<and> (if _ then ?W else ?R)")
proof (intro conjI impI)
  assume "length bl < NBUF"
  then show "runs (readi ip off n) s (\<lambda>(r, bs) t. fs_st p L D W m sb ics Map.empty V bl t \<and>
      (if isize x < off \<or> off + n < off then r = -1 \<and> bs = []
       else bs = take (unat n) (drop (unat off) (content V x)) \<and> r = int (length bs)))"
    by (rule readi_runs [OF s x(1,3,4,5) sb(1)])
next
  show "if unat off \<le> unat (isize x) \<and> unat off + unat n \<le> file_end then ?W else ?R"
  proof (rule if_split [THEN iffD2], intro conjI impI, elim conjE)
    assume "unat off \<le> unat (isize x)" "unat off + unat n \<le> file_end" "length src = unat n" "2 * max_blocks (unat n) \<le> nfree sb V"
      "length bl + 6 * max_blocks (unat n) < min NBUF (log_room L)"
    then show "runs (writei ip src off n) s (\<lambda>r t. r = int (unat n) \<and> (\<exists>V' x' bl'. fs_st p L D W m sb (ics[ip := x']) Map.empty V' bl' t \<and>
         length bl' \<le> Suc (length bl + 6 * max_blocks (unat n)) \<and> file_ok V' sb x' \<and> bitmap_ok V' sb \<and> content V' x' = take (unat off) (content V x) @ src @ drop (unat off + unat n) (content V x) \<and>
         (\<exists>a z. x' = x\<lparr>addrs := a, isize := z\<rparr>) \<and> (\<forall>y. beside V sb x y \<longrightarrow> beside V' sb x' y \<and> content V' y = content V y)))"
      by (intro writei_runs [OF s x sb]) simp_all
  next
    assume "\<not> (unat off \<le> unat (isize x) \<and> unat off + unat n \<le> file_end)"
    then show "runs (writei ip src off n) s (\<lambda>r t. r = -1 \<and> t = s)"
      using writei_rejects [of s ip x off n src] fs_inode [OF s] x(1,4) by (simp add: runs_Done)
  qed
qed

subsection \<open>A concrete file\<close>

definition quiet_devices where
  "quiet_devices = \<lparr>the_input = \<lparr>ibuf = replicate INPUT_BUF 0, ir = 0, iw = 0, ie = 0\<rparr>, the_devsw = [], kbd_shift = 0, kbd_bytes = [],
     uart_bytes = [], uart_lsr = 0, uart_ctl = [], ioapic = (\<lambda>_. 0), ioapicid = 0\<rparr>"

definition empty_file :: inode where
  "empty_file = \<lparr>itype = T_FILE, major = 0, minor = 0, nlink = 1, isize = 0, addrs = replicate 13 0, i_dev = 1, i_num = 1,
     i_ref = 1, i_valid = True, i_containerID = 0\<rparr>"

lemma empty_file_ok: "file_ok V sb empty_file" "content V empty_file = []"
proof -
  have "fblock V empty_file n = 0" if "n < MAXFILE" for n
    using that by (auto simp: fblock_def empty_file_def NDIRECT_def)
  then show "file_ok V sb empty_file" "content V empty_file = []"
    by (auto simp: file_ok_def file_wf_def own_def content_def empty_file_def NDIRECT_def)
qed

lemma nfree_fs_disk: "nfree fs_sb (\<lambda>b. fs_disk ! b) = 5"
proof -
  have "unat (sb_size fs_sb) = 40" by (simp add: fs_sb_def)
  then have "{b. b < unat (sb_size fs_sb) \<and> \<not> in_use (\<lambda>b. fs_disk ! b) fs_sb b} = {35..<40}" using fs_disk_sb(3) by auto
  then show ?thesis by (simp add: nfree_def)
qed

theorem file_contents_witness:
  "\<exists>t :: kdev. binit (fs_boot [empty_file] quiet_devices) = Done () t \<and>
    runs (writei 0 [7, 8, 9] 0 3) t (\<lambda>r u. r = 3 \<and> runs (readi 0 1 5) u (\<lambda>(r, bs) _. r = 2 \<and> bs = [8, 9]))"
proof -
  obtain t :: kdev where t: "binit (fs_boot [empty_file] quiet_devices) = Done () t"
    "fs_st 0 fs_log fs_disk [] quiet_devices fs_sb [empty_file] Map.empty (\<lambda>b. fs_disk ! b) [] t"
    by (rule fs_boot_state)
  have sb: "sb_ok fs_log (length fs_disk) fs_sb" using fs_disk_sb(1) by (simp add: fs_disk_facts)
  have m: "max_blocks 3 = 2" "NBUF = 30" "log_room fs_log = 29"
    by (simp_all add: max_blocks_def BSIZE_def log_room_def fs_log_def boot_log_def NBUF_def MAXOPBLOCKS_def LOGSIZE_def)
  have e: "i_dev empty_file = 1" "itype empty_file \<noteq> T_DEV" "unat (i_num empty_file) < unat (sb_ninodes fs_sb)" "unat (isize empty_file) = 0"
    by (simp_all add: empty_file_def T_FILE_def T_DEV_def fs_sb_def)
  have w: "runs (writei 0 [7, 8, 9] 0 3) t (\<lambda>r u. r = 3 \<and> (\<exists>V' x' bl'. fs_st 0 fs_log fs_disk [] quiet_devices fs_sb [x'] Map.empty V' bl' u \<and> length bl' < NBUF \<and>
    file_ok V' fs_sb x' \<and> bitmap_ok V' fs_sb \<and> content V' x' = [7, 8, 9] \<and> (\<exists>a z. x' = empty_file\<lparr>addrs := a, isize := z\<rparr>)))"
    using file_contents [OF t(2) _ _ e(1,2) empty_file_ok(1) sb fs_disk_sb(4) e(3), of 0 0 3 "[7, 8, 9]"]
    by (auto simp: e(4) file_end_bounds(1) m nfree_fs_disk empty_file_ok(2) elim!: runs_weaken) (intro exI conjI, assumption, linarith, assumption+, rule refl)
  have "runs (readi 0 1 5) u (\<lambda>(r, bs) _. r = 2 \<and> bs = [8, 9])"
    if u: "fs_st 0 fs_log fs_disk [] quiet_devices fs_sb [x] Map.empty V bl u" "length bl < NBUF" "file_ok V fs_sb x" "bitmap_ok V fs_sb"
      "content V x = [7, 8, 9]" "x = empty_file\<lparr>addrs := a, isize := z\<rparr>" for u V x bl a z
  proof -
    have "unat (isize x) = 3" using u(5) length_content [of V x] by simp
    then have "isize x = 3" by (auto intro: unsigned_word_eqI [where 'a = nat])
    then show ?thesis
      using file_contents [OF u(1) _ _ _ _ u(3) sb u(4), of 0 1 5 "[]"] u(2,5) e by (auto simp: u(6) elim!: runs_weaken)
  qed
  then have "runs (writei 0 [7, 8, 9] 0 3) t (\<lambda>r u. r = 3 \<and> runs (readi 0 1 5) u (\<lambda>(r, bs) _. r = 2 \<and> bs = [8, 9]))"
    by (intro runs_weaken [OF w]) blast
  with t(1) show ?thesis by blast
qed

end
