(* ===== verification/Spec2Isabelle.thy ===== *)
theory Spec2Isabelle
  imports Smp Typed Grep Shell Ide Contents
begin

text \<open>
  Verification of the xv6 kernel with containers, \<^verbatim>\<open>src/\<close>.

  \<^bold>\<open>The program.\<close> A Unix-like kernel for 32-bit x86 machines in C: spin locks and sleep locks, a page allocator, page
  tables, processes with a scheduler, a buffer cache over a disk, a write-ahead log, a file system with directories, pipes,
  a console, traps and system calls. This version adds containers: groups of processes with their own scheduling,
  memory records and file visibility (\<^verbatim>\<open>proc.c\<close>, \<^verbatim>\<open>sysproc.c\<close>, \<^verbatim>\<open>sysfile.c\<close>).

  \<^bold>\<open>How code becomes definitions.\<close> A kernel function is a function from the kernel state to an outcome (theory Prelude):
  \<open>Done\<close> with a result and the new state, \<open>Switches\<close> when it gives the processor to the scheduler, \<open>Spins\<close> when it
  would wait for a spin lock, \<open>Panic\<close> with the source's message, and \<open>Undef\<close> where C gives no meaning (an access
  outside an array, a null pointer). The function after a context switch is a definition of its own with the suffix
  \<open>_resume\<close>. The state is a chain of records, each component adding its globals: \<open>kcpu\<close> (locks, processors), \<open>kmach\<close>
  (memory, page allocator), \<open>kcons\<close> (screen), \<open>kproc\<close> (processes, containers), \<open>kslp\<close> (sleep locks), \<open>kbio\<close> (buffers,
  disk), \<open>klog\<close>, \<open>kpipe\<close>, \<open>kino\<close> (inodes), \<open>kdev\<close> (input devices), \<open>kfile\<close> (open files, clock). Every operation is
  polymorphic in the rest of the chain, so it is used unchanged by the components above it. Integers keep their
  width: \<open>uint\<close> is a 32-bit word, \<open>uchar\<close> an 8-bit word, a C \<open>int\<close> is an \<open>int\<close> cut back by \<open>int32\<close> where it can overflow.

  \<^bold>\<open>The theories.\<close> In the order in which they build on each other:
  \<^item> Prelude: outcomes, sequencing, the judgements \<open>runs\<close> (returns, with this result), \<open>if_runs\<close> and \<open>keeps\<close>.
  \<^item> Spinlock, Smp (\<^verbatim>\<open>spinlock.c\<close>): interrupt nesting, acquire and release; mutual exclusion of several processors as an
    inductive step relation.
  \<^item> CString (\<^verbatim>\<open>string.c\<close>): memory and string routines on byte memory.
  \<^item> Kalloc (\<^verbatim>\<open>kalloc.c\<close>): the free list in the free pages refines a stack of pages; locale \<open>page_allocator\<close>.
  \<^item> Console (\<^verbatim>\<open>console.c\<close>, \<^verbatim>\<open>uart.c\<close>): printing; the digits read back; locale \<open>digit_table\<close>.
  \<^item> Proc, Container, Sched (\<^verbatim>\<open>proc.c\<close>): the process table, containers, the scheduler. The rest of the system between
    two context switches is the parameter \<open>run\<close> of the scheduler.
  \<^item> Sleeplock (\<^verbatim>\<open>sleeplock.c\<close>), Bio (\<^verbatim>\<open>bio.c\<close>, \<^verbatim>\<open>memide.c\<close>): the buffer list refines a least-recently-used sequence; the
    cache refines a map from block numbers to contents; locale \<open>block_cache\<close>.
  \<^item> Bytes, Log (\<^verbatim>\<open>log.c\<close>): C structs in blocks; the log uses \<open>block_cache\<close>. A transaction is atomic with respect to a crash
    between any two disk writes.
  \<^item> RingBuffer, Pipe (\<^verbatim>\<open>pipe.c\<close>), Devices (\<^verbatim>\<open>kbd.c\<close>, \<^verbatim>\<open>uart.c\<close>, \<^verbatim>\<open>console.c\<close>, \<^verbatim>\<open>ioapic.c\<close>): counters that wrap around; pipes and
    the console's line buffer refine queues; locale \<open>ring_buffer\<close>.
  \<^item> Inode, Fs (\<^verbatim>\<open>fs.c\<close>): disk blocks, inodes, file contents, directories, paths.
  \<^item> Blocks, Contents (\<^verbatim>\<open>fs.c\<close>): what these do, inside a transaction: locale \<open>block_txn\<close>, the block allocator against the set
    of used blocks, a file against a sequence of bytes.
  \<^item> Vm (\<^verbatim>\<open>vm.c\<close>), File (\<^verbatim>\<open>file.c\<close>), Exec (\<^verbatim>\<open>exec.c\<close>), Lifecycle (\<^verbatim>\<open>proc.c\<close>): page tables, open files, loading a program,
    fork, exit and wait.
  \<^item> Sysfile, Syscall (\<^verbatim>\<open>syscall.c\<close>, \<^verbatim>\<open>sysfile.c\<close>, \<^verbatim>\<open>sysproc.c\<close>, \<^verbatim>\<open>trap.c\<close>): arguments, every system call, traps.
  \<^item> Typed: every trap and system call keeps the kernel's tables well-typed.
  \<^item> Grep (\<^verbatim>\<open>grep.c\<close>): the matcher against the language of a pattern, the loop against the lines of the input.
  \<^item> Ulib (\<^verbatim>\<open>ulib.c\<close>, \<^verbatim>\<open>printf.c\<close>), Shell (\<^verbatim>\<open>sh.c\<close>): the user library; the shell's parser with its inverse, and the descriptors of the
    programs a command line starts.

  \<^bold>\<open>Locales.\<close> An interface between components is a locale, interpreted on the definitions that provide it: the page
  allocator on \<open>kalloc\<close> and \<open>kfree\<close>, the block cache on \<open>bread\<close>, \<open>bwrite\<close> and \<open>brelse\<close> both below and inside the log, the
  transaction interface on \<open>bread\<close>, \<open>log_write\<close> and \<open>brelse\<close>, ring buffers on pipes and the console, digit tables on
  the two bases of \<open>printint\<close>.

  \<^bold>\<open>Bounds and fuel.\<close> Loops over tables and lists are recursions over them. Three kinds of loops get a bound: the scans
  of the buffer list follow the links for one step more than there are buffers, and the list invariant shows that the scan ends
  before; an interrupt handler takes one character more than its device holds, and the last attempt finds none; string scans in
  user memory end at the size of the process. The polling delays of devices are left out.

  \<^bold>\<open>What the model abstracts from.\<close> Operations run to completion or to a context switch on one processor; interleaving
  of processors is modelled for spin locks only (Smp), and what other processors do while a lock is dropped (in
  \<open>destroyContainer\<close> around \<open>kill\<close>, in \<open>sleep\<close>) is not. Kernel pointers to table entries are positions in the tables, null is
  \<open>None\<close>. The debugging call stacks are left out.

  \<^bold>\<open>Not modelled.\<close> Assembly (boot, trap entry, context switch: a switch is the outcome \<open>Switches\<close>); the boot loader, \<^verbatim>\<open>main.c\<close>, \<^verbatim>\<open>mp.c\<close>,
  \<^verbatim>\<open>lapic.c\<close> and \<^verbatim>\<open>picirq.c\<close>, which program hardware before the kernel runs; the driver of a physical disk \<^verbatim>\<open>ide.c\<close> (the model has
  the in-memory disk \<^verbatim>\<open>memide.c\<close> with the same interface); segment and interrupt descriptor tables (\<^verbatim>\<open>seginit\<close>, \<^verbatim>\<open>tvinit\<close>); the
  host program \<^verbatim>\<open>mkfs.c\<close>; the small user programs and the test programs; \<^verbatim>\<open>container_manager.c\<close>, which is commented out.
\<close>

end
